(* ===== verification/Prelude.thy ===== *)
theory Prelude
  imports Main "HOL-Library.Word" "HOL-Library.Multiset" "HOL-Library.List_Lexorder" "HOL-Library.Char_ord"
begin

text \<open>
  Shared vocabulary of the development: Rust's \<open>Ordering\<close> with the laws a comparator must satisfy
  (locale \<open>total_cmp\<close>), the stable sort \<open>sort_by\<close>, results \<open>Result<T, String>\<close> as sums, the
  bounded integer arithmetic of \<open>i64\<close> and \<open>u64\<close> on \<^typ>\<open>int\<close>, and the byte-string helpers of
  \<open>str\<close>. A Rust \<open>str\<close> is the \<^typ>\<open>string\<close> of its UTF-8 bytes, so \<open>len\<close> is \<^const>\<open>length\<close> and
  the derived order is the lexicographic order of bytes.
\<close>

section \<open>Collections of rules\<close>

named_theorems order_rules \<open>comparators are total preorders\<close>
named_theorems int_bounds \<open>range facts of saturating and checked arithmetic\<close>

section \<open>Comparators\<close>

datatype ordering = Less | Equal | Greater

fun rev_ordering :: "ordering \<Rightarrow> ordering" where
  "rev_ordering Less = Greater"
| "rev_ordering Equal = Equal"
| "rev_ordering Greater = Less"

definition then_with :: "ordering \<Rightarrow> ordering \<Rightarrow> ordering" where
  "then_with a b = (if a = Equal then b else a)"

definition cmp :: "'a::linorder \<Rightarrow> 'a \<Rightarrow> ordering" where
  "cmp x y = (if x < y then Less else if x = y then Equal else Greater)"

lemma then_with_simps [simp]:
  "then_with Equal b = b" "then_with Less b = Less" "then_with Greater b = Greater"
  by (simp_all add: then_with_def)

lemma then_with_Equal_iff [simp]: "then_with a b = Equal \<longleftrightarrow> a = Equal \<and> b = Equal"
  by (simp add: then_with_def)

lemma cmp_iffs [simp]:
  "cmp x y = Less \<longleftrightarrow> x < y" "cmp x y = Equal \<longleftrightarrow> x = y" "cmp x y = Greater \<longleftrightarrow> y < x"
  by (auto simp: cmp_def)

lemma rev_ordering_iffs [simp]:
  "rev_ordering a = Less \<longleftrightarrow> a = Greater" "rev_ordering a = Equal \<longleftrightarrow> a = Equal"
  "rev_ordering a = Greater \<longleftrightarrow> a = Less"
  "Less = rev_ordering a \<longleftrightarrow> a = Greater" "Equal = rev_ordering a \<longleftrightarrow> a = Equal"
  "Greater = rev_ordering a \<longleftrightarrow> a = Less"
  by (cases a; simp)+

lemma rev_then_with [simp]:
  "rev_ordering (then_with a b) = then_with (rev_ordering a) (rev_ordering b)"
  by (cases a) simp_all

text \<open>
  The contract \<open>slice::sort_by\<close> and \<open>BinaryHeap\<close> demand of a comparator: it answers the opposite when
  the arguments swap, and "not greater" is transitive.
\<close>

locale total_cmp =
  fixes c :: "'a \<Rightarrow> 'a \<Rightarrow> ordering"
  assumes flip: "c y x = rev_ordering (c x y)"
    and trans: "c x y \<noteq> Greater \<Longrightarrow> c y z \<noteq> Greater \<Longrightarrow> c x z \<noteq> Greater"
begin

lemma refl: "c x x = Equal"
  using flip [of x x] by (cases "c x x") auto

lemma total: "c x y \<noteq> Greater \<or> c y x \<noteq> Greater"
  using flip [of x y] by (cases "c x y") auto

lemma less_trans: "c x y = Less \<Longrightarrow> c y z \<noteq> Greater \<Longrightarrow> c x z = Less"
proof -
  assume xy: "c x y = Less" and yz: "c y z \<noteq> Greater"
  have "c x z \<noteq> Greater" using trans [of x y z] xy yz by simp
  moreover have "c x z \<noteq> Equal"
  proof
    assume "c x z = Equal"
    then have "c z x \<noteq> Greater" using flip [of x z] by simp
    then have "c y x \<noteq> Greater" using trans yz by blast
    then show False using flip [of x y] xy by simp
  qed
  ultimately show ?thesis by (cases "c x z") auto
qed

lemma le_less_trans: "c x y \<noteq> Greater \<Longrightarrow> c y z = Less \<Longrightarrow> c x z = Less"
proof -
  assume xy: "c x y \<noteq> Greater" and yz: "c y z = Less"
  have "c z y = Greater" using flip [of y z] yz by simp
  then have "c z x = Greater" using trans [of z x y] xy by blast
  then show ?thesis using flip [of z x] by simp
qed

lemma Equal_sym: "c x y = Equal \<longleftrightarrow> c y x = Equal"
  using flip [of x y] by (cases "c x y") auto

lemma Equal_trans: "c x y = Equal \<Longrightarrow> c y z = Equal \<Longrightarrow> c x z = Equal"
proof -
  assume xy: "c x y = Equal" and yz: "c y z = Equal"
  have "c x z \<noteq> Greater" using trans [of x y z] xy yz by simp
  moreover have "c z x \<noteq> Greater" using trans [of z y x] flip [of x y] flip [of y z] xy yz by simp
  ultimately show ?thesis using flip [of x z] by (cases "c x z") auto
qed

end

lemma total_cmp_linorder [order_rules]: "total_cmp (cmp :: 'a::linorder \<Rightarrow> 'a \<Rightarrow> ordering)"
  by unfold_locales (auto simp: cmp_def split: if_splits)

interpretation lin: total_cmp "cmp :: 'a::linorder \<Rightarrow> 'a \<Rightarrow> ordering"
  by (rule total_cmp_linorder)

lemma total_cmp_on [order_rules]: "total_cmp c \<Longrightarrow> total_cmp (\<lambda>x y. c (f x) (f y))"
  unfolding total_cmp_def by blast

lemma total_cmp_then [order_rules]:
  assumes c: "total_cmp c" and d: "total_cmp d"
  shows "total_cmp (\<lambda>x y. then_with (c x y) (d x y))"
proof
  fix x y
  show "then_with (c y x) (d y x) = rev_ordering (then_with (c x y) (d x y))"
    using total_cmp.flip [OF c, of y x] total_cmp.flip [OF d, of y x] by simp
next
  fix x y z
  assume xy: "then_with (c x y) (d x y) \<noteq> Greater" and yz: "then_with (c y z) (d y z) \<noteq> Greater"
  then have le: "c x y \<noteq> Greater" "c y z \<noteq> Greater" by (auto simp: then_with_def split: if_splits)
  show "then_with (c x z) (d x z) \<noteq> Greater"
  proof (cases "c x y = Equal \<and> c y z = Equal")
    case True
    then have "c x z = Equal" using total_cmp.Equal_trans [OF c] by blast
    moreover have "d x z \<noteq> Greater"
      using True xy yz total_cmp.trans [OF d] by (simp add: then_with_def)
    ultimately show ?thesis by simp
  next
    case False
    then consider "c x y = Less" | "c x y = Equal" "c y z = Less"
      using le by (cases "c x y"; cases "c y z") auto
    then have "c x z = Less"
    proof cases
      case 1 then show ?thesis using total_cmp.less_trans [OF c] le by blast
    next
      case 2
      have "c z x \<noteq> Equal \<and> c z x \<noteq> Less"
      proof (rule ccontr)
        assume "\<not> (c z x \<noteq> Equal \<and> c z x \<noteq> Less)"
        then have "c z x \<noteq> Greater" by auto
        then have "c z y \<noteq> Greater" using total_cmp.trans [OF c] 2 by fastforce
        then show False using total_cmp.flip [OF c, of z y] 2 by simp
      qed
      then show ?thesis using total_cmp.flip [OF c, of x z] by (cases "c z x") auto
    qed
    then show ?thesis by simp
  qed
qed

section \<open>The stable sort\<close>

fun insort_by :: "('a \<Rightarrow> 'a \<Rightarrow> ordering) \<Rightarrow> 'a \<Rightarrow> 'a list \<Rightarrow> 'a list" where
  "insort_by c x [] = [x]"
| "insort_by c x (y # ys) = (if c x y = Greater then y # insort_by c x ys else x # y # ys)"

fun sort_by :: "('a \<Rightarrow> 'a \<Rightarrow> ordering) \<Rightarrow> 'a list \<Rightarrow> 'a list" where
  "sort_by c [] = []"
| "sort_by c (x # xs) = insort_by c x (sort_by c xs)"

lemma mset_insort_by [simp]: "mset (insort_by c x xs) = add_mset x (mset xs)"
  by (induction xs) auto

lemma mset_sort_by [simp]: "mset (sort_by c xs) = mset xs"
  by (induction xs) auto

lemma set_insort_by [simp]: "set (insort_by c x xs) = insert x (set xs)"
  by (metis mset_insort_by set_mset_add_mset_insert set_mset_mset)

lemma set_sort_by [simp]: "set (sort_by c xs) = set xs"
  by (metis mset_sort_by set_mset_mset)

lemma length_sort_by [simp]: "length (sort_by c xs) = length xs"
  by (metis mset_sort_by size_mset)

lemma distinct_sort_by [simp]: "distinct (sort_by c xs) = distinct xs"
  by (metis mset_sort_by mset_eq_imp_distinct_iff)

lemma distinct_map_sort_by [simp]: "distinct (map f (sort_by c xs)) = distinct (map f xs)"
  by (metis mset_map mset_sort_by mset_eq_imp_distinct_iff)

lemma sort_by_Nil_iff [simp]: "sort_by c xs = [] \<longleftrightarrow> xs = []"
  by (metis length_0_conv length_sort_by)

context total_cmp
begin

lemma sorted_insort_by:
  "sorted_wrt (\<lambda>x y. c x y \<noteq> Greater) xs \<Longrightarrow> sorted_wrt (\<lambda>x y. c x y \<noteq> Greater) (insort_by c x xs)"
proof (induction xs)
  case Nil
  then show ?case by simp
next
  case (Cons y ys)
  show ?case
  proof (cases "c x y = Greater")
    case True
    then have "c y x \<noteq> Greater" using total by blast
    with Cons True show ?thesis by auto
  next
    case False
    then have "\<forall>z \<in> set ys. c x z \<noteq> Greater" using Cons.prems trans by (auto intro: trans)
    with Cons False show ?thesis by auto
  qed
qed

lemma sorted_sort_by: "sorted_wrt (\<lambda>x y. c x y \<noteq> Greater) (sort_by c xs)"
  by (induction xs) (auto intro: sorted_insort_by)

lemma insort_by_le: "\<forall>y \<in> set ys. c x y \<noteq> Greater \<Longrightarrow> insort_by c x ys = x # ys"
  by (cases ys) auto

lemma sort_by_sorted: "sorted_wrt (\<lambda>x y. c x y \<noteq> Greater) xs \<Longrightarrow> sort_by c xs = xs"
  by (induction xs) (auto simp: insort_by_le)

end

section \<open>Results\<close>

type_synonym 'a result = "string + 'a"

definition bind_result :: "'e + 'a \<Rightarrow> ('a \<Rightarrow> 'e + 'b) \<Rightarrow> 'e + 'b" where
  "bind_result r f = (case r of Inl e \<Rightarrow> Inl e | Inr a \<Rightarrow> f a)"

lemma bind_result_simps [simp]:
  "bind_result (Inl e) f = Inl e" "bind_result (Inr a) f = f a"
  by (simp_all add: bind_result_def)

lemma bind_result_Inr_iff: "bind_result r f = Inr b \<longleftrightarrow> (\<exists>a. r = Inr a \<and> f a = Inr b)"
  by (cases r) auto

section \<open>Bounded integers\<close>

text \<open>
  \<open>i64\<close>, \<open>u64\<close>, \<open>i32\<close> and \<open>u32\<close> values are integers in the range of their type; every operation of the
  source that saturates or checks for overflow is one of the following.
\<close>

abbreviation i64_max :: int where "i64_max \<equiv> 9223372036854775807"
abbreviation i64_min :: int where "i64_min \<equiv> - 9223372036854775808"
abbreviation u64_max :: int where "u64_max \<equiv> 18446744073709551615"
abbreviation u32_max :: int where "u32_max \<equiv> 4294967295"
abbreviation i32_max :: int where "i32_max \<equiv> 2147483647"
abbreviation i32_min :: int where "i32_min \<equiv> - 2147483648"

definition in_i64 :: "int \<Rightarrow> bool" where "in_i64 x = (i64_min \<le> x \<and> x \<le> i64_max)"
definition in_u64 :: "int \<Rightarrow> bool" where "in_u64 x = (0 \<le> x \<and> x \<le> u64_max)"

definition sat_i64 :: "int \<Rightarrow> int" where "sat_i64 x = max i64_min (min i64_max x)"
definition sat_u64 :: "int \<Rightarrow> int" where "sat_u64 x = max 0 (min u64_max x)"
definition chk_i64 :: "int \<Rightarrow> int option" where "chk_i64 x = (if in_i64 x then Some x else None)"
definition chk_u64 :: "int \<Rightarrow> int option" where "chk_u64 x = (if in_u64 x then Some x else None)"

lemma sat_i64_range [int_bounds]: "in_i64 (sat_i64 x)"
  by (auto simp: in_i64_def sat_i64_def)

lemma sat_i64_id [simp]: "in_i64 x \<Longrightarrow> sat_i64 x = x"
  by (auto simp: in_i64_def sat_i64_def)

lemma sat_u64_range [int_bounds]: "in_u64 (sat_u64 x)"
  by (auto simp: in_u64_def sat_u64_def)

lemma sat_u64_id [simp]: "in_u64 x \<Longrightarrow> sat_u64 x = x"
  by (auto simp: in_u64_def sat_u64_def)

lemma chk_i64_Some_iff [simp]: "chk_i64 x = Some y \<longleftrightarrow> in_i64 x \<and> y = x"
  by (auto simp: chk_i64_def)

lemma chk_i64_None_iff [simp]: "chk_i64 x = None \<longleftrightarrow> \<not> in_i64 x"
  by (auto simp: chk_i64_def)

lemma chk_u64_Some_iff [simp]: "chk_u64 x = Some y \<longleftrightarrow> in_u64 x \<and> y = x"
  by (auto simp: chk_u64_def)

section \<open>Byte strings\<close>

definition strip_prefix :: "string \<Rightarrow> string \<Rightarrow> string option" where
  "strip_prefix p s = (if take (length p) s = p then Some (drop (length p) s) else None)"

definition strip_suffix :: "string \<Rightarrow> string \<Rightarrow> string option" where
  "strip_suffix p s = (if length p \<le> length s \<and> drop (length s - length p) s = p
     then Some (take (length s - length p) s) else None)"

abbreviation starts_with :: "string \<Rightarrow> string \<Rightarrow> bool" where
  "starts_with p s \<equiv> strip_prefix p s \<noteq> None"

fun split_on :: "char \<Rightarrow> string \<Rightarrow> string list" where
  "split_on d [] = [[]]"
| "split_on d (c # s) =
     (if c = d then [] # split_on d s
      else case split_on d s of [] \<Rightarrow> [[c]] | p # ps \<Rightarrow> (c # p) # ps)"

fun split_once :: "char \<Rightarrow> string \<Rightarrow> (string \<times> string) option" where
  "split_once d [] = None"
| "split_once d (c # s) =
     (if c = d then Some ([], s)
      else map_option (\<lambda>(a, b). (c # a, b)) (split_once d s))"

fun join :: "string \<Rightarrow> string list \<Rightarrow> string" where
  "join sep [] = []"
| "join sep [x] = x"
| "join sep (x # y # xs) = x @ sep @ join sep (y # xs)"

definition trim_end :: "(char \<Rightarrow> bool) \<Rightarrow> string \<Rightarrow> string" where
  "trim_end P s = rev (dropWhile P (rev s))"

definition is_digit :: "char \<Rightarrow> bool" where
  "is_digit c = (48 \<le> (of_char c :: nat) \<and> (of_char c :: nat) \<le> 57)"

definition digit_char :: "int \<Rightarrow> char" where
  "digit_char d = char_of (nat (d + 48))"

definition digit_val :: "char \<Rightarrow> int" where
  "digit_val c = int (of_char c) - 48"

function dec_digits :: "int \<Rightarrow> string" where
  "dec_digits n = (if n < 10 then [digit_char n] else dec_digits (n div 10) @ [digit_char (n mod 10)])"
  by pat_completeness auto
termination by (relation "measure nat") auto

declare dec_digits.simps [simp del]

text \<open>\<open>to_string\<close> of an integer, and the value of a string of ASCII digits.\<close>

definition show_int :: "int \<Rightarrow> string" where
  "show_int n = (if n < 0 then CHR ''-'' # dec_digits (- n) else dec_digits n)"

definition digits_value :: "string \<Rightarrow> int" where
  "digits_value s = foldl (\<lambda>a c. a * 10 + digit_val c) 0 s"

definition all_digits :: "string \<Rightarrow> bool" where
  "all_digits s = (s \<noteq> [] \<and> list_all is_digit s)"

definition ascii_lower :: "char \<Rightarrow> char" where
  "ascii_lower c = (if 65 \<le> (of_char c :: nat) \<and> (of_char c :: nat) \<le> 90 then char_of ((of_char c :: nat) + 32) else c)"

definition ascii_upper :: "char \<Rightarrow> char" where
  "ascii_upper c = (if 97 \<le> (of_char c :: nat) \<and> (of_char c :: nat) \<le> 122 then char_of ((of_char c :: nat) - 32) else c)"

text \<open>Bytes and characters by their bits, for evaluation.\<close>

definition byte :: "char \<Rightarrow> int" where
  "byte c = int (of_char c)"

definition int_char :: "int \<Rightarrow> char" where
  "int_char n = char_of (nat n)"

lemma int_char_code [code]:
  "int_char n = (if n < 0 then CHR 0x00 else
     Char (odd n) (odd (n div 2)) (odd (n div 4)) (odd (n div 8)) (odd (n div 16)) (odd (n div 32)) (odd (n div 64))
       (odd (n div 128)))"
proof (cases "n < 0")
  case True
  then show ?thesis by (simp add: int_char_def char_of_def)
next
  case False
  then obtain m where n: "n = int m" by (metis nonneg_int_cases linorder_not_less)
  have "odd (int m div 2 ^ k) = odd (m div 2 ^ k)" for k
    by (metis (no_types, lifting) even_of_nat of_nat_numeral of_nat_power zdiv_int)
  from this [of 1] this [of 2] this [of 3] this [of 4] this [of 5] this [of 6] this [of 7]
  show ?thesis unfolding n int_char_def by (simp add: char_of_def bit_iff_odd)
qed

lemma byte_code [code]:
  "byte (Char b0 b1 b2 b3 b4 b5 b6 b7) =
     of_bool b0 + 2 * (of_bool b1 + 2 * (of_bool b2 + 2 * (of_bool b3 + 2 * (of_bool b4 + 2 * (of_bool b5
       + 2 * (of_bool b6 + 2 * of_bool b7))))))"
  by (simp add: byte_def)

lemma is_digit_byte [code]: "is_digit c = (48 \<le> byte c \<and> byte c \<le> 57)"
  by (auto simp: is_digit_def byte_def)

lemma digit_val_byte [code]: "digit_val c = byte c - 48"
  by (simp add: digit_val_def byte_def)

lemma digit_char_code [code]: "digit_char d = int_char (d + 48)"
  by (simp add: digit_char_def int_char_def)

lemma strip_prefix_Some_iff: "strip_prefix p s = Some r \<longleftrightarrow> s = p @ r"
  by (auto simp: strip_prefix_def) (metis append_take_drop_id)

lemma strip_prefix_append [simp]: "strip_prefix p (p @ r) = Some r"
  by (simp add: strip_prefix_Some_iff)

lemma strip_suffix_Some_iff: "strip_suffix p s = Some r \<longleftrightarrow> s = r @ p"
  by (auto simp: strip_suffix_def) (metis append_take_drop_id)

lemma find_SomeD: "find p xs = Some x \<Longrightarrow> x \<in> set xs \<and> p x"
  by (auto simp: find_Some_iff)

lemma find_append: "find p (xs @ ys) = (case find p xs of None \<Rightarrow> find p ys | Some x \<Rightarrow> Some x)"
  by (induction xs) auto

lemma split_on_ne [simp]: "split_on d s \<noteq> []"
  by (induction s) (auto split: list.split)

lemma join_split_on: "join [d] (split_on d s) = s"
proof (induction s)
  case Nil
  then show ?case by simp
next
  case (Cons c s)
  obtain p ps where p: "split_on d s = p # ps" using split_on_ne by (cases "split_on d s") auto
  then show ?case using Cons by (cases ps) auto
qed

lemma split_on_no_sep: "p \<in> set (split_on d s) \<Longrightarrow> d \<notin> set p"
proof (induction s arbitrary: p)
  case Nil
  then show ?case by simp
next
  case (Cons c s)
  then show ?case by (cases "split_on d s") (auto split: if_splits)
qed

lemma split_on_single: "d \<notin> set s \<Longrightarrow> split_on d s = [s]"
  by (induction s) auto

lemma split_on_append: "d \<notin> set p \<Longrightarrow> split_on d (p @ d # s) = p # split_on d s"
  by (induction p) auto

lemma split_on_join:
  "ps \<noteq> [] \<Longrightarrow> (\<forall>p \<in> set ps. d \<notin> set p) \<Longrightarrow> split_on d (join [d] ps) = ps"
proof (induction "[d]" ps rule: join.induct)
  case (3 x y xs)
  then show ?case by (simp add: split_on_append)
qed (auto simp: split_on_single)

lemma split_once_SomeD: "split_once d s = Some (a, b) \<Longrightarrow> s = a @ d # b \<and> d \<notin> set a"
  by (induction s arbitrary: a) (auto split: if_splits)

lemma split_once_append: "d \<notin> set a \<Longrightarrow> split_once d (a @ d # b) = Some (a, b)"
  by (induction a) auto

lemma split_once_Some_iff: "split_once d s = Some (a, b) \<longleftrightarrow> s = a @ d # b \<and> d \<notin> set a"
  using split_once_SomeD split_once_append by metis

lemma split_once_None_iff: "split_once d s = None \<longleftrightarrow> d \<notin> set s"
  by (induction s) auto

lemma digit_val_char: "0 \<le> d \<Longrightarrow> d < 10 \<Longrightarrow> digit_val (digit_char d) = d"
  by (simp add: digit_val_def digit_char_def)

lemma is_digit_iff: "is_digit c \<longleftrightarrow> (\<exists>d. 0 \<le> d \<and> d < 10 \<and> c = digit_char d)"
proof
  assume "is_digit c"
  then show "\<exists>d. 0 \<le> d \<and> d < 10 \<and> c = digit_char d"
    by (intro exI [of _ "int (of_char c) - 48"]) (auto simp: digit_char_def is_digit_def)
next
  assume "\<exists>d. 0 \<le> d \<and> d < 10 \<and> c = digit_char d"
  then show "is_digit c" by (auto simp: digit_char_def is_digit_def)
qed

lemma digits_value_snoc: "digits_value (s @ [c]) = digits_value s * 10 + digit_val c"
  by (simp add: digits_value_def)

lemma dec_digits_props:
  "0 \<le> n \<Longrightarrow> digits_value (dec_digits n) = n \<and> all_digits (dec_digits n)"
proof (induction n rule: dec_digits.induct)
  case (1 n)
  show ?case
  proof (cases "n < 10")
    case True
    then have "is_digit (digit_char n)" using 1 by (auto simp: is_digit_iff)
    with True 1 show ?thesis
      by (simp add: dec_digits.simps [of n] digits_value_def digit_val_char all_digits_def)
  next
    case False
    then have IH: "digits_value (dec_digits (n div 10)) = n div 10" "all_digits (dec_digits (n div 10))"
      using 1 by (auto simp: pos_imp_zdiv_nonneg_iff)
    have "is_digit (digit_char (n mod 10))"
      unfolding is_digit_iff by (rule exI [of _ "n mod 10"]) simp
    with False IH show ?thesis
      by (simp add: dec_digits.simps [of n] digits_value_snoc digit_val_char all_digits_def)
  qed
qed

lemma digits_value_dec [simp]: "0 \<le> n \<Longrightarrow> digits_value (dec_digits n) = n"
  and all_digits_dec [simp]: "0 \<le> n \<Longrightarrow> all_digits (dec_digits n)"
  using dec_digits_props by auto

lemma dec_digits_inj: "0 \<le> m \<Longrightarrow> 0 \<le> n \<Longrightarrow> dec_digits m = dec_digits n \<longleftrightarrow> m = n"
  by (metis digits_value_dec)

lemma minus_not_digit [simp]: "\<not> is_digit (CHR ''-'')"
  by (simp add: is_digit_def)

lemma show_int_inj [simp]: "show_int m = show_int n \<longleftrightarrow> m = n"
proof
  assume eq: "show_int m = show_int n"
  have neg: "dec_digits k \<noteq> CHR ''-'' # s" if "0 \<le> k" for k s
    using all_digits_dec [OF that] by (auto simp: all_digits_def)
  show "m = n"
  proof (cases "m < 0"; cases "n < 0")
    assume "m < 0" "n < 0"
    with eq show ?thesis using dec_digits_inj [of "- m" "- n"] by (simp add: show_int_def)
  next
    assume "m < 0" "\<not> n < 0"
    with eq show ?thesis using neg [of n "dec_digits (- m)"] by (simp add: show_int_def)
  next
    assume "\<not> m < 0" "n < 0"
    with eq show ?thesis using neg [of m "dec_digits (- n)"] by (simp add: show_int_def)
  next
    assume "\<not> m < 0" "\<not> n < 0"
    with eq show ?thesis using dec_digits_inj [of m n] by (simp add: show_int_def)
  qed
qed simp

lemma show_int_chars: "c \<in> set (show_int n) \<Longrightarrow> is_digit c \<or> c = CHR ''-''"
  using all_digits_dec [of n] all_digits_dec [of "- n"]
  by (auto simp: show_int_def all_digits_def list_all_iff split: if_splits)

end
