(* ===== verification/F64.thy ===== *)
theory F64
  imports Prelude
begin

text \<open>
  IEEE 754 binary64 as Rust's \<open>f64\<close> computes it: a value is its sign, biased exponent and fraction, and
  every operation rounds the exact result to the nearest value, ties to even. The scheduler keeps all of
  its quantities (cores, weights, seconds) in this type, so the admission and planning theorems are about
  these values and not about real numbers.

  The magnitude bits of a value, read as one integer (\<open>f_ord\<close>), order the non-negative values, so the
  comparisons are integer comparisons. A finite value is an integer multiple \<open>f_units\<close> of the smallest
  positive value \<open>2 ^ -1074\<close>; \<open>rnd_at n d b\<close> is the magnitude nearest to \<open>n / d * 2 ^ b\<close> such units.
  Rust leaves the payload of a NaN result open; here it is always the canonical quiet NaN.
\<close>

section \<open>Representation\<close>

datatype f64 = F64 (f_neg: bool) (f_exp: "11 word") (f_frac: "52 word")

abbreviation p52 :: int where "p52 \<equiv> 4503599627370496"
abbreviation inf_ord :: int where "inf_ord \<equiv> 9218868437227405312"

definition f_ord :: "f64 \<Rightarrow> int" where
  "f_ord x = uint (f_exp x) * p52 + uint (f_frac x)"

definition of_ord :: "bool \<Rightarrow> int \<Rightarrow> f64" where
  "of_ord s k = (let k' = min k inf_ord in F64 s (word_of_int (k' div p52)) (word_of_int (k' mod p52)))"

definition is_nan :: "f64 \<Rightarrow> bool" where "is_nan x = (f_ord x > inf_ord)"
definition is_inf :: "f64 \<Rightarrow> bool" where "is_inf x = (f_ord x = inf_ord)"
definition is_finite :: "f64 \<Rightarrow> bool" where "is_finite x = (f_ord x < inf_ord)"

definition f_nan :: f64 where "f_nan = F64 False 2047 2251799813685248"
definition f_inf :: f64 where "f_inf = F64 False 2047 0"
definition f_zero :: f64 where "f_zero = F64 False 0 0"

text \<open>The signed order key: \<open>-0.0\<close> and \<open>0.0\<close> share the key 0, so they compare equal.\<close>

definition f_key :: "f64 \<Rightarrow> int" where
  "f_key x = (if f_neg x then - f_ord x else f_ord x)"

section \<open>Rounding\<close>

text \<open>The number of binary digits of a natural number.\<close>

function bits :: "int \<Rightarrow> nat" where
  "bits n = (if n \<le> 0 then 0 else Suc (bits (n div 2)))"
  by pat_completeness auto
termination by (relation "measure nat") auto

declare bits.simps [simp del]

text \<open>The integer nearest to \<open>n / d\<close>, ties to even.\<close>

definition rne :: "int \<Rightarrow> int \<Rightarrow> int" where
  "rne n d = (let q = n div d; r = n mod d in
     if 2 * r < d then q else if d < 2 * r then q + 1 else if even q then q else q + 1)"

definition rnd_at :: "int \<Rightarrow> int \<Rightarrow> nat \<Rightarrow> int" where
  "rnd_at n d b = (if n = 0 then 0 else
     let s = bits (n div d) + b - 53
     in int s * p52 + (if b \<le> s then rne n (d * 2 ^ (s - b)) else rne (n * 2 ^ (b - s)) d))"

section \<open>Arithmetic\<close>

definition f_shift :: "f64 \<Rightarrow> nat" where
  "f_shift x = nat (uint (f_exp x) - 1)"

definition f_mant :: "f64 \<Rightarrow> int" where
  "f_mant x = (if uint (f_exp x) = 0 then uint (f_frac x) else p52 + uint (f_frac x))"

definition f_smant :: "f64 \<Rightarrow> int" where
  "f_smant x = (if f_neg x then - f_mant x else f_mant x)"

definition f_uminus :: "f64 \<Rightarrow> f64" where
  "f_uminus x = F64 (\<not> f_neg x) (f_exp x) (f_frac x)"

definition f_abs :: "f64 \<Rightarrow> f64" where
  "f_abs x = F64 False (f_exp x) (f_frac x)"

definition f_add :: "f64 \<Rightarrow> f64 \<Rightarrow> f64" where
  "f_add a b =
     (if is_nan a \<or> is_nan b then f_nan
      else if is_inf a then (if is_inf b \<and> f_neg a \<noteq> f_neg b then f_nan else a)
      else if is_inf b then b
      else let s = min (f_shift a) (f_shift b);
               z = f_smant a * 2 ^ (f_shift a - s) + f_smant b * 2 ^ (f_shift b - s)
           in if z = 0 then F64 (f_neg a \<and> f_neg b) 0 0
              else of_ord (z < 0) (rnd_at \<bar>z\<bar> 1 s))"

definition f_sub :: "f64 \<Rightarrow> f64 \<Rightarrow> f64" where
  "f_sub a b = f_add a (f_uminus b)"

definition f_mul :: "f64 \<Rightarrow> f64 \<Rightarrow> f64" where
  "f_mul a b =
     (let s = (f_neg a \<noteq> f_neg b) in
      if is_nan a \<or> is_nan b then f_nan
      else if is_inf a then (if f_ord b = 0 then f_nan else of_ord s inf_ord)
      else if is_inf b then (if f_ord a = 0 then f_nan else of_ord s inf_ord)
      else let e = f_shift a + f_shift b; m = f_mant a * f_mant b
           in of_ord s (if 1074 \<le> e then rnd_at m 1 (e - 1074) else rnd_at m (2 ^ (1074 - e)) 0))"

definition f_div :: "f64 \<Rightarrow> f64 \<Rightarrow> f64" where
  "f_div a b =
     (let s = (f_neg a \<noteq> f_neg b) in
      if is_nan a \<or> is_nan b then f_nan
      else if is_inf a then (if is_inf b then f_nan else of_ord s inf_ord)
      else if is_inf b then of_ord s 0
      else if f_ord b = 0 then (if f_ord a = 0 then f_nan else of_ord s inf_ord)
      else let e = f_shift a + 1074 - f_shift b; k = min e 55
           in of_ord s
                (if f_shift a + 1074 < f_shift b
                 then rnd_at (f_mant a) (f_mant b * 2 ^ (f_shift b - (f_shift a + 1074))) 0
                 else rnd_at (f_mant a * 2 ^ k) (f_mant b) (e - k)))"

text \<open>\<open>x % y\<close>: the exact remainder of the truncated quotient, with the sign of \<open>x\<close>.\<close>

definition f_rem :: "f64 \<Rightarrow> f64 \<Rightarrow> f64" where
  "f_rem a b =
     (if is_nan a \<or> is_nan b \<or> is_inf a \<or> f_ord b = 0 then f_nan
      else if is_inf b then a
      else let s = min (f_shift a) (f_shift b)
           in of_ord (f_neg a)
                (rnd_at ((f_mant a * 2 ^ (f_shift a - s)) mod (f_mant b * 2 ^ (f_shift b - s))) 1 s))"

text \<open>A decimal literal \<open>n / d\<close>, and the conversion of an integer.\<close>

definition lit :: "int \<Rightarrow> int \<Rightarrow> f64" where
  "lit n d = (let k = min 1074 (bits d + 54) in of_ord False (rnd_at (n * 2 ^ k) d (1074 - k)))"

definition f_of_int :: "int \<Rightarrow> f64" where
  "f_of_int n = of_ord (n < 0) (rnd_at \<bar>n\<bar> 1 1074)"

text \<open>
  Integral parts of a finite value: \<open>\<bar>x\<bar> = f_num x / f_den x\<close>.
\<close>

definition f_num :: "f64 \<Rightarrow> int" where
  "f_num x = f_mant x * 2 ^ (f_shift x - 1074)"

definition f_den :: "f64 \<Rightarrow> int" where
  "f_den x = 2 ^ (1074 - f_shift x)"

definition f_int_part :: "(int \<Rightarrow> int \<Rightarrow> int) \<Rightarrow> f64 \<Rightarrow> f64" where
  "f_int_part g x =
     (if is_finite x then of_ord (f_neg x) (rnd_at (g (f_num x) (f_den x)) 1 1074) else x)"

definition f_trunc :: "f64 \<Rightarrow> f64" where
  "f_trunc = f_int_part (\<lambda>n d. n div d)"

definition f_floor :: "f64 \<Rightarrow> f64" where
  "f_floor x = f_int_part (\<lambda>n d. if f_neg x then - ((- n) div d) else n div d) x"

definition f_ceil :: "f64 \<Rightarrow> f64" where
  "f_ceil x = f_int_part (\<lambda>n d. if f_neg x then n div d else - ((- n) div d)) x"

definition f_round_ties_even :: "f64 \<Rightarrow> f64" where
  "f_round_ties_even = f_int_part rne"

text \<open>The saturating conversion \<open>x as i64\<close> (or another integer type): NaN gives 0.\<close>

definition f_to_int :: "int \<Rightarrow> int \<Rightarrow> f64 \<Rightarrow> int" where
  "f_to_int lo hi x =
     (if is_nan x then 0
      else if is_inf x then (if f_neg x then lo else hi)
      else let n = f_num x div f_den x in max lo (min hi (if f_neg x then - n else n)))"

section \<open>Comparisons\<close>

definition f_lt :: "f64 \<Rightarrow> f64 \<Rightarrow> bool" where
  "f_lt a b = (\<not> is_nan a \<and> \<not> is_nan b \<and> f_key a < f_key b)"

definition f_le :: "f64 \<Rightarrow> f64 \<Rightarrow> bool" where
  "f_le a b = (\<not> is_nan a \<and> \<not> is_nan b \<and> f_key a \<le> f_key b)"

definition f_eq :: "f64 \<Rightarrow> f64 \<Rightarrow> bool" where
  "f_eq a b = (\<not> is_nan a \<and> \<not> is_nan b \<and> f_key a = f_key b)"

definition f_partial_cmp :: "f64 \<Rightarrow> f64 \<Rightarrow> ordering option" where
  "f_partial_cmp a b = (if is_nan a \<or> is_nan b then None else Some (cmp (f_key a) (f_key b)))"

text \<open>
  \<open>total_cmp\<close> orders all bit patterns: negative NaNs, \<open>-inf\<close>, negative values, \<open>-0.0\<close>, \<open>0.0\<close>, positive values,
  \<open>inf\<close>, NaNs.
\<close>

definition f_total_key :: "f64 \<Rightarrow> int" where
  "f_total_key x = (if f_neg x then - f_ord x - 1 else f_ord x)"

definition f_total_cmp :: "f64 \<Rightarrow> f64 \<Rightarrow> ordering" where
  "f_total_cmp a b = cmp (f_total_key a) (f_total_key b)"

text \<open>\<open>f64::max\<close> and \<open>f64::min\<close> return the other argument when one is NaN.\<close>

definition f_max :: "f64 \<Rightarrow> f64 \<Rightarrow> f64" where
  "f_max a b = (if is_nan a then b else if f_lt a b then b else a)"

definition f_min :: "f64 \<Rightarrow> f64 \<Rightarrow> f64" where
  "f_min a b = (if is_nan a then b else if f_lt b a then b else a)"

section \<open>Magnitudes\<close>

lemma f_ord_nonneg [simp]: "0 \<le> f_ord x"
  by (simp add: f_ord_def)

lemma f_ord_less: "f_ord x < 2048 * p52"
proof -
  have "uint (f_exp x) < 2048" using uint_lt2p [of "f_exp x"] by simp
  moreover have "uint (f_frac x) < p52" using uint_lt2p [of "f_frac x"] by simp
  ultimately show ?thesis unfolding f_ord_def by linarith
qed

lemma f_ord_of_ord [simp]: "0 \<le> k \<Longrightarrow> f_ord (of_ord s k) = min k inf_ord"
proof -
  assume k: "0 \<le> k"
  define k' where "k' = min k inf_ord"
  have k': "0 \<le> k'" "k' \<le> inf_ord" using k by (auto simp: k'_def)
  have "k' div p52 < 2048" "0 \<le> k' div p52" using k' by linarith+
  then have e: "uint (word_of_int (k' div p52) :: 11 word) = k' div p52"
    by (simp add: uint_word_of_int)
  have f: "uint (word_of_int (k' mod p52) :: 52 word) = k' mod p52"
    by (simp add: uint_word_of_int)
  show ?thesis
    unfolding of_ord_def f_ord_def Let_def k'_def [symmetric] by (simp add: e f)
qed

lemma f_neg_of_ord [simp]: "f_neg (of_ord s k) = s"
  by (simp add: of_ord_def Let_def)

lemma not_nan_of_ord [simp]: "0 \<le> k \<Longrightarrow> \<not> is_nan (of_ord s k)"
  by (simp add: is_nan_def)

lemma f_key_of_ord: "0 \<le> k \<Longrightarrow> f_key (of_ord s k) = (if s then - min k inf_ord else min k inf_ord)"
  by (simp add: f_key_def)

lemma f_zero_simps [simp]: "f_ord f_zero = 0" "f_key f_zero = 0" "\<not> is_nan f_zero" "is_finite f_zero"
  by (simp_all add: f_zero_def f_ord_def f_key_def is_nan_def is_finite_def)

lemma f_nan_is_nan [simp]: "is_nan f_nan"
  by (simp add: f_nan_def is_nan_def f_ord_def)

lemma finite_not_nan: "is_finite x \<Longrightarrow> \<not> is_nan x"
  by (simp add: is_finite_def is_nan_def)

section \<open>The order\<close>

lemma f_le_refl [simp]: "f_le x x \<longleftrightarrow> \<not> is_nan x"
  by (simp add: f_le_def)

lemma f_le_trans: "f_le x y \<Longrightarrow> f_le y z \<Longrightarrow> f_le x z"
  by (auto simp: f_le_def)

lemma f_lt_le_trans: "f_lt x y \<Longrightarrow> f_le y z \<Longrightarrow> f_lt x z"
  by (auto simp: f_le_def f_lt_def)

lemma f_le_lt_trans: "f_le x y \<Longrightarrow> f_lt y z \<Longrightarrow> f_lt x z"
  by (auto simp: f_le_def f_lt_def)

lemma f_lt_imp_le: "f_lt x y \<Longrightarrow> f_le x y"
  by (auto simp: f_le_def f_lt_def)

lemma f_lt_irrefl [simp]: "\<not> f_lt x x"
  by (simp add: f_lt_def)

lemma f_not_lt: "\<not> is_nan x \<Longrightarrow> \<not> is_nan y \<Longrightarrow> \<not> f_lt x y \<longleftrightarrow> f_le y x"
  by (auto simp: f_le_def f_lt_def)

lemma f_not_le: "\<not> is_nan x \<Longrightarrow> \<not> is_nan y \<Longrightarrow> \<not> f_le x y \<longleftrightarrow> f_lt y x"
  by (auto simp: f_le_def f_lt_def)

lemma f_eq_iff: "f_eq x y \<longleftrightarrow> f_le x y \<and> f_le y x"
  by (auto simp: f_le_def f_eq_def)

lemma f_max_props:
  "\<not> is_nan x \<Longrightarrow> \<not> is_nan y \<Longrightarrow> f_le x (f_max x y) \<and> f_le y (f_max x y)"
  by (auto simp: f_max_def f_le_def f_lt_def)

lemma f_max_cases: "f_max x y = x \<or> f_max x y = y"
  by (simp add: f_max_def)

lemma f_min_cases: "f_min x y = x \<or> f_min x y = y"
  by (simp add: f_min_def)

lemma f_max_nan_iff: "is_nan (f_max x y) \<longleftrightarrow> is_nan x \<and> is_nan y"
  by (auto simp: f_max_def f_lt_def)

lemma f_min_nan_iff: "is_nan (f_min x y) \<longleftrightarrow> is_nan x \<and> is_nan y"
  by (auto simp: f_min_def f_lt_def)

lemma f_min_props:
  "\<not> is_nan x \<Longrightarrow> \<not> is_nan y \<Longrightarrow> f_le (f_min x y) x \<and> f_le (f_min x y) y"
  by (auto simp: f_min_def f_le_def f_lt_def)

lemma total_cmp_f_total_cmp [order_rules]: "total_cmp f_total_cmp"
  unfolding f_total_cmp_def by (intro order_rules)

interpretation ftotal: total_cmp f_total_cmp
  by (rule total_cmp_f_total_cmp)

section \<open>Rounding is monotone\<close>

lemma bits_bounds: "0 < n \<Longrightarrow> 2 ^ (bits n - 1) \<le> n \<and> n < 2 ^ bits n"
proof (induction n rule: bits.induct)
  case (1 n)
  show ?case
  proof (cases "n = 1")
    case True
    then show ?thesis by (simp add: bits.simps)
  next
    case False
    with 1 have p: "0 < n div 2" and IH: "2 ^ (bits (n div 2) - 1) \<le> n div 2 \<and> n div 2 < 2 ^ bits (n div 2)"
      by auto
    have "bits (n div 2) \<noteq> 0" using p by (subst bits.simps) simp
    then obtain k where k: "bits (n div 2) = Suc k" by (cases "bits (n div 2)") auto
    have b: "bits n = Suc (Suc k)" using 1 k by (subst bits.simps) simp
    show ?thesis using IH unfolding b k by (simp, linarith)
  qed
qed

lemma bits_pos: "0 < n \<Longrightarrow> 0 < bits n"
  by (subst bits.simps) simp

lemma bits_nonpos [simp]: "n \<le> 0 \<Longrightarrow> bits n = 0"
  by (subst bits.simps) simp

lemma bits_unique:
  assumes "2 ^ k \<le> n" "n < 2 ^ Suc k"
  shows "bits n = Suc k"
proof -
  have n: "0 < n" using assms(1) by (smt (verit) zero_less_power)
  have lo: "2 ^ (bits n - 1) \<le> n" and hi: "n < 2 ^ bits n" using bits_bounds [OF n] by auto
  have "(2::int) ^ (bits n - 1) < 2 ^ Suc k" using lo assms(2) by linarith
  then have a: "bits n - 1 < Suc k" by (rule power_less_imp_less_exp [rotated]) simp
  have "(2::int) ^ k < 2 ^ bits n" using hi assms(1) by linarith
  then have b: "k < bits n" by (rule power_less_imp_less_exp [rotated]) simp
  show ?thesis using a b by simp
qed

lemma bits_mono: "m \<le> n \<Longrightarrow> bits m \<le> bits n"
proof (cases "0 < m")
  case True
  assume le: "m \<le> n"
  have "(2::int) ^ (bits m - 1) < 2 ^ bits n" using bits_bounds [OF True] bits_bounds [of n] True le by linarith
  then have "bits m - 1 < bits n" by (rule power_less_imp_less_exp [rotated]) simp
  then show ?thesis by simp
qed simp

lemma bits_mult_pow: "0 < n \<Longrightarrow> bits (n * 2 ^ k) = bits n + k"
proof -
  assume n: "0 < n"
  obtain j where j: "bits n = Suc j" using bits_pos [OF n] by (cases "bits n") auto
  have "2 ^ j \<le> n" "n < 2 ^ Suc j" using bits_bounds [OF n] by (simp_all add: j)
  then have "2 ^ j * 2 ^ k \<le> n * 2 ^ k" "n * 2 ^ k < 2 ^ Suc j * 2 ^ k" by simp_all
  then have "2 ^ (j + k) \<le> n * 2 ^ k" "n * 2 ^ k < 2 ^ Suc (j + k)" by (simp_all add: power_add)
  then show ?thesis using bits_unique j by simp
qed

lemma rne_bounds: "0 < d \<Longrightarrow> n div d \<le> rne n d \<and> rne n d \<le> n div d + 1"
  by (simp add: rne_def Let_def)

lemma rne_exact [simp]: "0 < d \<Longrightarrow> rne (k * d) d = k"
  by (simp add: rne_def Let_def)

lemma rne_one [simp]: "rne n 1 = n"
  by (simp add: rne_def Let_def)

lemma rne_scale: "0 < k \<Longrightarrow> 0 < d \<Longrightarrow> rne (n * k) (d * k) = rne n d"
  by (simp add: rne_def Let_def mult.commute [of _ k] mult.left_commute [of 2 k])

lemma rne_mono:
  assumes d: "0 < d" "0 < d'" and le: "n * d' \<le> n' * d"
  shows "rne n d \<le> rne n' d'"
proof -
  define q r q' r' where qr: "q = n div d" "r = n mod d" "q' = n' div d'" "r' = n' mod d'"
  have n: "n = q * d + r" "0 \<le> r" "r < d" and n': "n' = q' * d' + r'" "0 \<le> r'" "r' < d'"
    using d by (auto simp: qr)
  have "q \<le> q'"
  proof (rule ccontr)
    assume "\<not> q \<le> q'"
    then have "(q' + 1) * (d * d') \<le> q * (d * d')" using d by (intro mult_right_mono) auto
    moreover have "n' * d < (q' + 1) * (d * d')"
    proof -
      have "n' < (q' + 1) * d'" using n' by (simp add: algebra_simps)
      then have "n' * d < (q' + 1) * d' * d" using d by simp
      then show ?thesis by (simp add: algebra_simps)
    qed
    moreover have "q * (d * d') \<le> n * d'"
    proof -
      have "q * d \<le> n" using n by simp
      then have "q * d * d' \<le> n * d'" using d by simp
      then show ?thesis by (simp add: algebra_simps)
    qed
    ultimately show False using le by linarith
  qed
  show ?thesis
  proof (cases "q = q'")
    case False
    then have "q + 1 \<le> q'" using \<open>q \<le> q'\<close> by simp
    then show ?thesis using rne_bounds [of d n] rne_bounds [of d' n'] d by (simp add: qr)
  next
    case True
    have "r * d' \<le> r' * d" using le unfolding n(1) n'(1) True by (simp add: algebra_simps)
    then have rr: "2 * r * d' \<le> 2 * r' * d" by simp
    have up: "d' < 2 * r'" if "d < 2 * r"
    proof -
      have "d * d' < 2 * r * d'" using that d by simp
      then have "d' * d < 2 * r' * d" using rr by (simp add: algebra_simps)
      then show ?thesis using d by simp
    qed
    have half: "d' \<le> 2 * r'" if "d \<le> 2 * r"
    proof -
      have "d * d' \<le> 2 * r * d'" using that d by simp
      then have "d' * d \<le> 2 * r' * d" using rr by (simp add: algebra_simps)
      then show ?thesis using d by simp
    qed
    show ?thesis using up half unfolding rne_def Let_def qr [symmetric] True by (auto simp: True)
  qed
qed

lemma le_div_iff_int:
  assumes "0 < (d::int)"
  shows "k \<le> n div d \<longleftrightarrow> k * d \<le> n"
proof
  assume "k \<le> n div d"
  then have "k * d \<le> n div d * d" using assms by simp
  also have "\<dots> \<le> n" using assms by (simp add: minus_mod_eq_div_mult [symmetric])
  finally show "k * d \<le> n" .
next
  assume "k * d \<le> n"
  then have "(k * d) div d \<le> n div d" using assms by (rule zdiv_mono1)
  then show "k \<le> n div d" using assms by simp
qed

lemma div_less_iff_int: "0 < (d::int) \<Longrightarrow> n div d < k \<longleftrightarrow> n < k * d"
  using le_div_iff_int [of d k n] by linarith

lemma bits_div_scale:
  assumes "0 < d" and q: "0 < n div d"
  shows "bits ((n * 2 ^ b) div d) = bits (n div d) + b"
proof -
  obtain j where j: "bits (n div d) = Suc j" using bits_pos [OF q] by (cases "bits (n div d)") auto
  have "2 ^ j * d \<le> n" "n < 2 ^ Suc j * d"
    using bits_bounds [OF q] assms(1) by (simp_all add: j le_div_iff_int div_less_iff_int)
  then have "2 ^ j * d * 2 ^ b \<le> n * 2 ^ b" "n * 2 ^ b < 2 ^ Suc j * d * 2 ^ b" by simp_all
  then have "2 ^ (j + b) \<le> (n * 2 ^ b) div d" "(n * 2 ^ b) div d < 2 ^ Suc (j + b)"
    using assms(1) by (simp_all add: le_div_iff_int div_less_iff_int power_add mult_ac)
  then show ?thesis using bits_unique j by simp
qed

lemma rnd_at_scale:
  assumes "0 < n" "0 < d" "0 < n div d"
  shows "rnd_at n d b = rnd_at (n * 2 ^ b) d 0"
proof -
  define s where "s = bits (n div d) + b - 53"
  have eq: "(if b \<le> s then rne n (d * 2 ^ (s - b)) else rne (n * 2 ^ (b - s)) d) = rne (n * 2 ^ b) (d * 2 ^ s)"
  proof (cases "b \<le> s")
    case True
    then have "d * 2 ^ s = d * 2 ^ (s - b) * 2 ^ b" by (simp flip: power_add add: mult.assoc)
    then show ?thesis using True assms(2) rne_scale [of "2 ^ b" "d * 2 ^ (s - b)" n] by (simp only: if_True) simp
  next
    case False
    then have "n * 2 ^ b = n * 2 ^ (b - s) * 2 ^ s" by (simp flip: power_add add: mult.assoc)
    then show ?thesis using False assms(2) rne_scale [of "2 ^ s" d "n * 2 ^ (b - s)"]
      by (simp only: if_False) simp
  qed
  have "bits (n * 2 ^ b div d) = bits (n div d) + b" using assms by (simp add: bits_div_scale)
  then show ?thesis using assms eq by (simp only: rnd_at_def Let_def s_def) simp
qed

text \<open>The rounded magnitude lies in the binade of the exact one.\<close>

lemma rnd_at_binade:
  assumes "0 < d" "0 < n"
  defines "s \<equiv> bits (n div d) - 53"
  shows "rnd_at n d 0 = int s * p52 + rne n (d * 2 ^ s)"
    and "rne n (d * 2 ^ s) \<le> 2 * p52" and "0 < s \<Longrightarrow> p52 \<le> rne n (d * 2 ^ s)" and "0 \<le> rne n (d * 2 ^ s)"
proof -
  let ?q = "n div d"
  show "rnd_at n d 0 = int s * p52 + rne n (d * 2 ^ s)" using assms by (simp add: rnd_at_def Let_def)
  have dd: "n div (d * 2 ^ s) = ?q div 2 ^ s" using assms(1) by (simp add: zdiv_zmult2_eq)
  have q0: "0 \<le> ?q" using assms by (simp add: pos_imp_zdiv_nonneg_iff)
  have "?q < 2 ^ 53 * 2 ^ s"
  proof (cases "0 < ?q")
    case True
    have "?q < 2 ^ bits ?q" using bits_bounds [OF True] by simp
    also have "(2::int) ^ bits ?q \<le> 2 ^ (53 + s)" by (rule power_increasing) (auto simp: s_def)
    finally show ?thesis by (simp add: power_add)
  next
    case False then show ?thesis using q0 by simp
  qed
  then have "?q div 2 ^ s < 2 ^ 53" by (simp add: div_less_iff_int)
  then show "rne n (d * 2 ^ s) \<le> 2 * p52"
    using rne_bounds [of "d * 2 ^ s" n] assms(1) by (simp add: dd)
  have "0 \<le> ?q div 2 ^ s" using q0 by (simp add: pos_imp_zdiv_nonneg_iff)
  then show "0 \<le> rne n (d * 2 ^ s)"
    using rne_bounds [of "d * 2 ^ s" n] assms(1) by (simp add: dd)
  show "p52 \<le> rne n (d * 2 ^ s)" if s: "0 < s"
  proof -
    have b: "bits ?q = s + 53" using s by (simp add: s_def)
    then have "0 < ?q" by (cases "0 < ?q") auto
    then have "2 ^ (s + 52) \<le> ?q" using bits_bounds [of ?q] b by (simp add: add.commute)
    then have "2 ^ 52 \<le> ?q div 2 ^ s" by (simp add: le_div_iff_int power_add mult.commute)
    then show ?thesis using rne_bounds [of "d * 2 ^ s" n] assms(1) by (simp add: dd)
  qed
qed

lemma rnd_at_nonneg [simp]: "0 \<le> n \<Longrightarrow> 0 < d \<Longrightarrow> 0 \<le> rnd_at n d 0"
  using rnd_at_binade [of d n] by (cases "n = 0") (auto simp: rnd_at_def)

lemma rnd_at_mono:
  assumes "0 < d" "0 < d'" "0 \<le> n" and le: "n * d' \<le> n' * d"
  shows "rnd_at n d 0 \<le> rnd_at n' d' 0"
proof (cases "n = 0")
  case True
  have "0 \<le> n' * d" using le True by simp
  then have "0 \<le> n'" using assms(1) by (simp add: zero_le_mult_iff)
  then show ?thesis using True assms(2) by (simp add: rnd_at_def [of 0])
next
  case False
  then have n: "0 < n" using assms(3) by simp
  then have "0 < n * d'" using assms(2) by simp
  then have "0 < n' * d" using le by linarith
  then have n': "0 < n'" using assms(1) by (simp add: zero_less_mult_iff)
  define s s' where s: "s = bits (n div d) - 53" "s' = bits (n' div d') - 53"
  have "n div d \<le> n' div d'"
  proof -
    have "n div d * d \<le> n" using assms(1) by (simp add: minus_mod_eq_div_mult [symmetric])
    then have "n div d * d * d' \<le> n' * d" using le assms(2)
      by (meson mult_right_mono order_less_imp_le order_trans)
    then have "(n div d * d') * d \<le> n' * d" by (simp add: mult_ac)
    then have "n div d * d' \<le> n'" using assms(1) by simp
    then show ?thesis using assms(2) by (simp add: le_div_iff_int)
  qed
  then have ss: "s \<le> s'" using bits_mono by (simp add: s diff_le_mono)
  note B = rnd_at_binade [OF assms(1) n, folded s(1)]
  note B' = rnd_at_binade [OF assms(2) n', folded s(2)]
  show ?thesis
  proof (cases "s = s'")
    case True
    have "n * (d' * 2 ^ s) \<le> n' * (d * 2 ^ s)" using le by (simp add: mult.assoc [symmetric])
    then have "rne n (d * 2 ^ s) \<le> rne n' (d' * 2 ^ s)" using assms by (intro rne_mono) auto
    then show ?thesis using True B(1) B'(1) by simp
  next
    case False
    then have lt: "s + 1 \<le> s'" using ss by simp
    have "int s * p52 + rne n (d * 2 ^ s) \<le> (int s + 2) * p52" using B(2) by (simp add: algebra_simps)
    also have "\<dots> \<le> int s' * p52 + p52" using lt by simp
    also have "\<dots> \<le> int s' * p52 + rne n' (d' * 2 ^ s')" using B'(3) lt by simp
    finally show ?thesis using B(1) B'(1) by simp
  qed
qed

section \<open>Addition\<close>

definition f_units :: "f64 \<Rightarrow> int" where
  "f_units x = (if f_neg x then - (f_mant x * 2 ^ f_shift x) else f_mant x * 2 ^ f_shift x)"

text \<open>The order key of the value nearest to \<open>z\<close> units.\<close>

definition rkey :: "int \<Rightarrow> int" where
  "rkey z = (if z < 0 then - min (rnd_at (- z) 1 0) inf_ord else min (rnd_at z 1 0) inf_ord)"

lemma rkey_mono: "y \<le> z \<Longrightarrow> rkey y \<le> rkey z"
proof (cases "y < 0"; cases "z < 0")
  assume "y \<le> z" "y < 0" "z < 0"
  then show ?thesis using rnd_at_mono [of 1 1 "- z" "- y"] by (simp add: rkey_def)
next
  assume "y \<le> z" "y < 0" "\<not> z < 0"
  then have "0 \<le> rnd_at (- y) 1 0" "0 \<le> rnd_at z 1 0" by simp_all
  then have "- min (rnd_at (- y) 1 0) inf_ord \<le> min (rnd_at z 1 0) inf_ord" by linarith
  then show ?thesis using \<open>y < 0\<close> \<open>\<not> z < 0\<close> by (simp only: rkey_def if_True if_False)
next
  assume "y \<le> z" "\<not> y < 0" "\<not> z < 0"
  then show ?thesis using rnd_at_mono [of 1 1 y z] by (simp add: rkey_def)
qed simp

lemma rkey_zero [simp]: "rkey 0 = 0"
  by (simp add: rkey_def rnd_at_def)

lemma f_mant_bounds: "0 \<le> f_mant x" "f_mant x < 2 * p52"
  using uint_lt2p [of "f_frac x"] by (auto simp: f_mant_def)

lemma f_ord_eq: "f_ord x = int (f_shift x) * p52 + f_mant x"
  by (auto simp: f_ord_def f_shift_def f_mant_def uint_nonnegative algebra_simps)
    (smt (verit) uint_nonnegative)

lemma rnd_at_mant: "rnd_at (f_mant x * 2 ^ f_shift x) 1 0 = f_ord x"
proof (cases "f_mant x = 0")
  case True
  have "0 < p52 + uint (f_frac x)" using uint_nonnegative [of "f_frac x"] by linarith
  then have "uint (f_exp x) = 0" using True by (simp add: f_mant_def split: if_splits)
  then have "f_shift x = 0" by (simp add: f_shift_def)
  then show ?thesis using True by (simp add: rnd_at_def f_ord_eq)
next
  case False
  then have m: "0 < f_mant x" using f_mant_bounds [of x] by simp
  have s: "bits (f_mant x * 2 ^ f_shift x) - 53 = f_shift x"
  proof (cases "uint (f_exp x) = 0")
    case True
    then have "f_mant x < 2 ^ 52" using uint_lt2p [of "f_frac x"] by (simp add: f_mant_def)
    then have "bits (f_mant x) \<le> 53"
      using bits_mono [of "f_mant x" "2 ^ 52"] bits_unique [of 52 "2 ^ 52"] by simp
    then show ?thesis using True m by (simp add: bits_mult_pow f_shift_def)
  next
    case False
    then have "2 ^ 52 \<le> f_mant x" "f_mant x < 2 ^ Suc 52"
      using f_mant_bounds [of x] uint_nonnegative [of "f_frac x"] by (simp_all add: f_mant_def)
    then have "bits (f_mant x) = 53" using bits_unique by fastforce
    then show ?thesis using m by (simp add: bits_mult_pow)
  qed
  show ?thesis
    using rnd_at_binade(1) [of 1 "f_mant x * 2 ^ f_shift x"] m by (simp add: s f_ord_eq)
qed

lemma f_key_rkey: "is_finite x \<Longrightarrow> f_key x = rkey (f_units x)"
proof -
  assume "is_finite x"
  then have "f_ord x < inf_ord" by (simp add: is_finite_def)
  moreover have "f_units x = 0 \<longleftrightarrow> f_ord x = 0"
    using rnd_at_mant [of x] f_mant_bounds [of x] by (auto simp: f_units_def f_ord_eq rnd_at_def)
  moreover have "0 \<le> f_mant x * 2 ^ f_shift x" using f_mant_bounds [of x] by simp
  ultimately show ?thesis
    using rnd_at_mant [of x] by (auto simp: f_key_def rkey_def f_units_def)
qed

lemma f_add_finite:
  assumes "is_finite a" "is_finite b"
  shows "\<not> is_nan (f_add a b)" and "f_key (f_add a b) = rkey (f_units a + f_units b)"
proof -
  define s where "s = min (f_shift a) (f_shift b)"
  define z where "z = f_smant a * 2 ^ (f_shift a - s) + f_smant b * 2 ^ (f_shift b - s)"
  have u: "f_units x = f_smant x * 2 ^ (f_shift x - s) * 2 ^ s" if "s \<le> f_shift x" for x
    using that by (simp add: f_units_def f_smant_def mult.assoc flip: power_add)
  have zu: "f_units a + f_units b = z * 2 ^ s"
    using u [of a] u [of b] by (simp add: s_def z_def algebra_simps)
  have fin: "\<not> is_nan a" "\<not> is_nan b" "\<not> is_inf a" "\<not> is_inf b"
    using assms by (auto simp: is_finite_def is_nan_def is_inf_def)
  have add: "f_add a b = (if z = 0 then F64 (f_neg a \<and> f_neg b) 0 0 else of_ord (z < 0) (rnd_at \<bar>z\<bar> 1 s))"
    using fin by (simp add: f_add_def Let_def s_def z_def)
  have r: "rnd_at \<bar>z\<bar> 1 s = rnd_at \<bar>z * 2 ^ s\<bar> 1 0" if "z \<noteq> 0"
    using rnd_at_scale [of "\<bar>z\<bar>" 1 s] that by (simp add: abs_mult)
  have r0: "0 \<le> rnd_at \<bar>z\<bar> 1 s" if "z \<noteq> 0"
    using r [OF that] by simp
  have k: "0 \<le> rnd_at \<bar>z * 2 ^ s\<bar> 1 0" by simp
  show "\<not> is_nan (f_add a b)"
    using r0 by (cases "z = 0") (simp_all add: add, simp add: is_nan_def f_ord_def)
  show "f_key (f_add a b) = rkey (f_units a + f_units b)"
  proof (cases "z = 0")
    case True
    then show ?thesis by (simp add: add zu f_key_def f_ord_def)
  next
    case False
    have "z * 2 ^ s < 0 \<longleftrightarrow> z < 0" by (simp add: mult_less_0_iff)
    then show ?thesis using False r [OF False] k unfolding add zu
      by (auto simp: f_key_of_ord rkey_def abs_if)
  qed
qed

lemma f_units_nonneg: "f_le f_zero x \<Longrightarrow> 0 \<le> f_units x"
proof (cases "f_neg x")
  case True
  assume "f_le f_zero x"
  then have "f_ord x \<le> 0" using True by (simp add: f_le_def f_key_def [of x])
  then have "f_mant x = 0" using f_mant_bounds [of x] f_ord_eq [of x] by simp
  then show ?thesis by (simp add: f_units_def)
next
  case False
  then show ?thesis using f_mant_bounds [of x] by (simp add: f_units_def)
qed

lemma nan_inf_finite: "is_nan x \<or> is_inf x \<or> is_finite x"
  by (auto simp: is_nan_def is_inf_def is_finite_def)

lemma inf_simps: "is_inf x \<Longrightarrow> \<not> is_nan x \<and> f_key x = (if f_neg x then - inf_ord else inf_ord)"
  by (simp add: is_inf_def is_nan_def f_key_def)

lemma f_key_le_inf: "\<not> is_nan x \<Longrightarrow> - inf_ord \<le> f_key x \<and> f_key x \<le> inf_ord"
  using f_ord_nonneg [of x] unfolding is_nan_def f_key_def by (cases "f_neg x"; simp only: if_True if_False; linarith)

theorem f_add_increases:
  assumes y: "f_le f_zero y" and x: "\<not> is_nan x" "is_finite x \<or> \<not> f_neg x"
  shows "f_le x (f_add x y)"
proof -
  have ny: "\<not> is_nan y" "is_inf y \<Longrightarrow> \<not> f_neg y"
    using y by (auto simp: f_le_def inf_simps)
  consider "is_inf x" | "is_finite x" "is_inf y" | "is_finite x" "is_finite y"
    using x(1) ny(1) nan_inf_finite by blast
  then show ?thesis
  proof cases
    case 1
    then have "f_add x y = x" using x ny by (auto simp: f_add_def is_inf_def is_finite_def)
    then show ?thesis using x by simp
  next
    case 2
    then have "f_add x y = y" using x ny by (auto simp: f_add_def is_inf_def is_finite_def)
    then show ?thesis using 2 ny x f_key_le_inf [of x] by (simp add: f_le_def inf_simps)
  next
    case 3
    then have "rkey (f_units x) \<le> rkey (f_units x + f_units y)"
      using f_units_nonneg [OF y] by (intro rkey_mono) simp
    then show ?thesis using 3 x f_add_finite [OF 3] by (simp add: f_le_def f_key_rkey)
  qed
qed

lemma f_ord_inj: "f_ord x = f_ord y \<Longrightarrow> f_neg x = f_neg y \<Longrightarrow> x = y"
proof -
  assume o: "f_ord x = f_ord y" and s: "f_neg x = f_neg y"
  have b: "0 \<le> uint (f_frac z)" "uint (f_frac z) < p52" for z using uint_lt2p [of "f_frac z"] by simp_all
  have "uint (f_exp x) = f_ord x div p52" "uint (f_exp y) = f_ord y div p52"
    "uint (f_frac x) = f_ord x mod p52" "uint (f_frac y) = f_ord y mod p52"
    using b by (simp_all add: f_ord_def)
  then have "f_exp x = f_exp y" "f_frac x = f_frac y" using o by (metis word_of_int_uint)+
  then show "x = y" using s by (simp add: f64.expand)
qed

lemma f_add_comm: "f_add a b = f_add b a"
proof (cases "is_inf a \<and> is_inf b \<and> f_neg a = f_neg b")
  case True
  then have "a = b" using f_ord_inj by (simp add: is_inf_def)
  then show ?thesis by simp
next
  case False
  then show ?thesis by (auto simp: f_add_def Let_def min.commute add.commute conj_commute)
qed

lemma f_key_inj: "f_key x = f_key y \<Longrightarrow> f_key x \<noteq> 0 \<Longrightarrow> x = y"
  using f_ord_nonneg [of x] f_ord_nonneg [of y]
  by (cases "f_neg x"; cases "f_neg y"; intro f_ord_inj; simp only: f_key_def if_True if_False; linarith)

lemma f_add_zero:
  assumes "f_ord b = 0" "f_ord a \<noteq> 0" "\<not> is_nan a"
  shows "f_add a b = a"
proof (cases "is_inf a")
  case True
  then show ?thesis using assms by (simp add: f_add_def is_inf_def is_nan_def)
next
  case False
  then have fin: "is_finite a" "is_finite b" using assms nan_inf_finite by (auto simp: is_finite_def)
  have "f_mant b = 0" using assms(1) f_ord_eq [of b] f_mant_bounds [of b] by simp
  then have "f_key (f_add a b) = f_key a"
    using f_add_finite(2) [OF fin] f_key_rkey [OF fin(1)] by (simp add: f_units_def)
  then show ?thesis using f_key_inj [of a "f_add a b"] assms(2) by (simp add: f_key_def split: if_splits)
qed

lemma f_nonneg_cases: "f_le f_zero x \<Longrightarrow> \<not> is_nan x \<and> (is_finite x \<or> \<not> f_neg x)"
  using nan_inf_finite [of x] by (auto simp: f_le_def inf_simps)

lemma f_add_le_left: "f_le f_zero x \<Longrightarrow> f_le f_zero y \<Longrightarrow> f_le x (f_add x y)"
  using f_add_increases [of y x] f_nonneg_cases by blast

lemma f_add_le_right: "f_le f_zero x \<Longrightarrow> f_le f_zero y \<Longrightarrow> f_le y (f_add x y)"
  using f_add_le_left [of y x] by (simp add: f_add_comm)

section \<open>Evaluation\<close>

text \<open>
  Code equations that keep exponents as binary integers, so that the simplifier can compute with values of
  ordinary size.
\<close>

function pow2 :: "int \<Rightarrow> int" where
  "pow2 k = (if k \<le> 0 then 1 else let h = pow2 (k div 2) in if even k then h * h else 2 * (h * h))"
  by pat_completeness auto
termination by (relation "measure nat") auto

declare pow2.simps [simp del]

lemma pow2_eq: "pow2 k = 2 ^ nat k"
proof (induction k rule: pow2.induct)
  case (1 k)
  show ?case
  proof (cases "k \<le> 0")
    case False
    then have h: "pow2 (k div 2) = 2 ^ nat (k div 2)" using 1 by simp
    show ?thesis
    proof (cases "even k")
      case True
      then obtain j where "k = 2 * j" by (elim evenE)
      then have "nat k = nat (k div 2) + nat (k div 2)" using False by simp
      then show ?thesis using True False h by (simp add: pow2.simps [of k] power_add Let_def)
    next
      case odd: False
      then obtain j where "k = 2 * j + 1" by (elim oddE)
      then have "nat k = Suc (nat (k div 2) + nat (k div 2))" using False by simp
      then show ?thesis using odd False h by (simp add: pow2.simps [of k] power_add Let_def)
    qed
  qed (simp add: pow2.simps)
qed

function ibits :: "int \<Rightarrow> int" where
  "ibits n =
     (if n \<le> 0 then 0
      else if 18446744073709551616 \<le> n then ibits (n div 18446744073709551616) + 64
      else ibits (n div 2) + 1)"
  by pat_completeness auto
termination by (relation "measure nat") auto

declare ibits.simps [simp del]

lemma ibits_eq: "ibits n = int (bits n)"
proof (induction n rule: ibits.induct)
  case (1 n)
  consider "n \<le> 0" | "18446744073709551616 \<le> n" | "0 < n" "n < 18446744073709551616" by linarith
  then show ?case
  proof cases
    case 2
    have q: "0 < n div 2 ^ 64" using 2 by (simp add: pos_imp_zdiv_pos_iff)
    obtain j where j: "bits (n div 2 ^ 64) = Suc j" using bits_pos [OF q] by (cases "bits (n div 2 ^ 64)") auto
    have "2 ^ j \<le> n div 2 ^ 64" "n div 2 ^ 64 < 2 ^ Suc j" using bits_bounds [OF q] j by auto
    then have "2 ^ j * 2 ^ 64 \<le> n" "n < 2 ^ Suc j * 2 ^ 64"
      using le_div_iff_int [of "2 ^ 64" "2 ^ j" n] div_less_iff_int [of "2 ^ 64" n "2 ^ Suc j"] by simp_all
    then have "bits n = Suc (j + 64)" by (intro bits_unique) (simp_all add: power_add)
    then have "bits n = bits (n div 2 ^ 64) + 64" using j by simp
    then show ?thesis using 1 2 by (simp add: ibits.simps [of n])
  next
    case 3
    then show ?thesis using 1 by (simp add: ibits.simps [of n] bits.simps [of n])
  qed (simp add: ibits.simps)
qed

lemma bits_code [code]: "bits n = nat (ibits n)"
  by (simp add: ibits_eq)

definition rnd_int :: "int \<Rightarrow> int \<Rightarrow> int \<Rightarrow> int" where
  "rnd_int n d b = (if n = 0 then 0 else
     let s = max 0 (ibits (n div d) + b - 53)
     in s * p52 + (if b \<le> s then rne n (d * pow2 (s - b)) else rne (n * pow2 (b - s)) d))"

lemma rnd_int_eq: "rnd_int n d (int b) = rnd_at n d b"
proof -
  have s: "max 0 (int (bits (n div d)) + int b - 53) = int (bits (n div d) + b - 53)" by simp
  show ?thesis
    unfolding rnd_int_def rnd_at_def ibits_eq s Let_def pow2_eq by (simp add: nat_diff_distrib flip: of_nat_diff)
qed

lemma rnd_at_code [code]: "rnd_at n d b = rnd_int n d (int b)"
  by (simp add: rnd_int_eq)

definition ishift :: "f64 \<Rightarrow> int" where
  "ishift x = max 0 (uint (f_exp x) - 1)"

lemma ishift_eq: "ishift x = int (f_shift x)"
  by (simp add: ishift_def f_shift_def)

lemma f_add_code [code]:
  "f_add a b =
     (if is_nan a \<or> is_nan b then f_nan
      else if is_inf a then (if is_inf b \<and> f_neg a \<noteq> f_neg b then f_nan else a)
      else if is_inf b then b
      else if f_ord a = 0 \<and> f_ord b \<noteq> 0 then b
      else if f_ord b = 0 \<and> f_ord a \<noteq> 0 then a
      else let s = min (ishift a) (ishift b);
               z = f_smant a * pow2 (ishift a - s) + f_smant b * pow2 (ishift b - s)
           in if z = 0 then F64 (f_neg a \<and> f_neg b) 0 0
              else of_ord (z < 0) (rnd_int \<bar>z\<bar> 1 s))"
proof -
  have m: "min (ishift a) (ishift b) = int (min (f_shift a) (f_shift b))" by (simp add: ishift_eq)
  have p: "pow2 (ishift x - int k) = 2 ^ (f_shift x - k)" for x k
    by (simp add: pow2_eq ishift_eq nat_diff_distrib)
  have z: "f_add a b = b" if "f_ord a = 0" "f_ord b \<noteq> 0" "\<not> is_nan b" using f_add_zero that f_add_comm by metis
  show ?thesis
  proof (cases "(f_ord a = 0 \<longleftrightarrow> f_ord b = 0) \<or> is_nan a \<or> is_nan b \<or> is_inf a \<or> is_inf b")
    case True
    then show ?thesis by (simp only: f_add_def [of a b] Let_def m p rnd_int_eq) auto
  next
    case False
    then show ?thesis using z f_add_zero by (simp only: if_True if_False simp_thms) auto
  qed
qed

lemma f_mul_code [code]:
  "f_mul a b =
     (let s = (f_neg a \<noteq> f_neg b) in
      if is_nan a \<or> is_nan b then f_nan
      else if is_inf a then (if f_ord b = 0 then f_nan else of_ord s inf_ord)
      else if is_inf b then (if f_ord a = 0 then f_nan else of_ord s inf_ord)
      else let e = ishift a + ishift b; m = f_mant a * f_mant b
           in of_ord s (if 1074 \<le> e then rnd_int m 1 (e - 1074) else rnd_int m (pow2 (1074 - e)) 0))"
proof -
  define e where "e = f_shift a + f_shift b"
  have i: "ishift a + ishift b = int e" by (simp add: ishift_eq e_def)
  have c: "1074 \<le> int e \<longleftrightarrow> 1074 \<le> e" by simp
  have r1: "rnd_int m 1 (int e - 1074) = rnd_at m 1 (e - 1074)" if "1074 \<le> e" for m
    using rnd_int_eq [of m 1 "e - 1074"] that by (simp add: of_nat_diff)
  have r2: "rnd_int m (pow2 (1074 - int e)) 0 = rnd_at m (2 ^ (1074 - e)) 0" for m
  proof -
    have "nat (1074 - int e) = 1074 - e" by arith
    then show ?thesis using rnd_int_eq [of m "2 ^ (1074 - e)" 0] by (simp add: pow2_eq)
  qed
  show ?thesis
    unfolding f_mul_def Let_def i c r2 e_def [symmetric] by (cases "1074 \<le> e") (simp_all only: r1 if_True if_False)
qed

lemma f_div_code [code]:
  "f_div a b =
     (let s = (f_neg a \<noteq> f_neg b) in
      if is_nan a \<or> is_nan b then f_nan
      else if is_inf a then (if is_inf b then f_nan else of_ord s inf_ord)
      else if is_inf b then of_ord s 0
      else if f_ord b = 0 then (if f_ord a = 0 then f_nan else of_ord s inf_ord)
      else let e = ishift a + 1074 - ishift b; k = min e 55
           in of_ord s
                (if e < 0 then rnd_int (f_mant a) (f_mant b * pow2 (- e)) 0
                 else rnd_int (f_mant a * pow2 k) (f_mant b) (e - k)))"
proof -
  define e where "e = ishift a + 1074 - ishift b"
  have lt: "f_shift a + 1074 < f_shift b \<longleftrightarrow> e < 0" unfolding e_def ishift_eq by linarith
  have r1: "rnd_int m (n * pow2 (- e)) 0 = rnd_at m (n * 2 ^ (f_shift b - (f_shift a + 1074))) 0" if "e < 0" for m n
  proof -
    have "nat (- e) = f_shift b - (f_shift a + 1074)" unfolding e_def ishift_eq by linarith
    then show ?thesis using rnd_int_eq [of m "n * 2 ^ (f_shift b - (f_shift a + 1074))" 0] by (simp add: pow2_eq)
  qed
  have ne: "int (f_shift a + 1074 - f_shift b) = e" if "\<not> e < 0" using that by (simp add: e_def ishift_eq)
  have r2: "rnd_int (m * pow2 (min e 55)) n (e - min e 55)
      = rnd_at (m * 2 ^ min (f_shift a + 1074 - f_shift b) 55) n (f_shift a + 1074 - f_shift b - min (f_shift a + 1074 - f_shift b) 55)"
    if "\<not> e < 0" for m n
  proof -
    let ?e = "f_shift a + 1074 - f_shift b"
    have "nat (min e 55) = min ?e 55" "int (?e - min ?e 55) = e - min e 55" using ne [OF that] by auto
    then show ?thesis using rnd_int_eq [of "m * 2 ^ min ?e 55" n "?e - min ?e 55"] by (simp add: pow2_eq)
  qed
  show ?thesis
    unfolding f_div_def Let_def e_def [symmetric] lt by (cases "e < 0") (simp_all add: r1 r2)
qed

lemma f_rem_code [code]:
  "f_rem a b =
     (if is_nan a \<or> is_nan b \<or> is_inf a \<or> f_ord b = 0 then f_nan
      else if is_inf b then a
      else let s = min (ishift a) (ishift b)
           in of_ord (f_neg a)
                (rnd_int ((f_mant a * pow2 (ishift a - s)) mod (f_mant b * pow2 (ishift b - s))) 1 s))"
proof -
  have m: "min (ishift a) (ishift b) = int (min (f_shift a) (f_shift b))" by (simp add: ishift_eq)
  have p: "pow2 (ishift x - int k) = 2 ^ (f_shift x - k)" for x k
    by (simp add: pow2_eq ishift_eq nat_diff_distrib)
  show ?thesis by (simp only: f_rem_def Let_def m p rnd_int_eq)
qed

lemma lit_code [code]:
  "lit n d = (let k = min 1074 (ibits d + 54) in of_ord False (rnd_int (n * pow2 k) d (1074 - k)))"
proof -
  have k: "min 1074 (ibits d + 54) = int (min 1074 (bits d + 54))" by (simp add: ibits_eq)
  have p: "pow2 (int j) = 2 ^ j" for j by (simp add: pow2_eq)
  have b: "1074 - int (min 1074 j) = int (1074 - min 1074 j)" for j by simp
  show ?thesis by (simp only: lit_def Let_def k p b rnd_int_eq)
qed

lemma f_of_int_code [code]: "f_of_int n = of_ord (n < 0) (rnd_int \<bar>n\<bar> 1 1074)"
  using rnd_int_eq [of "\<bar>n\<bar>" 1 1074] by (simp add: f_of_int_def)

lemma f_num_code [code]: "f_num x = f_mant x * pow2 (ishift x - 1074)"
proof -
  have "nat (int (f_shift x) - 1074) = f_shift x - 1074" by arith
  then show ?thesis by (simp add: f_num_def pow2_eq ishift_eq)
qed

lemma f_den_code [code]: "f_den x = pow2 (1074 - ishift x)"
proof -
  have "nat (1074 - int (f_shift x)) = 1074 - f_shift x" by arith
  then show ?thesis by (simp add: f_den_def pow2_eq ishift_eq)
qed

lemma f_int_part_code [code]:
  "f_int_part h x = (if is_finite x then of_ord (f_neg x) (rnd_int (h (f_num x) (f_den x)) 1 1074) else x)"
  using rnd_int_eq [of "h (f_num x) (f_den x)" 1 1074] by (simp add: f_int_part_def)

end
