(* ===== verification/Cards.thy ===== *)
theory Cards
  imports Prelude
begin

text \<open>
  The domain crate \<open>agora-core\<close> (\<open>crates/agora-core/src/lib.rs\<close>): roles with their order, card states,
  and \<open>check_transition\<close>, which decides whether an actor may move a card from one state to another.
  The lemmas describe the graph of legal moves: where a card can go, what it must have passed through,
  and who may move it.
\<close>

section \<open>Roles\<close>

datatype role = Observer | Worker | Supervisor | Controller | Owner

primrec role_rank :: "role \<Rightarrow> nat" where
  "role_rank Observer = 0"
| "role_rank Worker = 1"
| "role_rank Supervisor = 2"
| "role_rank Controller = 3"
| "role_rank Owner = 4"

lemma role_rank_inj [simp]: "role_rank a = role_rank b \<longleftrightarrow> a = b"
  by (cases a; cases b; simp)

instantiation role :: linorder
begin

definition less_eq_role :: "role \<Rightarrow> role \<Rightarrow> bool" where
  "less_eq_role a b = (role_rank a \<le> role_rank b)"

definition less_role :: "role \<Rightarrow> role \<Rightarrow> bool" where
  "less_role a b = (role_rank a < role_rank b)"

instance
  by standard (auto simp: less_eq_role_def less_role_def)

end

definition role_as_str :: "role \<Rightarrow> string" where
  "role_as_str r = (case r of
     Observer \<Rightarrow> ''observer'' | Worker \<Rightarrow> ''worker'' | Supervisor \<Rightarrow> ''supervisor''
   | Controller \<Rightarrow> ''controller'' | Owner \<Rightarrow> ''owner'')"

definition role_parse :: "string \<Rightarrow> role option" where
  "role_parse s =
     (if s = ''observer'' then Some Observer
      else if s = ''worker'' then Some Worker
      else if s = ''supervisor'' then Some Supervisor
      else if s = ''controller'' then Some Controller
      else if s = ''owner'' then Some Owner
      else None)"

lemma role_simps [simp]:
  "Observer \<le> r" "r \<le> Owner" "\<not> r < Observer" "\<not> Owner < r"
  "\<not> Worker < Observer" "Worker \<le> Supervisor" "Worker < Supervisor" "Observer < Worker" "Observer < Supervisor"
  "\<not> Supervisor \<le> Worker" "Supervisor \<le> Controller" "Supervisor < Controller" "Worker < Controller"
  "Controller < Owner" "Supervisor < Owner" "Worker < Owner"
  by (cases r; simp add: less_eq_role_def less_role_def)+

lemma role_Controller_le [simp]: "Controller \<le> r \<longleftrightarrow> r = Controller \<or> r = Owner"
  by (cases r) (simp_all add: less_eq_role_def)

lemma role_less_Owner [simp]: "r < Owner \<longleftrightarrow> r \<noteq> Owner"
  by (cases r) (simp_all add: less_role_def)

lemma role_parse_as_str [simp]: "role_parse (role_as_str r) = Some r"
  by (cases r) (simp_all add: role_parse_def role_as_str_def)

lemma role_parse_Some_iff: "role_parse s = Some r \<longleftrightarrow> s = role_as_str r"
  by (cases r) (auto simp: role_parse_def role_as_str_def split: if_splits)

lemma role_as_str_inj [simp]: "role_as_str a = role_as_str b \<longleftrightarrow> a = b"
  by (metis option.inject role_parse_as_str)

section \<open>Card states\<close>

datatype card_state = Backlog | Ready | Claimed | Doing | Review | Done | Blocked | Cancelled

definition card_as_str :: "card_state \<Rightarrow> string" where
  "card_as_str c = (case c of
     Backlog \<Rightarrow> ''backlog'' | Ready \<Rightarrow> ''ready'' | Claimed \<Rightarrow> ''claimed'' | Doing \<Rightarrow> ''doing''
   | Review \<Rightarrow> ''review'' | Done \<Rightarrow> ''done'' | Blocked \<Rightarrow> ''blocked'' | Cancelled \<Rightarrow> ''cancelled'')"

definition card_parse :: "string \<Rightarrow> card_state option" where
  "card_parse s =
     (if s = ''backlog'' then Some Backlog
      else if s = ''ready'' then Some Ready
      else if s = ''claimed'' then Some Claimed
      else if s = ''doing'' then Some Doing
      else if s = ''review'' then Some Review
      else if s = ''done'' then Some Done
      else if s = ''blocked'' then Some Blocked
      else if s = ''cancelled'' then Some Cancelled
      else None)"

definition is_terminal :: "card_state \<Rightarrow> bool" where
  "is_terminal c = (c \<in> {Done, Cancelled})"

lemma card_parse_as_str [simp]: "card_parse (card_as_str c) = Some c"
  by (cases c) (simp_all add: card_parse_def card_as_str_def)

lemma card_parse_Some_iff: "card_parse s = Some c \<longleftrightarrow> s = card_as_str c"
  by (cases c) (auto simp: card_parse_def card_as_str_def split: if_splits)

lemma card_as_str_inj [simp]: "card_as_str a = card_as_str b \<longleftrightarrow> a = b"
  by (metis option.inject card_parse_as_str)

section \<open>Transitions\<close>

datatype transition_error =
    Illegal card_state card_state
  | Forbidden role
  | EvidenceRequired
  | ReviewRequired

record gate =
  has_evidence :: bool
  independent_approval :: bool
  require_review :: bool

definition legal :: "card_state \<Rightarrow> card_state \<Rightarrow> bool" where
  "legal frm to =
     ((frm, to) \<in> {(Backlog, Ready), (Ready, Claimed), (Claimed, Doing), (Claimed, Ready),
        (Doing, Review), (Doing, Done), (Review, Doing), (Review, Done), (Blocked, Ready)}
      \<or> frm \<in> {Backlog, Ready, Claimed, Doing, Review} \<and> to = Blocked
      \<or> frm \<in> {Backlog, Ready, Claimed, Doing, Review, Blocked} \<and> to = Cancelled)"

definition check_transition ::
  "card_state \<Rightarrow> card_state \<Rightarrow> role \<Rightarrow> gate \<Rightarrow> transition_error + unit" where
  "check_transition frm to role g =
     (if \<not> legal frm to then Inl (Illegal frm to)
      else if (if to = Ready \<and> frm = Backlog \<or> to = Cancelled then role < Supervisor else role < Worker)
        then Inl (Forbidden role)
      else if to = Done \<and> \<not> has_evidence g then Inl EvidenceRequired
      else if to = Done \<and> require_review g \<and> \<not> independent_approval g then Inl ReviewRequired
      else Inr ())"

lemma check_transition_Inr:
  "check_transition frm to role g = Inr () \<longleftrightarrow>
     legal frm to
     \<and> (if to = Ready \<and> frm = Backlog \<or> to = Cancelled then Supervisor \<le> role else Worker \<le> role)
     \<and> (to = Done \<longrightarrow> has_evidence g \<and> (require_review g \<longrightarrow> independent_approval g))"
  by (auto simp: check_transition_def)

lemma check_transition_legal: "check_transition frm to role g = Inr u \<Longrightarrow> legal frm to"
  by (simp add: check_transition_def split: if_splits)

lemmas legal_simps = legal_def is_terminal_def

lemma legal_from_terminal: "is_terminal frm \<Longrightarrow> \<not> legal frm to"
  by (auto simp: legal_simps)

lemma legal_to_Backlog: "\<not> legal frm Backlog"
  by (auto simp: legal_simps)

lemma legal_to_Done: "legal frm Done \<Longrightarrow> frm \<in> {Doing, Review}"
  by (auto simp: legal_simps)

text \<open>
  One recorded move: the state it came from, the state it went to, the mover's role and the gate it was
  judged by. \<open>history c ms c'\<close> says that \<open>ms\<close> is a sequence of accepted moves taking a card from \<open>c\<close> to \<open>c'\<close>.
\<close>

type_synonym move = "card_state \<times> card_state \<times> role \<times> gate"

inductive history :: "card_state \<Rightarrow> move list \<Rightarrow> card_state \<Rightarrow> bool" where
  history_Nil: "history c [] c"
| history_snoc: "history c ms frm \<Longrightarrow> check_transition frm to role g = Inr () \<Longrightarrow>
    history c (ms @ [(frm, to, role, g)]) to"

inductive_cases history_NilE: "history c [] c'"

lemma history_terminal: "history c ms c' \<Longrightarrow> is_terminal c \<Longrightarrow> ms = [] \<and> c' = c"
  by (induction rule: history.induct) (auto dest: check_transition_legal legal_from_terminal)

text \<open>
  What the moves of a card that started in the backlog must contain, by the state it is in now: a promotion
  by a supervisor for every state but \<open>backlog\<close> (a card may also be blocked and then released), a claim for
  every state of work in progress.
\<close>

definition passed :: "card_state \<Rightarrow> card_state \<Rightarrow> move list \<Rightarrow> bool" where
  "passed a b ms = (\<exists>role g. (a, b, role, g) \<in> set ms)"

lemma passed_simps [simp]:
  "\<not> passed a b []"
  "passed a b (ms @ [(x, y, role, g)]) \<longleftrightarrow> passed a b ms \<or> (x = a \<and> y = b)"
  by (auto simp: passed_def)

lemma history_claimed:
  "history Backlog ms c \<Longrightarrow> c \<in> {Claimed, Doing, Review, Done} \<Longrightarrow>
     passed Ready Claimed ms \<and> (c \<noteq> Claimed \<longrightarrow> passed Claimed Doing ms)"
proof (induction "Backlog :: card_state" ms c rule: history.induct)
  case (history_snoc ms frm to role g)
  have "legal frm to" using history_snoc by (blast dest: check_transition_legal)
  then show ?case using history_snoc by (cases to; cases frm) (auto simp: legal_simps)
qed auto

lemma history_done_gate:
  "history c ms Done \<Longrightarrow> c \<noteq> Done \<Longrightarrow>
     \<exists>ms' frm role g. ms = ms' @ [(frm, Done, role, g)] \<and> frm \<in> {Doing, Review} \<and> Worker \<le> role
        \<and> has_evidence g \<and> (require_review g \<longrightarrow> independent_approval g)"
  by (erule history.cases) (auto simp: check_transition_Inr dest: legal_to_Done)

lemma history_trans: "history b ns c \<Longrightarrow> history a ms b \<Longrightarrow> history a (ms @ ns) c"
proof (induction rule: history.induct)
  case (history_snoc c ms frm to role g)
  then show ?case using history.history_snoc by (metis append.assoc)
qed simp

lemma history_step: "check_transition a b role g = Inr () \<Longrightarrow> history b ms c \<Longrightarrow>
    history a ((a, b, role, g) # ms) c"
  using history_trans [of b ms c a "[(a, b, role, g)]"] history.history_snoc [OF history_Nil] by fastforce

text \<open>
  C1: a card that was moved from the backlog to \<open>done\<close> was claimed and started on its way, and the last
  move was made from \<open>doing\<close> or \<open>review\<close> by a worker or above, with evidence, and with an independent
  approval where review is required.
\<close>

theorem done_only_through_gate:
  assumes "history Backlog ms Done"
  shows "passed Ready Claimed ms \<and> passed Claimed Doing ms
    \<and> (\<exists>frm role g. last ms = (frm, Done, role, g) \<and> frm \<in> {Doing, Review} \<and> Worker \<le> role
        \<and> has_evidence g \<and> (require_review g \<longrightarrow> independent_approval g))"
  using history_claimed [OF assms] history_done_gate [OF assms] by auto

theorem done_only_through_gate_witness:
  "let g = \<lparr>has_evidence = True, independent_approval = False, require_review = False\<rparr>;
       ms = [(Backlog, Ready, Supervisor, g), (Ready, Claimed, Worker, g), (Claimed, Doing, Worker, g),
             (Doing, Done, Worker, g)]
   in history Backlog ms Done \<and> passed Claimed Doing ms"
proof -
  define g where "g = \<lparr>has_evidence = True, independent_approval = False, require_review = False\<rparr>"
  have "history Backlog [(Backlog, Ready, Supervisor, g), (Ready, Claimed, Worker, g),
      (Claimed, Doing, Worker, g), (Doing, Done, Worker, g)] Done"
    by (intro history_step history_Nil) (simp_all add: check_transition_def legal_def g_def)
  from this done_only_through_gate [OF this] show ?thesis by (simp add: g_def)
qed

text \<open>
  C2: terminal states are final and every other state can still be finished: from a terminal card no move is
  accepted, whatever the role and the gate; from any other state an owner with evidence and an approval
  reaches \<open>done\<close> by accepted moves.
\<close>

theorem terminal_iff_stuck:
  "(is_terminal c \<longleftrightarrow> (\<forall>to role g. check_transition c to role g \<noteq> Inr ()))
   \<and> (\<not> is_terminal c \<longleftrightarrow> c \<noteq> Cancelled \<and> (\<exists>ms. ms \<noteq> [] \<and> history c ms Done))"
proof -
  define g where "g = \<lparr>has_evidence = True, independent_approval = True, require_review = True\<rparr>"
  have step: "history a ((a, b, Owner, g) # ms) d" if "legal a b" "history b ms d" for a b ms d
    using that by (intro history_step) (simp_all add: check_transition_def g_def less_role_def)
  have dg: "history Doing [(Doing, Done, Owner, g)] Done"
    and rv: "history Review [(Review, Done, Owner, g)] Done"
    by (intro step history_Nil; simp add: legal_def)+
  have cl: "history Claimed [(Claimed, Doing, Owner, g), (Doing, Done, Owner, g)] Done"
    by (intro step dg; simp add: legal_def)
  have rd: "history Ready [(Ready, Claimed, Owner, g), (Claimed, Doing, Owner, g), (Doing, Done, Owner, g)] Done"
    by (intro step cl; simp add: legal_def)
  have ex: "\<exists>ms. ms \<noteq> [] \<and> history c ms Done" if "\<not> is_terminal c"
    using that dg rv cl rd step [of Backlog Ready, OF _ rd] step [of Blocked Ready, OF _ rd]
    by (cases c) (auto simp: legal_simps)
  then have fin: "\<not> is_terminal c \<longleftrightarrow> c \<noteq> Cancelled \<and> (\<exists>ms. ms \<noteq> [] \<and> history c ms Done)"
    by (auto simp: is_terminal_def dest: history_terminal)
  have "\<exists>to role g. check_transition c to role g = Inr ()" if "\<not> is_terminal c"
  proof -
    have "\<exists>to. legal c to" using that by (cases c) (auto simp: legal_simps)
    then obtain to where "legal c to" by blast
    then have "check_transition c to Owner g = Inr ()"
      by (simp add: check_transition_def g_def less_role_def)
    then show ?thesis by blast
  qed
  then have "is_terminal c \<longleftrightarrow> (\<forall>to role g. check_transition c to role g \<noteq> Inr ())"
    by (auto dest: check_transition_legal legal_from_terminal)
  with fin show ?thesis by simp
qed

end
