(* ===== verification/Pyfmt.thy ===== *)
theory Pyfmt
  imports F64
begin

text \<open>
  Python-compatible formatting and parsing (\<open>crates/agora-sched/src/pyfmt.rs\<close> and its table of non-printable
  code points). Characters are their code points; a byte string is decoded by \<open>chars_of\<close> and a code point
  is encoded by \<open>utf8\<close>. Rust's own \<open>{:.N}\<close>, \<open>{:e}\<close> and \<open>str::parse::<f64>\<close> are written out as exact decimal
  rounding of the binary value.
\<close>

section \<open>UTF-8\<close>

definition utf8 :: "int \<Rightarrow> string" where
  "utf8 c =
     (let b = (\<lambda>n. char_of (nat n)) in
      if c < 128 then [b c]
      else if c < 2048 then [b (192 + c div 64), b (128 + c mod 64)]
      else if c < 65536 then [b (224 + c div 4096), b (128 + c div 64 mod 64), b (128 + c mod 64)]
      else [b (240 + c div 262144), b (128 + c div 4096 mod 64), b (128 + c div 64 mod 64), b (128 + c mod 64)])"

fun chars_of :: "string \<Rightarrow> int list" where
  "chars_of [] = []"
| "chars_of (a # s) =
     (if byte a < 192 then byte a # chars_of s
      else if byte a < 224 then
        (case s of b # s' \<Rightarrow> ((byte a - 192) * 64 + (byte b - 128)) # chars_of s' | _ \<Rightarrow> [])
      else if byte a < 240 then
        (case s of b # c # s' \<Rightarrow> ((byte a - 224) * 4096 + (byte b - 128) * 64 + (byte c - 128)) # chars_of s'
         | _ \<Rightarrow> [])
      else
        (case s of b # c # d # s' \<Rightarrow>
           ((byte a - 240) * 262144 + (byte b - 128) * 4096 + (byte c - 128) * 64 + (byte d - 128)) # chars_of s'
         | _ \<Rightarrow> []))"

definition of_chars :: "int list \<Rightarrow> string" where
  "of_chars cs = concat (map utf8 cs)"

definition is_scalar :: "int \<Rightarrow> bool" where
  "is_scalar c = (0 \<le> c \<and> c < 1114112 \<and> \<not> (55296 \<le> c \<and> c \<le> 57343))"

definition hex_digit :: "int \<Rightarrow> char" where
  "hex_digit d = (if d < 10 then char_of (nat (48 + d)) else char_of (nat (87 + d)))"

lemma hex_digit_table:
  "hex_digit 0 = CHR ''0''" "hex_digit 1 = CHR ''1''" "hex_digit 2 = CHR ''2''" "hex_digit 3 = CHR ''3''"
  "hex_digit 4 = CHR ''4''" "hex_digit 5 = CHR ''5''" "hex_digit 6 = CHR ''6''" "hex_digit 7 = CHR ''7''"
  "hex_digit 8 = CHR ''8''" "hex_digit 9 = CHR ''9''" "hex_digit 10 = CHR ''a''" "hex_digit 11 = CHR ''b''"
  "hex_digit 12 = CHR ''c''" "hex_digit 13 = CHR ''d''" "hex_digit 14 = CHR ''e''" "hex_digit 15 = CHR ''f''"
  by code_simp+

lemma hex_digit_code [code]:
  "hex_digit d = (if 0 \<le> d \<and> d < 16
     then (if d < 8 then (if d < 4 then (if d < 2 then (if d < 1 then CHR ''0'' else CHR ''1'') else (if d < 3
       then CHR ''2'' else CHR ''3'')) else (if d < 6 then (if d < 5 then CHR ''4'' else CHR ''5'') else
       (if d < 7 then CHR ''6'' else CHR ''7''))) else (if d < 12 then (if d < 10 then (if d < 9 then CHR
       ''8'' else CHR ''9'') else (if d < 11 then CHR ''a'' else CHR ''b'')) else (if d < 14 then (if d <
       13 then CHR ''c'' else CHR ''d'') else (if d < 15 then CHR ''e'' else CHR ''f''))))
     else int_char (if d < 10 then 48 + d else 87 + d))"
proof (cases "0 \<le> d \<and> d < 16")
  case True
  then have "d \<in> {0, 1, 2, 3, 4, 5, 6, 7, 8, 9, 10, 11, 12, 13, 14, 15}" unfolding insert_iff empty_iff by presburger
  then show ?thesis by (elim insertE) (simp_all add: hex_digit_table)
next
  case False
  show ?thesis unfolding if_not_P [OF False] by (simp add: hex_digit_def int_char_def)
qed

text \<open>\<open>format!("{:0w$x}", n)\<close>: lowercase hex, at least \<open>w\<close> digits.\<close>

fun hex_pad :: "nat \<Rightarrow> int \<Rightarrow> string" where
  "hex_pad 0 n = []"
| "hex_pad (Suc w) n = hex_pad w (n div 16) @ [hex_digit (n mod 16)]"

section \<open>Printable characters\<close>

text \<open>The sorted table of ranges, in nine pieces of 82 rows each.\<close>

definition non_printable1 :: "(int \<times> int) list" where
  "non_printable1 = [
    (0, 31), (127, 160), (173, 173), (888, 889), (896, 899), (907, 907), (909, 909), (930, 930),
    (1328, 1328), (1367, 1368), (1419, 1420), (1424, 1424), (1480, 1487), (1515, 1518), (1525, 1541),
    (1564, 1564), (1757, 1757), (1806, 1807), (1867, 1868), (1970, 1983), (2043, 2044), (2094, 2095),
    (2111, 2111), (2140, 2141), (2143, 2143), (2155, 2159), (2191, 2198), (2274, 2274), (2436, 2436),
    (2445, 2446), (2449, 2450), (2473, 2473), (2481, 2481), (2483, 2485), (2490, 2491), (2501, 2502),
    (2505, 2506), (2511, 2518), (2520, 2523), (2526, 2526), (2532, 2533), (2559, 2560), (2564, 2564),
    (2571, 2574), (2577, 2578), (2601, 2601), (2609, 2609), (2612, 2612), (2615, 2615), (2618, 2619),
    (2621, 2621), (2627, 2630), (2633, 2634), (2638, 2640), (2642, 2648), (2653, 2653), (2655, 2661),
    (2679, 2688), (2692, 2692), (2702, 2702), (2706, 2706), (2729, 2729), (2737, 2737), (2740, 2740),
    (2746, 2747), (2758, 2758), (2762, 2762), (2766, 2767), (2769, 2783), (2788, 2789), (2802, 2808),
    (2816, 2816), (2820, 2820), (2829, 2830), (2833, 2834), (2857, 2857), (2865, 2865), (2868, 2868),
    (2874, 2875), (2885, 2886), (2889, 2890), (2894, 2900)]"

definition non_printable2 :: "(int \<times> int) list" where
  "non_printable2 = [
    (2904, 2907), (2910, 2910), (2916, 2917), (2936, 2945), (2948, 2948), (2955, 2957), (2961, 2961),
    (2966, 2968), (2971, 2971), (2973, 2973), (2976, 2978), (2981, 2983), (2987, 2989), (3002, 3005),
    (3011, 3013), (3017, 3017), (3022, 3023), (3025, 3030), (3032, 3045), (3067, 3071), (3085, 3085),
    (3089, 3089), (3113, 3113), (3130, 3131), (3141, 3141), (3145, 3145), (3150, 3156), (3159, 3159),
    (3163, 3164), (3166, 3167), (3172, 3173), (3184, 3190), (3213, 3213), (3217, 3217), (3241, 3241),
    (3252, 3252), (3258, 3259), (3269, 3269), (3273, 3273), (3278, 3284), (3287, 3292), (3295, 3295),
    (3300, 3301), (3312, 3312), (3316, 3327), (3341, 3341), (3345, 3345), (3397, 3397), (3401, 3401),
    (3408, 3411), (3428, 3429), (3456, 3456), (3460, 3460), (3479, 3481), (3506, 3506), (3516, 3516),
    (3518, 3519), (3527, 3529), (3531, 3534), (3541, 3541), (3543, 3543), (3552, 3557), (3568, 3569),
    (3573, 3584), (3643, 3646), (3676, 3712), (3715, 3715), (3717, 3717), (3723, 3723), (3748, 3748),
    (3750, 3750), (3774, 3775), (3781, 3781), (3783, 3783), (3791, 3791), (3802, 3803), (3808, 3839),
    (3912, 3912), (3949, 3952), (3992, 3992), (4029, 4029), (4045, 4045)]"

definition non_printable3 :: "(int \<times> int) list" where
  "non_printable3 = [
    (4059, 4095), (4294, 4294), (4296, 4300), (4302, 4303), (4681, 4681), (4686, 4687), (4695, 4695),
    (4697, 4697), (4702, 4703), (4745, 4745), (4750, 4751), (4785, 4785), (4790, 4791), (4799, 4799),
    (4801, 4801), (4806, 4807), (4823, 4823), (4881, 4881), (4886, 4887), (4955, 4956), (4989, 4991),
    (5018, 5023), (5110, 5111), (5118, 5119), (5760, 5760), (5789, 5791), (5881, 5887), (5910, 5918),
    (5943, 5951), (5972, 5983), (5997, 5997), (6001, 6001), (6004, 6015), (6110, 6111), (6122, 6127),
    (6138, 6143), (6158, 6158), (6170, 6175), (6265, 6271), (6315, 6319), (6390, 6399), (6431, 6431),
    (6444, 6447), (6460, 6463), (6465, 6467), (6510, 6511), (6517, 6527), (6572, 6575), (6602, 6607),
    (6619, 6621), (6684, 6685), (6751, 6751), (6781, 6782), (6794, 6799), (6810, 6815), (6830, 6831),
    (6863, 6911), (6989, 6989), (7156, 7163), (7224, 7226), (7242, 7244), (7307, 7311), (7355, 7356),
    (7368, 7375), (7419, 7423), (7958, 7959), (7966, 7967), (8006, 8007), (8014, 8015), (8024, 8024),
    (8026, 8026), (8028, 8028), (8030, 8030), (8062, 8063), (8117, 8117), (8133, 8133), (8148, 8149),
    (8156, 8156), (8176, 8177), (8181, 8181), (8191, 8207), (8232, 8239)]"

definition non_printable4 :: "(int \<times> int) list" where
  "non_printable4 = [
    (8287, 8303), (8306, 8307), (8335, 8335), (8349, 8351), (8385, 8399), (8433, 8447), (8588, 8591),
    (9258, 9279), (9291, 9311), (11124, 11125), (11158, 11158), (11508, 11512), (11558, 11558),
    (11560, 11564), (11566, 11567), (11624, 11630), (11633, 11646), (11671, 11679), (11687, 11687),
    (11695, 11695), (11703, 11703), (11711, 11711), (11719, 11719), (11727, 11727), (11735, 11735),
    (11743, 11743), (11870, 11903), (11930, 11930), (12020, 12031), (12246, 12271), (12288, 12288),
    (12352, 12352), (12439, 12440), (12544, 12548), (12592, 12592), (12687, 12687), (12774, 12782),
    (12831, 12831), (42125, 42127), (42183, 42191), (42540, 42559), (42744, 42751), (42958, 42959),
    (42962, 42962), (42964, 42964), (42973, 42993), (43053, 43055), (43066, 43071), (43128, 43135),
    (43206, 43213), (43226, 43231), (43348, 43358), (43389, 43391), (43470, 43470), (43482, 43485),
    (43519, 43519), (43575, 43583), (43598, 43599), (43610, 43611), (43715, 43738), (43767, 43776),
    (43783, 43784), (43791, 43792), (43799, 43807), (43815, 43815), (43823, 43823), (43884, 43887),
    (44014, 44015), (44026, 44031), (55204, 55215), (55239, 55242), (55292, 55295), (57344, 63743),
    (64110, 64111), (64218, 64255), (64263, 64274), (64280, 64284), (64311, 64311), (64317, 64317),
    (64319, 64319), (64322, 64322), (64325, 64325)]"

definition non_printable5 :: "(int \<times> int) list" where
  "non_printable5 = [
    (64451, 64466), (64912, 64913), (64968, 64974), (64976, 65007), (65050, 65055), (65107, 65107),
    (65127, 65127), (65132, 65135), (65141, 65141), (65277, 65280), (65471, 65473), (65480, 65481),
    (65488, 65489), (65496, 65497), (65501, 65503), (65511, 65511), (65519, 65531), (65534, 65535),
    (65548, 65548), (65575, 65575), (65595, 65595), (65598, 65598), (65614, 65615), (65630, 65663),
    (65787, 65791), (65795, 65798), (65844, 65846), (65935, 65935), (65949, 65951), (65953, 65999),
    (66046, 66175), (66205, 66207), (66257, 66271), (66300, 66303), (66340, 66348), (66379, 66383),
    (66427, 66431), (66462, 66462), (66500, 66503), (66518, 66559), (66718, 66719), (66730, 66735),
    (66772, 66775), (66812, 66815), (66856, 66863), (66916, 66926), (66939, 66939), (66955, 66955),
    (66963, 66963), (66966, 66966), (66978, 66978), (66994, 66994), (67002, 67002), (67005, 67007),
    (67060, 67071), (67383, 67391), (67414, 67423), (67432, 67455), (67462, 67462), (67505, 67505),
    (67515, 67583), (67590, 67591), (67593, 67593), (67638, 67638), (67641, 67643), (67645, 67646),
    (67670, 67670), (67743, 67750), (67760, 67807), (67827, 67827), (67830, 67834), (67868, 67870),
    (67898, 67902), (67904, 67967), (68024, 68027), (68048, 68049), (68100, 68100), (68103, 68107),
    (68116, 68116), (68120, 68120), (68150, 68151), (68155, 68158)]"

definition non_printable6 :: "(int \<times> int) list" where
  "non_printable6 = [
    (68169, 68175), (68185, 68191), (68256, 68287), (68327, 68330), (68343, 68351), (68406, 68408),
    (68438, 68439), (68467, 68471), (68498, 68504), (68509, 68520), (68528, 68607), (68681, 68735),
    (68787, 68799), (68851, 68857), (68904, 68911), (68922, 68927), (68966, 68968), (68998, 69005),
    (69008, 69215), (69247, 69247), (69290, 69290), (69294, 69295), (69298, 69313), (69317, 69371),
    (69416, 69423), (69466, 69487), (69514, 69551), (69580, 69599), (69623, 69631), (69710, 69713),
    (69750, 69758), (69821, 69821), (69827, 69839), (69865, 69871), (69882, 69887), (69941, 69941),
    (69960, 69967), (70007, 70015), (70112, 70112), (70133, 70143), (70162, 70162), (70210, 70271),
    (70279, 70279), (70281, 70281), (70286, 70286), (70302, 70302), (70314, 70319), (70379, 70383),
    (70394, 70399), (70404, 70404), (70413, 70414), (70417, 70418), (70441, 70441), (70449, 70449),
    (70452, 70452), (70458, 70458), (70469, 70470), (70473, 70474), (70478, 70479), (70481, 70486),
    (70488, 70492), (70500, 70501), (70509, 70511), (70517, 70527), (70538, 70538), (70540, 70541),
    (70543, 70543), (70582, 70582), (70593, 70593), (70595, 70596), (70598, 70598), (70603, 70603),
    (70614, 70614), (70617, 70624), (70627, 70655), (70748, 70748), (70754, 70783), (70856, 70863),
    (70874, 71039), (71094, 71095), (71134, 71167), (71237, 71247)]"

definition non_printable7 :: "(int \<times> int) list" where
  "non_printable7 = [
    (71258, 71263), (71277, 71295), (71354, 71359), (71370, 71375), (71396, 71423), (71451, 71452),
    (71468, 71471), (71495, 71679), (71740, 71839), (71923, 71934), (71943, 71944), (71946, 71947),
    (71956, 71956), (71959, 71959), (71990, 71990), (71993, 71994), (72007, 72015), (72026, 72095),
    (72104, 72105), (72152, 72153), (72165, 72191), (72264, 72271), (72355, 72367), (72441, 72447),
    (72458, 72639), (72674, 72687), (72698, 72703), (72713, 72713), (72759, 72759), (72774, 72783),
    (72813, 72815), (72848, 72849), (72872, 72872), (72887, 72959), (72967, 72967), (72970, 72970),
    (73015, 73017), (73019, 73019), (73022, 73022), (73032, 73039), (73050, 73055), (73062, 73062),
    (73065, 73065), (73103, 73103), (73106, 73106), (73113, 73119), (73130, 73439), (73465, 73471),
    (73489, 73489), (73531, 73533), (73563, 73647), (73649, 73663), (73714, 73726), (74650, 74751),
    (74863, 74863), (74869, 74879), (75076, 77711), (77811, 77823), (78896, 78911), (78934, 78943),
    (82939, 82943), (83527, 90367), (90426, 92159), (92729, 92735), (92767, 92767), (92778, 92781),
    (92863, 92863), (92874, 92879), (92910, 92911), (92918, 92927), (92998, 93007), (93018, 93018),
    (93026, 93026), (93048, 93052), (93072, 93503), (93562, 93759), (93851, 93951), (94027, 94030),
    (94088, 94094), (94112, 94175), (94181, 94191), (94194, 94207)]"

definition non_printable8 :: "(int \<times> int) list" where
  "non_printable8 = [
    (100344, 100351), (101590, 101630), (101641, 110575), (110580, 110580), (110588, 110588),
    (110591, 110591), (110883, 110897), (110899, 110927), (110931, 110932), (110934, 110947),
    (110952, 110959), (111356, 113663), (113771, 113775), (113789, 113791), (113801, 113807),
    (113818, 113819), (113824, 117759), (118010, 118015), (118452, 118527), (118574, 118575),
    (118599, 118607), (118724, 118783), (119030, 119039), (119079, 119080), (119155, 119162),
    (119275, 119295), (119366, 119487), (119508, 119519), (119540, 119551), (119639, 119647),
    (119673, 119807), (119893, 119893), (119965, 119965), (119968, 119969), (119971, 119972),
    (119975, 119976), (119981, 119981), (119994, 119994), (119996, 119996), (120004, 120004),
    (120070, 120070), (120075, 120076), (120085, 120085), (120093, 120093), (120122, 120122),
    (120127, 120127), (120133, 120133), (120135, 120137), (120145, 120145), (120486, 120487),
    (120780, 120781), (121484, 121498), (121504, 121504), (121520, 122623), (122655, 122660),
    (122667, 122879), (122887, 122887), (122905, 122906), (122914, 122914), (122917, 122917),
    (122923, 122927), (122990, 123022), (123024, 123135), (123181, 123183), (123198, 123199),
    (123210, 123213), (123216, 123535), (123567, 123583), (123642, 123646), (123648, 124111),
    (124154, 124367), (124411, 124414), (124416, 124895), (124903, 124903), (124908, 124908),
    (124911, 124911), (124927, 124927), (125125, 125126), (125143, 125183), (125260, 125263),
    (125274, 125277), (125280, 126064)]"

definition non_printable9 :: "(int \<times> int) list" where
  "non_printable9 = [
    (126133, 126208), (126270, 126463), (126468, 126468), (126496, 126496), (126499, 126499),
    (126501, 126502), (126504, 126504), (126515, 126515), (126520, 126520), (126522, 126522),
    (126524, 126529), (126531, 126534), (126536, 126536), (126538, 126538), (126540, 126540),
    (126544, 126544), (126547, 126547), (126549, 126550), (126552, 126552), (126554, 126554),
    (126556, 126556), (126558, 126558), (126560, 126560), (126563, 126563), (126565, 126566),
    (126571, 126571), (126579, 126579), (126584, 126584), (126589, 126589), (126591, 126591),
    (126602, 126602), (126620, 126624), (126628, 126628), (126634, 126634), (126652, 126703),
    (126706, 126975), (127020, 127023), (127124, 127135), (127151, 127152), (127168, 127168),
    (127184, 127184), (127222, 127231), (127406, 127461), (127491, 127503), (127548, 127551),
    (127561, 127567), (127570, 127583), (127590, 127743), (128728, 128731), (128749, 128751),
    (128765, 128767), (128887, 128890), (128986, 128991), (129004, 129007), (129009, 129023),
    (129036, 129039), (129096, 129103), (129114, 129119), (129160, 129167), (129198, 129199),
    (129212, 129215), (129218, 129279), (129620, 129631), (129646, 129647), (129661, 129663),
    (129674, 129678), (129735, 129741), (129757, 129758), (129770, 129775), (129785, 129791),
    (129939, 129939), (130042, 131071), (173792, 173823), (177978, 177983), (178206, 178207),
    (183970, 183983), (191457, 191471), (192094, 194559), (195102, 196607), (201547, 201551),
    (205744, 917759), (918000, 1114111)]"

definition NON_PRINTABLE :: "(int \<times> int) list" where
  "NON_PRINTABLE = non_printable1 @ non_printable2 @ non_printable3 @ non_printable4 @ non_printable5 @ non_printable6 @ non_printable7 @ non_printable8 @ non_printable9"

text \<open>
  \<open>slice::binary_search_by\<close>: the element found, if any, by halving the slice with the comparator's answer.
\<close>

function binary_search_by :: "('a \<Rightarrow> ordering) \<Rightarrow> 'a list \<Rightarrow> 'a option" where
  "binary_search_by f xs =
     (if xs = [] then None
      else let m = length xs div 2 in
        case f (xs ! m) of
          Equal \<Rightarrow> Some (xs ! m)
        | Less \<Rightarrow> binary_search_by f (drop (Suc m) xs)
        | Greater \<Rightarrow> binary_search_by f (take m xs))"
  by pat_completeness auto
termination by (relation "measure (\<lambda>(_, xs). length xs)") auto

declare binary_search_by.simps [simp del]

definition is_printable :: "int \<Rightarrow> bool" where
  "is_printable code =
     (binary_search_by (\<lambda>(lo, hi). if hi < code then Less else if lo > code then Greater else Equal)
        NON_PRINTABLE = None)"

definition push_escape :: "int \<Rightarrow> string" where
  "push_escape c =
     (if c = 92 then [CHR 92, CHR 92]
      else if c = 9 then [CHR 92, CHR ''t'']
      else if c = 10 then [CHR 92, CHR ''n'']
      else if c = 13 then [CHR 92, CHR ''r'']
      else if c < 256 then CHR 92 # CHR ''x'' # hex_pad 2 c
      else if c < 65536 then CHR 92 # CHR ''u'' # hex_pad 4 c
      else CHR 92 # CHR ''U'' # hex_pad 8 c)"

definition printable :: "string \<Rightarrow> string" where
  "printable s = concat (map (\<lambda>c. if is_printable c then utf8 c else push_escape c) (chars_of s))"

definition repr_str :: "string \<Rightarrow> string" where
  "repr_str s =
     (let quote = (if 39 \<in> set (chars_of s) \<and> 34 \<notin> set (chars_of s) then 34 else 39)
      in utf8 quote
         @ concat (map (\<lambda>c. if c = quote then CHR 92 # utf8 c
             else if c \<noteq> 92 \<and> is_printable c then utf8 c
             else push_escape c) (chars_of s))
         @ utf8 quote)"

definition is_py_space :: "int \<Rightarrow> bool" where
  "is_py_space c =
     (9 \<le> c \<and> c \<le> 13 \<or> 28 \<le> c \<and> c \<le> 32 \<or> c = 133 \<or> c = 160 \<or> c = 5760 \<or> 8192 \<le> c \<and> c \<le> 8202
      \<or> c = 8232 \<or> c = 8233 \<or> c = 8239 \<or> c = 8287 \<or> c = 12288)"

definition py_strip :: "string \<Rightarrow> string" where
  "py_strip s = of_chars (rev (dropWhile is_py_space (rev (dropWhile is_py_space (chars_of s)))))"

section \<open>Sums\<close>

definition fsum_step :: "f64 \<times> f64 \<Rightarrow> f64 \<Rightarrow> f64 \<times> f64" where
  "fsum_step acc x = (case acc of (hi, lo) \<Rightarrow>
     let t = f_add hi x in
     (t, if f_le (f_abs x) (f_abs hi) then f_add lo (f_add (f_sub hi t) x)
         else f_add lo (f_add (f_sub x t) hi)))"

definition py_fsum :: "f64 list \<Rightarrow> f64" where
  "py_fsum xs = (case foldl fsum_step (f_zero, f_zero) xs of (hi, lo) \<Rightarrow>
     if \<not> f_eq lo f_zero \<and> is_finite lo then f_add hi lo else hi)"

section \<open>Numbers as text\<close>

text \<open>
  \<open>format!("{x:.n}")\<close> of a finite value: the exact value rounded half to even at \<open>n\<close> decimals.
\<close>

definition zeros :: "nat \<Rightarrow> string" where
  "zeros n = replicate n (CHR ''0'')"

definition pad_left :: "nat \<Rightarrow> string \<Rightarrow> string" where
  "pad_left n s = zeros (n - length s) @ s"

definition sign_text :: "f64 \<Rightarrow> string" where
  "sign_text x = (if f_neg x then ''-'' else [])"

definition fixed_text :: "f64 \<Rightarrow> nat \<Rightarrow> string" where
  "fixed_text x n =
     (let k = rne (f_num x * 10 ^ n) (f_den x) in
      sign_text x @ dec_digits (k div 10 ^ n)
      @ (if n = 0 then [] else CHR ''.'' # pad_left n (dec_digits (k mod 10 ^ n))))"

text \<open>
  The decimal exponent of the first digit of a positive value \<open>n / d\<close>, and its first \<open>len\<close> digits as an
  integer, rounded half to even (\<open>format!("{x:.(len-1)e}")\<close>).
\<close>

definition dec_exp :: "int \<Rightarrow> int \<Rightarrow> int" where
  "dec_exp n d =
     (if d \<le> n then int (length (dec_digits (n div d))) - 1
      else let k = int (length (dec_digits (d div n))) in if d = n * 10 ^ nat (k - 1) then 1 - k else - k)"

definition scaled :: "int \<Rightarrow> int \<Rightarrow> int \<Rightarrow> int \<times> int" where
  "scaled n d e = (if 0 \<le> e then (n, d * 10 ^ nat e) else (n * 10 ^ nat (- e), d))"

definition normal_digits :: "nat \<Rightarrow> int \<Rightarrow> int \<Rightarrow> int \<times> int" where
  "normal_digits len k e = (if k = 10 ^ len then (10 ^ (len - 1), e + 1) else (k, e))"

definition sci_nearest :: "nat \<Rightarrow> int \<Rightarrow> int \<Rightarrow> int \<times> int" where
  "sci_nearest len n d =
     (let e = dec_exp n d; (n', d') = scaled n d (e - int len + 1)
      in normal_digits len (rne n' d') e)"

definition dec_value :: "int \<Rightarrow> int \<Rightarrow> f64" where
  "dec_value m e = (if 0 \<le> e then lit (m * 10 ^ nat e) 1 else lit m (10 ^ nat (- e)))"

text \<open>
  The shortest digits that read back as \<open>x\<close> (positive and finite): at the first length where one of the two
  neighbouring decimals reads back, the nearest of them that does. Seventeen digits always suffice.
\<close>

definition reads_back :: "f64 \<Rightarrow> nat \<Rightarrow> int \<times> int \<Rightarrow> bool" where
  "reads_back x len p = f_eq (dec_value (fst p) (snd p - int len + 1)) x"

definition sci_other :: "nat \<Rightarrow> int \<Rightarrow> int \<Rightarrow> int \<times> int" where
  "sci_other len n d =
     (let e = dec_exp n d; (n', d') = scaled n d (e - int len + 1); q = n' div d'
      in normal_digits len (if rne n' d' = q then q + 1 else q) e)"

fun shortest_from :: "nat \<Rightarrow> nat \<Rightarrow> f64 \<Rightarrow> int \<times> int" where
  "shortest_from 0 len x = sci_nearest len (f_num x) (f_den x)"
| "shortest_from (Suc fuel) len x =
     (let p = sci_nearest len (f_num x) (f_den x); q = sci_other len (f_num x) (f_den x) in
      if reads_back x len p then p
      else if reads_back x len q then q
      else shortest_from fuel (Suc len) x)"

definition shortest_digits :: "f64 \<Rightarrow> string \<times> int" where
  "shortest_digits x =
     (if f_ord x = 0 then (''0'', 0)
      else let (k, e) = shortest_from 16 1 x
           in (trim_end (\<lambda>c. c = CHR ''0'') (dec_digits k), e))"

definition non_finite_text :: "f64 \<Rightarrow> string option" where
  "non_finite_text x =
     (if is_nan x then Some ''nan''
      else if is_inf x then Some (if f_neg x then ''-inf'' else ''inf'')
      else None)"

definition exp_suffix :: "int \<Rightarrow> string" where
  "exp_suffix e = CHR ''e'' # (if e < 0 then CHR ''-'' else CHR ''+'') # pad_left 2 (dec_digits \<bar>e\<bar>)"

definition fixed_digits :: "string \<Rightarrow> int \<Rightarrow> string" where
  "fixed_digits digits e =
     (if e < 0 then ''0.'' @ zeros (nat (- e - 1)) @ digits
      else let n = nat (e + 1) in
        if n < length digits then take n digits @ CHR ''.'' # drop n digits
        else digits @ zeros (n - length digits) @ ''.0'')"

definition sci_digits :: "string \<Rightarrow> int \<Rightarrow> string" where
  "sci_digits digits e =
     (if 1 < length digits then take 1 digits @ CHR ''.'' # drop 1 digits else digits) @ exp_suffix e"

definition float_repr :: "f64 \<Rightarrow> string" where
  "float_repr x = (case non_finite_text x of Some t \<Rightarrow> t
     | None \<Rightarrow> let (digits, e) = shortest_digits (f_abs x)
        in sign_text x @ (if -4 \<le> e \<and> e < 16 then fixed_digits digits e else sci_digits digits e))"

definition strip_zeros :: "string \<Rightarrow> string" where
  "strip_zeros t =
     (if CHR ''.'' \<notin> set t then t
      else trim_end (\<lambda>c. c = CHR ''.'') (trim_end (\<lambda>c. c = CHR ''0'') t))"

definition fmt_g :: "f64 \<Rightarrow> string" where
  "fmt_g x = (case non_finite_text x of Some t \<Rightarrow> t
     | None \<Rightarrow>
        let (k, e) = (if f_ord x = 0 then (0, 0) else sci_nearest 6 (f_num x) (f_den x)) in
        if -4 \<le> e \<and> e < 6 then strip_zeros (fixed_text x (nat (5 - e)))
        else let d = pad_left 6 (dec_digits k)
             in strip_zeros (sign_text x @ take 1 d @ CHR ''.'' # drop 1 d) @ exp_suffix e)"

definition fmt_fixed :: "f64 \<Rightarrow> nat \<Rightarrow> string" where
  "fmt_fixed x decimals = (case non_finite_text x of Some t \<Rightarrow> t | None \<Rightarrow> fixed_text x decimals)"

text \<open>
  Rounding to \<open>n\<close> decimals, or to a power of ten: the decimal rounded half to even, then read back.
\<close>

definition with_sign :: "bool \<Rightarrow> f64 \<Rightarrow> f64" where
  "with_sign s x = F64 s (f_exp x) (f_frac x)"

definition round_to_power_of_ten :: "f64 \<Rightarrow> nat \<Rightarrow> f64" where
  "round_to_power_of_ten x k =
     (let int_part = dec_digits (f_num x div f_den x) in
      if length int_part < k then with_sign (f_neg x) f_zero
      else with_sign (f_neg x) (lit (rne (f_num x) (f_den x * 10 ^ k) * 10 ^ k) 1))"

definition round_half_even :: "f64 \<Rightarrow> int \<Rightarrow> f64" where
  "round_half_even x ndigits =
     (if \<not> is_finite x then x
      else if 0 \<le> ndigits then
        if 1100 \<le> ndigits then x
        else with_sign (f_neg x) (lit (rne (f_num x * 10 ^ nat ndigits) (f_den x)) (10 ^ nat ndigits))
      else round_to_power_of_ten x (nat (- ndigits)))"

section \<open>Numbers from text\<close>

definition underscores_ok :: "string \<Rightarrow> bool" where
  "underscores_ok t =
     list_all (\<lambda>i. t ! i \<noteq> CHR ''_'' \<or>
         (0 < i \<and> is_digit (t ! (i - 1)) \<and> Suc i < length t \<and> is_digit (t ! Suc i)))
       [0 ..< length t]"

definition span_digits :: "string \<Rightarrow> string \<times> string" where
  "span_digits s = (takeWhile is_digit s, dropWhile is_digit s)"

definition parse_sign :: "string \<Rightarrow> bool \<times> string" where
  "parse_sign s = (case s of
     c # r \<Rightarrow> (if c = CHR ''-'' then (True, r) else if c = CHR ''+'' then (False, r) else (False, s))
   | [] \<Rightarrow> (False, []))"

definition parse_exp :: "string \<Rightarrow> int option" where
  "parse_exp s = (case s of
     [] \<Rightarrow> Some 0
   | c # r \<Rightarrow>
       (if c = CHR ''e'' \<or> c = CHR ''E'' then
          let (neg, ds) = parse_sign r
          in if all_digits ds then Some (if neg then - digits_value ds else digits_value ds) else None
        else None))"

text \<open>\<open>str::parse::<f64>\<close>: an optional sign, then \<open>inf\<close>, \<open>infinity\<close>, \<open>nan\<close> or a decimal number.\<close>

definition parse_f64 :: "string \<Rightarrow> f64 option" where
  "parse_f64 s =
     (let (neg, r) = parse_sign s; lower = map ascii_lower r in
      if lower = ''inf'' \<or> lower = ''infinity'' then Some (with_sign neg f_inf)
      else if lower = ''nan'' then Some (with_sign neg f_nan)
      else
        let (ip, r1) = span_digits r;
            (fp, r2) = (case r1 of c # r' \<Rightarrow> if c = CHR ''.'' then span_digits r' else ([], r1) | [] \<Rightarrow> ([], []))
        in if ip = [] \<and> fp = [] then None
           else map_option (\<lambda>e. with_sign neg (dec_value (digits_value (ip @ fp)) (e - int (length fp))))
             (parse_exp r2))"

definition py_float :: "string \<Rightarrow> f64 option" where
  "py_float text =
     (let body = py_strip text in
      if underscores_ok body then parse_f64 (filter (\<lambda>c. c \<noteq> CHR ''_'') body) else None)"

definition parse_i64 :: "string \<Rightarrow> int option" where
  "parse_i64 s =
     (let (neg, ds) = parse_sign s in
      if all_digits ds then chk_i64 (if neg then - digits_value ds else digits_value ds) else None)"

definition py_int :: "string \<Rightarrow> int option" where
  "py_int text =
     (let body = py_strip text in
      if underscores_ok body then parse_i64 (filter (\<lambda>c. c \<noteq> CHR ''_'') body) else None)"

section \<open>JSON output\<close>

datatype pyjson =
    PNull
  | PBool bool
  | PInt int
  | PFloat f64
  | PStr string
  | PList "pyjson list"
  | PObject "(string \<times> pyjson) list"

definition json_float :: "f64 \<Rightarrow> string" where
  "json_float f =
     (if is_nan f then ''NaN''
      else if is_inf f then (if f_neg f then ''-Infinity'' else ''Infinity'')
      else float_repr f)"

definition utf16 :: "int \<Rightarrow> int list" where
  "utf16 c = (if c < 65536 then [c] else [55296 + (c - 65536) div 1024, 56320 + (c - 65536) mod 1024])"

definition json_char :: "int \<Rightarrow> string" where
  "json_char c =
     (if c = 34 then [CHR 92, CHR 34]
      else if c = 92 then [CHR 92, CHR 92]
      else if c = 10 then [CHR 92, CHR ''n'']
      else if c = 13 then [CHR 92, CHR ''r'']
      else if c = 9 then [CHR 92, CHR ''t'']
      else if c = 8 then [CHR 92, CHR ''b'']
      else if c = 12 then [CHR 92, CHR ''f'']
      else if 32 \<le> c \<and> c \<le> 126 then utf8 c
      else concat (map (\<lambda>u. CHR 92 # CHR ''u'' # hex_pad 4 u) (utf16 c)))"

definition write_json_str :: "string \<Rightarrow> string" where
  "write_json_str s = CHR 34 # concat (map json_char (chars_of s)) @ [CHR 34]"

definition indent :: "nat \<Rightarrow> string" where
  "indent depth = CHR 10 # replicate (2 * depth) (CHR 32)"

definition json_block :: "nat \<Rightarrow> char \<Rightarrow> char \<Rightarrow> string list \<Rightarrow> string" where
  "json_block depth open close parts =
     (if parts = [] then [open, close]
      else open # indent (Suc depth) @ join (CHR '','' # indent (Suc depth)) parts @ indent depth @ [close])"

fun write_json :: "pyjson \<Rightarrow> nat \<Rightarrow> string" where
  "write_json PNull depth = ''null''"
| "write_json (PBool b) depth = (if b then ''true'' else ''false'')"
| "write_json (PInt i) depth = show_int i"
| "write_json (PFloat f) depth = json_float f"
| "write_json (PStr s) depth = write_json_str s"
| "write_json (PList items) depth =
     json_block depth (CHR ''['') (CHR '']'') (map (\<lambda>v. write_json v (Suc depth)) items)"
| "write_json (PObject members) depth =
     json_block depth (CHR ''{'') (CHR ''}'')
       (map (\<lambda>(k, v). write_json_str k @ '': '' @ write_json v (Suc depth)) members)"

definition json_dumps_indent2 :: "pyjson \<Rightarrow> string" where
  "json_dumps_indent2 v = write_json v 0"

section \<open>Decoding inverts encoding\<close>

lemma byte_char_of [simp]: "0 \<le> n \<Longrightarrow> n < 256 \<Longrightarrow> byte (char_of (nat n)) = n"
  by (simp add: byte_def)

lemma chars_of_1: "byte a = x \<Longrightarrow> x < 128 \<Longrightarrow> chars_of (a # s) = x # chars_of s"
  by simp

lemma chars_of_2:
  "byte a = 192 + x \<Longrightarrow> 0 \<le> x \<Longrightarrow> x < 32 \<Longrightarrow> byte b = 128 + y \<Longrightarrow>
     chars_of (a # b # s) = (x * 64 + y) # chars_of s"
  by simp

lemma chars_of_3:
  "byte a = 224 + x \<Longrightarrow> 0 \<le> x \<Longrightarrow> x < 16 \<Longrightarrow> byte b = 128 + y \<Longrightarrow> byte c = 128 + z \<Longrightarrow>
     chars_of (a # b # c # s) = ((x * 64 + y) * 64 + z) # chars_of s"
  by simp

lemma chars_of_4:
  "byte a = 240 + x \<Longrightarrow> 0 \<le> x \<Longrightarrow> byte b = 128 + y \<Longrightarrow> byte c = 128 + z \<Longrightarrow> byte d = 128 + w \<Longrightarrow>
     chars_of (a # b # c # d # s) = (((x * 64 + y) * 64 + z) * 64 + w) # chars_of s"
  by simp

lemma chars_of_utf8:
  assumes "is_scalar c"
  shows "chars_of (utf8 c @ s) = c # chars_of s"
proof -
  have c: "0 \<le> c" "c < 1114112" using assms by (auto simp: is_scalar_def)
  have q: "c div 4096 = c div 64 div 64" "c div 262144 = c div 4096 div 64"
    using zdiv_zmult2_eq [of 64 c 64] zdiv_zmult2_eq [of 64 c 4096] by simp_all
  have e1: "c div 64 * 64 + c mod 64 = c" by simp
  have e2: "c div 4096 * 64 + c div 64 mod 64 = c div 64" by (simp add: q)
  have e3: "c div 262144 * 64 + c div 4096 mod 64 = c div 4096" using q(2) by simp
  have tail: "byte (char_of (nat (128 + n mod 64))) = 128 + n mod 64" for n :: int
    by (rule byte_char_of) (use pos_mod_bound [of 64 n] pos_mod_sign [of 64 n] in linarith)+
  consider "c < 128" | "128 \<le> c" "c < 2048" | "2048 \<le> c" "c < 65536" | "65536 \<le> c" by linarith
  then show ?thesis
  proof cases
    case 1
    then have "byte (char_of (nat c)) = c" using c by simp
    from chars_of_1 [OF this 1] 1 show ?thesis by (simp add: utf8_def Let_def del: chars_of.simps)
  next
    case 2
    then have b: "2 \<le> c div 64" "c div 64 < 32" by linarith+
    then have "byte (char_of (nat (192 + c div 64))) = 192 + c div 64" by (intro byte_char_of) linarith+
    from chars_of_2 [OF this _ b(2) tail, of c s, unfolded e1] b 2 show ?thesis by (simp add: utf8_def Let_def del: chars_of.simps)
  next
    case 3
    then have b: "0 \<le> c div 4096" "c div 4096 < 16" by linarith+
    then have "byte (char_of (nat (224 + c div 4096))) = 224 + c div 4096" by (intro byte_char_of) linarith+
    from chars_of_3 [OF this b tail tail, of "c div 64" c s, unfolded e2 e1] 3 show ?thesis by (simp add: utf8_def Let_def del: chars_of.simps)
  next
    case 4
    then have b: "0 \<le> c div 262144" "c div 262144 < 8" using c by linarith+
    then have "byte (char_of (nat (240 + c div 262144))) = 240 + c div 262144" by (intro byte_char_of) linarith+
    from chars_of_4 [OF this b(1) tail tail tail, of "c div 4096" "c div 64" c s, unfolded e3 e2 e1] 4 show ?thesis by (simp add: utf8_def Let_def del: chars_of.simps)
  qed
qed

lemma chars_of_of_chars: "list_all is_scalar cs \<Longrightarrow> chars_of (of_chars cs @ s) = cs @ chars_of s"
  by (induction cs) (simp_all add: of_chars_def chars_of_utf8)

lemma chars_of_ascii: "list_all (\<lambda>c. byte c < 128) t \<Longrightarrow> chars_of (t @ s) = map byte t @ chars_of s"
  by (induction t) auto

section \<open>The table and its search\<close>

text \<open>Ranges in increasing order, each below the next.\<close>

fun ranges_sorted :: "(int \<times> int) list \<Rightarrow> bool" where
  "ranges_sorted [] = True"
| "ranges_sorted [(lo, hi)] = (lo \<le> hi)"
| "ranges_sorted ((lo, hi) # (lo', hi') # rs) = (lo \<le> hi \<and> hi < lo' \<and> ranges_sorted ((lo', hi') # rs))"

lemma ranges_sorted_Cons:
  "ranges_sorted ((lo, hi) # rs) \<Longrightarrow> lo \<le> hi \<and> ranges_sorted rs \<and> (\<forall>(lo', hi') \<in> set rs. hi < lo' \<and> lo' \<le> hi')"
proof (induction rs arbitrary: lo hi)
  case Nil
  then show ?case by simp
next
  case (Cons r rs)
  obtain lo' hi' where r: "r = (lo', hi')" by force
  have "lo' \<le> hi' \<and> (\<forall>(a, b) \<in> set rs. hi' < a \<and> a \<le> b)" using Cons.IH [of lo' hi'] Cons.prems r by simp
  then show ?case using Cons.prems r by fastforce
qed

lemma ranges_sorted_wrt:
  "ranges_sorted rs \<Longrightarrow> sorted_wrt (\<lambda>a b. snd a < fst b) rs \<and> (\<forall>r \<in> set rs. fst r \<le> snd r)"
proof (induction rs)
  case (Cons r rs)
  then show ?case using ranges_sorted_Cons [of "fst r" "snd r" rs] by fastforce
qed simp

text \<open>A comparator that is monotone along the slice makes the search complete.\<close>

lemma binary_search_by_None_iff:
  "sorted_wrt (\<lambda>a b. (f a = Greater \<longrightarrow> f b = Greater) \<and> (f b = Less \<longrightarrow> f a = Less)) xs \<Longrightarrow>
     binary_search_by f xs = None \<longleftrightarrow> (\<forall>x \<in> set xs. f x \<noteq> Equal)"
proof (induction f xs rule: binary_search_by.induct)
  case (1 f xs)
  show ?case
  proof (cases "xs = []")
    case True
    then show ?thesis by (simp add: binary_search_by.simps)
  next
    case False
    define m where "m = length xs div 2"
    have m: "m < length xs" using False by (simp add: m_def div_less_dividend)
    have split: "xs = take m xs @ xs ! m # drop (Suc m) xs" using m by (rule id_take_nth_drop)
    let ?P = "\<lambda>a b. (f a = Greater \<longrightarrow> f b = Greater) \<and> (f b = Less \<longrightarrow> f a = Less)"
    have "sorted_wrt ?P (take m xs @ xs ! m # drop (Suc m) xs)" using 1(3) split by simp
    then have st: "sorted_wrt ?P (take m xs)" "sorted_wrt ?P (drop (Suc m) xs)"
      and lt: "\<forall>a \<in> set (take m xs). ?P a (xs ! m)" and gt: "\<forall>b \<in> set (drop (Suc m) xs). ?P (xs ! m) b"
      by (auto simp: sorted_wrt_append)
    have set: "set xs = set (take m xs) \<union> {xs ! m} \<union> set (drop (Suc m) xs)"
      by (subst split) auto
    show ?thesis
    proof (cases "f (xs ! m)")
      case Equal
      then show ?thesis using False m by (auto simp: binary_search_by.simps [of f xs] m_def [symmetric] Let_def)
    next
      case Less
      then have "\<forall>a \<in> set (take m xs). f a = Less" using lt by auto
      then show ?thesis
        using 1(1) [OF False m_def] Less st False set
        by (auto simp: binary_search_by.simps [of f xs] m_def [symmetric] Let_def)
    next
      case Greater
      then have "\<forall>a \<in> set (drop (Suc m) xs). f a = Greater" using gt by auto
      then show ?thesis
        using 1(2) [OF False m_def] Greater st False set
        by (auto simp: binary_search_by.simps [of f xs] m_def [symmetric] Let_def)
    qed
  qed
qed

lemmas NON_PRINTABLE_rows = NON_PRINTABLE_def non_printable1_def non_printable2_def non_printable3_def
  non_printable4_def non_printable5_def non_printable6_def non_printable7_def non_printable8_def
  non_printable9_def append.simps

lemma NON_PRINTABLE_sorted: "ranges_sorted NON_PRINTABLE"
  unfolding NON_PRINTABLE_rows by simp

lemma is_printable_iff: "is_printable c \<longleftrightarrow> (\<forall>(lo, hi) \<in> set NON_PRINTABLE. \<not> (lo \<le> c \<and> c \<le> hi))"
proof -
  let ?f = "\<lambda>(lo, hi). if hi < c then Less else if lo > c then Greater else Equal"
  have s: "sorted_wrt (\<lambda>a b. snd a < fst b) NON_PRINTABLE" "\<forall>r \<in> set NON_PRINTABLE. fst r \<le> snd r"
    using ranges_sorted_wrt [OF NON_PRINTABLE_sorted] by auto
  have "sorted_wrt (\<lambda>a b. (?f a = Greater \<longrightarrow> ?f b = Greater) \<and> (?f b = Less \<longrightarrow> ?f a = Less)) NON_PRINTABLE"
  proof (rule sorted_wrt_mono_rel [OF _ s(1)])
    fix x y assume "x \<in> set NON_PRINTABLE" "y \<in> set NON_PRINTABLE" "snd x < fst y"
    then have "fst x \<le> snd x" "snd x < fst y" "fst y \<le> snd y" using s(2) by auto
    then show "(?f x = Greater \<longrightarrow> ?f y = Greater) \<and> (?f y = Less \<longrightarrow> ?f x = Less)"
      by (simp add: case_prod_beta)
  qed
  from binary_search_by_None_iff [OF this] show ?thesis
    by (fastforce simp: is_printable_def split: if_splits)
qed

lemma ascii_ranges: "list_all (\<lambda>(lo, hi). hi < 32 \<or> 126 < lo) NON_PRINTABLE"
  unfolding NON_PRINTABLE_rows list.pred_inject prod.case by simp

lemma is_printable_ascii: "32 \<le> c \<Longrightarrow> c \<le> 126 \<Longrightarrow> is_printable c"
  using ascii_ranges by (fastforce simp: is_printable_iff list_all_iff)

section \<open>Escapes are plain ASCII\<close>

text \<open>Printable ASCII, the alphabet of every escape.\<close>

definition plain :: "char \<Rightarrow> bool" where
  "plain c = (32 \<le> byte c \<and> byte c \<le> 126)"

lemma plain_hex_digit: "0 \<le> d \<Longrightarrow> d < 16 \<Longrightarrow> plain (hex_digit d)"
  by (simp add: plain_def hex_digit_def)

lemma plain_hex_pad: "list_all plain (hex_pad w n)"
  by (induction w arbitrary: n) (simp_all add: plain_hex_digit)

lemma plain_push_escape: "list_all plain (push_escape c)"
  by (simp add: push_escape_def plain_hex_pad) (simp add: plain_def byte_def)

lemma chars_of_plain: "list_all plain t \<Longrightarrow> chars_of (t @ s) = map byte t @ chars_of s"
  by (rule chars_of_ascii) (auto simp: plain_def list_all_iff)

lemma plain_printable: "list_all plain t \<Longrightarrow> list_all is_printable (map byte t)"
  by (auto simp: list_all_iff plain_def is_printable_ascii)

lemma chars_of_printable_chars:
  "list_all is_scalar cs \<Longrightarrow>
     list_all is_printable (chars_of (concat (map (\<lambda>c. if is_printable c then utf8 c else push_escape c) cs)))"
  by (induction cs) (auto simp: chars_of_utf8 chars_of_plain [OF plain_push_escape] plain_printable [OF plain_push_escape])

lemma printable_id: "list_all is_printable (chars_of s) \<Longrightarrow> printable s = of_chars (chars_of s)"
  unfolding printable_def of_chars_def by (rule arg_cong [of _ _ concat]) (simp add: list_all_iff)

lemma plain_dec_digits: "0 \<le> n \<Longrightarrow> list_all plain (dec_digits n)"
  using all_digits_dec [of n] by (auto simp: all_digits_def list_all_iff is_digit_def plain_def byte_def)

lemma plain_show_int: "list_all plain (show_int n)"
  by (simp add: show_int_def plain_dec_digits) (simp add: plain_def byte_def)

lemma plain_utf8: "32 \<le> c \<Longrightarrow> c \<le> 126 \<Longrightarrow> list_all plain (utf8 c)"
  by (simp add: utf8_def plain_def)

lemma plain_json_char: "list_all plain (json_char c)"
  by (simp add: json_char_def plain_utf8 list_all_iff [of _ "concat _"] plain_hex_pad [unfolded list_all_iff])
    (simp add: plain_def byte_def)


lemma plain_zeros: "list_all plain (zeros n)"
  by (simp add: zeros_def list_all_iff plain_def byte_def)

lemma plain_trim_end: "list_all plain s \<Longrightarrow> list_all plain (trim_end P s)"
  by (auto simp: trim_end_def list_all_iff dest: set_dropWhileD)

lemma plain_pad_left: "list_all plain s \<Longrightarrow> list_all plain (pad_left n s)"
  by (simp add: pad_left_def plain_zeros)

lemma plain_take_drop: "list_all plain s \<Longrightarrow> list_all plain (take n s) \<and> list_all plain (drop n s)"
  by (auto simp: list_all_iff dest: in_set_takeD in_set_dropD)

lemma rne_nonneg: "0 \<le> n \<Longrightarrow> 0 < d \<Longrightarrow> 0 \<le> rne n d"
  by (simp add: rne_def Let_def pos_imp_zdiv_nonneg_iff)

lemma scaled_nonneg: "0 \<le> n \<Longrightarrow> 0 < d \<Longrightarrow> scaled n d e = (n', d') \<Longrightarrow> 0 \<le> n' \<and> 0 < d'"
  by (auto simp: scaled_def split: if_splits)

lemma sci_nonneg:
  assumes "0 \<le> n" "0 < d"
  shows "0 \<le> fst (sci_nearest len n d)" "0 \<le> fst (sci_other len n d)"
  using scaled_nonneg [OF assms, of "dec_exp n d - int len + 1"]
  by (auto simp: sci_nearest_def sci_other_def normal_digits_def Let_def rne_nonneg pos_imp_zdiv_nonneg_iff
      split: prod.splits)

lemma f_num_den: "0 \<le> f_num x" "0 < f_den x"
  using f_mant_bounds [of x] by (simp_all add: f_num_def f_den_def)

lemma shortest_from_nonneg: "0 \<le> fst (shortest_from fuel len x)"
  by (induction fuel arbitrary: len) (simp_all add: sci_nonneg f_num_den Let_def)

lemma plain_shortest_digits: "list_all plain (fst (shortest_digits x))"
proof (cases "f_ord x = 0")
  case True
  then show ?thesis by (simp add: shortest_digits_def plain_def byte_def)
next
  case False
  then show ?thesis using shortest_from_nonneg [of 16 1 x]
    by (auto simp: shortest_digits_def plain_trim_end plain_dec_digits split: prod.splits)
qed

lemma plain_exp_suffix: "list_all plain (exp_suffix e)"
  by (simp add: exp_suffix_def plain_pad_left plain_dec_digits) (simp add: plain_def byte_def)

lemma plain_float_repr: "list_all plain (float_repr x)"
proof (cases "non_finite_text x")
  case None
  obtain ds e where d: "shortest_digits (f_abs x) = (ds, e)" by force
  then have "list_all plain ds" using plain_shortest_digits [of "f_abs x"] by simp
  then have "list_all plain (fixed_digits ds e)" "list_all plain (sci_digits ds e)"
    by (simp_all add: fixed_digits_def sci_digits_def Let_def plain_zeros plain_take_drop plain_exp_suffix)
      (simp_all add: plain_def byte_def)
  moreover have "list_all plain (sign_text x)" by (simp add: sign_text_def plain_def byte_def)
  ultimately show ?thesis using None d by (simp add: float_repr_def)
next
  case (Some t)
  then show ?thesis
    by (auto simp: float_repr_def non_finite_text_def plain_def byte_def split: if_splits)
qed

lemma plain_json_float: "list_all plain (json_float x)"
  by (simp add: json_float_def plain_float_repr) (simp add: plain_def byte_def)

lemma plain_write_json_str: "list_all plain (write_json_str s)"
  using plain_json_char by (simp add: write_json_str_def list_all_iff) (simp add: plain_def byte_def)

text \<open>The alphabet of a JSON document: printable ASCII and line feeds.\<close>

definition json_text :: "string \<Rightarrow> bool" where
  "json_text s = list_all (\<lambda>c. plain c \<or> c = CHR 10) s"

lemma json_text_plain: "list_all plain s \<Longrightarrow> json_text s"
  by (auto simp: json_text_def list_all_iff)

lemma json_text_simps [simp]:
  "json_text []" "json_text (c # s) \<longleftrightarrow> (plain c \<or> c = CHR 10) \<and> json_text s"
  "json_text (s @ t) \<longleftrightarrow> json_text s \<and> json_text t"
  by (simp_all add: json_text_def)

lemma json_text_indent: "json_text (indent n)"
  by (simp add: indent_def) (simp add: json_text_def list_all_iff plain_def byte_def)

lemma json_text_join: "json_text sep \<Longrightarrow> list_all json_text ps \<Longrightarrow> json_text (join sep ps)"
  by (induction sep ps rule: join.induct) auto

lemma json_text_block:
  "plain opening \<Longrightarrow> plain closing \<Longrightarrow> list_all json_text ps \<Longrightarrow> json_text (json_block n opening closing ps)"
  by (simp add: json_block_def json_text_indent json_text_join) (simp add: plain_def byte_def json_text_indent json_text_join)

lemma json_text_write_json: "json_text (write_json v n)"
proof (induction v n rule: write_json.induct)
  case (6 items depth)
  then show ?case by (auto intro!: json_text_block simp: list_all_iff plain_def byte_def)
next
  case (7 members depth)
  have "json_text (write_json_str k)" for k by (rule json_text_plain [OF plain_write_json_str])
  with 7 show ?case
    by (auto intro!: json_text_block simp: list_all_iff plain_def byte_def)
qed (auto intro!: json_text_plain plain_json_float plain_write_json_str plain_show_int, simp_all add: plain_def byte_def)

lemma printable_of_chars:
  "\<exists>ds. list_all is_scalar ds \<and> printable (of_chars cs) = of_chars ds" if "list_all is_scalar cs"
proof -
  let ?esc = "\<lambda>c. if is_printable c then [c] else map byte (push_escape c)"
  have b: "list_all is_scalar (map byte t) \<and> of_chars (map byte t) = t" if "list_all plain t" for t
    using that by (induction t) (auto simp: plain_def is_scalar_def of_chars_def utf8_def byte_def)
  have "chars_of (of_chars cs) = cs" using chars_of_of_chars [OF that, of "[]"] by simp
  moreover have "concat (map (\<lambda>c. if is_printable c then utf8 c else push_escape c) xs)
      = of_chars (concat (map ?esc xs))" for xs
    using b [OF plain_push_escape] by (induction xs) (auto simp: of_chars_def)
  ultimately have "printable (of_chars cs) = of_chars (concat (map ?esc cs))"
    by (simp add: printable_def)
  moreover have "list_all is_scalar (concat (map ?esc cs))"
    using that b [OF plain_push_escape] by (induction cs) auto
  ultimately show ?thesis by blast
qed


section \<open>Properties\<close>

text \<open>
  C33: text made printable for a terminal contains no control, invisible or unassigned character, making it
  printable again changes nothing, and text that was printable to begin with is kept as it is.
\<close>

theorem printable_is_printable:
  assumes "list_all is_scalar cs"
  shows "list_all is_printable (chars_of (printable (of_chars cs)))
    \<and> printable (printable (of_chars cs)) = printable (of_chars cs)
    \<and> (list_all is_printable cs \<longrightarrow> printable (of_chars cs) = of_chars cs)"
proof -
  have dec: "chars_of (of_chars cs) = cs" using chars_of_of_chars [OF assms, of "[]"] by simp
  then have all: "list_all is_printable (chars_of (printable (of_chars cs)))"
    using chars_of_printable_chars [OF assms] by (simp add: printable_def)
  obtain ds where ds: "list_all is_scalar ds" "printable (of_chars cs) = of_chars ds"
    using printable_of_chars [OF assms] by blast
  have "chars_of (of_chars ds) = ds" using chars_of_of_chars [OF ds(1), of "[]"] by simp
  then show ?thesis using all ds dec printable_id [of "of_chars ds"] printable_id [of "of_chars cs"] by simp
qed

theorem printable_is_printable_witness:
  "printable (printable (of_chars [104, 27, 8238])) = printable (of_chars [104, 27, 8238])"
  using printable_is_printable [of "[104, 27, 8238]"] by (simp add: is_scalar_def)

text \<open>
  C38: a JSON document written for a reader consists of printable ASCII and line feeds, whatever strings and
  numbers it holds.
\<close>

theorem json_dumps_ascii:
  "list_all (\<lambda>c. 32 \<le> byte c \<and> byte c \<le> 126 \<or> c = CHR 10) (json_dumps_indent2 v)"
  using json_text_write_json [of v 0] by (simp add: json_dumps_indent2_def json_text_def plain_def)

end
