(* ===== verification/Task.thy ===== *)
theory Task
  imports Pyfmt
begin

text \<open>
  Task lists (\<open>crates/agora-sched/src/task.rs\<close>): the task record, the documents and \<open>--task\<close> specs it is
  read from, and the checks made while reading. JSON values are those of \<open>serde_json\<close>: a number is a
  non-negative integer, a negative integer or a float, an object is a map with sorted keys.
\<close>

section \<open>JSON values\<close>

datatype json_number = PosInt int | NegInt int | NFloat f64

datatype json =
    JNull
  | JBool bool
  | JNum json_number
  | JStr string
  | JArr "json list"
  | JObj "(string \<times> json) list"

definition as_i64 :: "json_number \<Rightarrow> int option" where
  "as_i64 n = (case n of PosInt i \<Rightarrow> if i \<le> i64_max then Some i else None | NegInt i \<Rightarrow> Some i | NFloat _ \<Rightarrow> None)"

definition as_u64 :: "json_number \<Rightarrow> int option" where
  "as_u64 n = (case n of PosInt i \<Rightarrow> Some i | _ \<Rightarrow> None)"

definition as_f64 :: "json_number \<Rightarrow> f64" where
  "as_f64 n = (case n of PosInt i \<Rightarrow> f_of_int i | NegInt i \<Rightarrow> f_of_int i | NFloat x \<Rightarrow> x)"

text \<open>\<open>Map::insert\<close> on a map with sorted keys.\<close>

fun map_insert :: "string \<Rightarrow> 'v \<Rightarrow> (string \<times> 'v) list \<Rightarrow> (string \<times> 'v) list" where
  "map_insert k v [] = [(k, v)]"
| "map_insert k v ((k', v') # m) =
     (if k < k' then (k, v) # (k', v') # m
      else if k = k' then (k, v) # m
      else (k', v') # map_insert k v m)"

lemma map_of_map_insert [simp]: "sorted_wrt (\<lambda>a b. fst a < fst b) m \<Longrightarrow>
    map_of (map_insert k v m) = (map_of m)(k \<mapsto> v)"
  by (induction k v m rule: map_insert.induct) (auto simp: fun_eq_iff map_of_eq_None_iff)

section \<open>Tasks\<close>

datatype queued = QInt int | QFloat f64 | QText string

record task =
  t_index :: nat
  t_id :: string
  t_title :: string
  t_kind :: string
  t_tier :: nat
  t_queued :: "queued option"
  t_after :: "string list"
  t_size :: f64
  t_value :: f64
  t_files :: "string list"

definition VALIDITY_KINDS :: "string list" where
  "VALIDITY_KINDS = [''validity'', ''correctness'', ''safety'', ''security'', ''data-loss'', ''crash'']"

definition tier_of :: "string \<Rightarrow> nat" where
  "tier_of kind = (if map ascii_lower kind \<in> set VALIDITY_KINDS then 0 else 1)"

section \<open>Python text of a JSON value\<close>

definition number_text :: "json_number \<Rightarrow> string" where
  "number_text n = (case as_i64 n of Some i \<Rightarrow> show_int i
     | None \<Rightarrow> (case as_u64 n of Some i \<Rightarrow> show_int i | None \<Rightarrow> float_repr (as_f64 n)))"

fun py_repr :: "json \<Rightarrow> string" where
  "py_repr JNull = ''None''"
| "py_repr (JBool b) = (if b then ''True'' else ''False'')"
| "py_repr (JNum n) = number_text n"
| "py_repr (JStr t) = repr_str t"
| "py_repr (JArr items) = ''['' @ join '', '' (map py_repr items) @ '']''"
| "py_repr (JObj m) = ''{'' @ join '', '' (map (\<lambda>(k, v). repr_str k @ '': '' @ py_repr v) m) @ ''}''"

definition py_str :: "json \<Rightarrow> string" where
  "py_str v = (case v of JStr t \<Rightarrow> t | _ \<Rightarrow> py_repr v)"

section \<open>Specs\<close>

definition is_key_char :: "char \<Rightarrow> bool" where
  "is_key_char c =
     (let b = byte c in 65 \<le> b \<and> b \<le> 90 \<or> 97 \<le> b \<and> b \<le> 122 \<or> c = CHR ''_'' \<or> c = CHR ''-'')"

definition starts_field :: "string \<Rightarrow> bool" where
  "starts_field rest =
     (takeWhile is_key_char rest \<noteq> [] \<and>
      (case dropWhile is_key_char rest of c # _ \<Rightarrow> c = CHR ''='' | [] \<Rightarrow> False))"

fun split_fields :: "string \<Rightarrow> string list" where
  "split_fields [] = [[]]"
| "split_fields (c # rest) =
     (if c = CHR '','' \<and> starts_field rest then [] # split_fields rest
      else case split_fields rest of [] \<Rightarrow> [[c]] | p # ps \<Rightarrow> (c # p) # ps)"

fun spec_pairs :: "string \<Rightarrow> string list \<Rightarrow> (string \<times> string) list result" where
  "spec_pairs spec [] = Inr []"
| "spec_pairs spec (part # parts) =
     (case split_once (CHR ''='') part of
        None \<Rightarrow> Inl (''--task '' @ repr_str spec @ '': '' @ repr_str part @ '' is not key=value'')
      | Some (key, value) \<Rightarrow>
          bind_result (spec_pairs spec parts) (\<lambda>ps.
            Inr (if py_strip key = [] then ps else (py_strip key, py_strip value) # ps)))"

definition parse_spec :: "string \<Rightarrow> (string \<times> string) list result" where
  "parse_spec spec = spec_pairs spec (split_fields spec)"

type_synonym fields = "(string \<times> json) list"

definition spec_fields :: "string \<Rightarrow> fields result" where
  "spec_fields spec = bind_result (parse_spec spec) (\<lambda>ps.
     Inr (foldl (\<lambda>m (k, v). map_insert k (JStr v) m) [] ps))"

section \<open>Reading one task\<close>

definition text_queued :: "string \<Rightarrow> queued" where
  "text_queued t = (case py_float t of Some x \<Rightarrow> QFloat x | None \<Rightarrow> QText t)"

definition queued_of :: "json option \<Rightarrow> string \<Rightarrow> queued option result" where
  "queued_of raw tid = (case raw of
     None \<Rightarrow> Inr None
   | Some JNull \<Rightarrow> Inr None
   | Some (JNum n) \<Rightarrow> Inr (Some (case as_i64 n of Some i \<Rightarrow> QInt i | None \<Rightarrow> QFloat (as_f64 n)))
   | Some (JStr t) \<Rightarrow> Inr (Some (text_queued t))
   | Some _ \<Rightarrow> Inl (''task '' @ tid @ '': queued must be a number or an ISO 8601 time''))"

definition list_of :: "json option \<Rightarrow> string list result" where
  "list_of raw = (case raw of
     None \<Rightarrow> Inr []
   | Some JNull \<Rightarrow> Inr []
   | Some (JStr t) \<Rightarrow> Inr (filter (\<lambda>p. p \<noteq> []) (split_on (CHR ''+'') t))
   | Some (JArr items) \<Rightarrow> Inr (map py_str items)
   | Some v \<Rightarrow> Inl (''expected a list, not '' @ py_repr v))"

definition float_of :: "json \<Rightarrow> f64 option" where
  "float_of raw = (case raw of
     JBool b \<Rightarrow> Some (if b then lit 1 1 else f_zero)
   | JNum n \<Rightarrow> Some (as_f64 n)
   | JStr t \<Rightarrow> py_float t
   | _ \<Rightarrow> None)"

definition positive :: "json option \<Rightarrow> string \<Rightarrow> string \<Rightarrow> f64 result" where
  "positive raw name tid = (case raw of
     None \<Rightarrow> Inr (lit 1 1)
   | Some v \<Rightarrow> (case float_of v of
        None \<Rightarrow> Inl (''task '' @ tid @ '': '' @ name @ '' must be a number, not '' @ py_repr v)
      | Some x \<Rightarrow> if is_nan x \<or> f_le x f_zero
          then Inl (''task '' @ tid @ '': '' @ name @ '' must be greater than zero'') else Inr x))"

definition field_text :: "fields \<Rightarrow> string \<Rightarrow> string \<Rightarrow> string" where
  "field_text m k dflt = (case map_of m k of None \<Rightarrow> dflt | Some v \<Rightarrow> py_str v)"

definition make_task :: "fields \<Rightarrow> nat \<Rightarrow> task result" where
  "make_task m index =
     (let tid = py_strip (field_text m ''id'' []) in
      if tid = [] then Inl (''task at position '' @ show_int (int index + 1) @ '' has no id'')
      else bind_result (queued_of (map_of m ''queued'') tid) (\<lambda>queued.
        bind_result (list_of (map_of m ''after'')) (\<lambda>after.
        bind_result (positive (map_of m ''size'') ''size'' tid) (\<lambda>size.
        bind_result (positive (map_of m ''value'') ''value'' tid) (\<lambda>value.
        bind_result (list_of (map_of m ''files'')) (\<lambda>files.
          let kind = field_text m ''kind'' ''other'' in
          Inr \<lparr>t_index = index, t_id = tid, t_title = field_text m ''title'' [], t_kind = kind,
               t_tier = tier_of kind, t_queued = queued, t_after = after, t_size = size, t_value = value,
               t_files = files\<rparr>))))))"

section \<open>Reading all tasks\<close>

fun map_result :: "('a \<Rightarrow> 'e + 'b) \<Rightarrow> 'a list \<Rightarrow> 'e + 'b list" where
  "map_result f [] = Inr []"
| "map_result f (x # xs) = bind_result (f x) (\<lambda>y. bind_result (map_result f xs) (\<lambda>ys. Inr (y # ys)))"

definition document_fields :: "json \<Rightarrow> fields list result" where
  "document_fields document =
     (case (case document of JObj m \<Rightarrow> map_of m ''tasks'' | v \<Rightarrow> Some v) of
        Some (JArr items) \<Rightarrow>
          map_result (\<lambda>item. case item of JObj m \<Rightarrow> Inr m
            | _ \<Rightarrow> Inl ''each task in the JSON must be an object'') items
      | _ \<Rightarrow> Inl (''the JSON must be a list of tasks or an object with a '' @ [CHR 34] @ ''tasks'' @ [CHR 34] @ '' list''))"

definition is_text :: "task \<Rightarrow> bool" where
  "is_text t = (case t_queued t of Some (QText _) \<Rightarrow> True | _ \<Rightarrow> False)"

definition is_number :: "task \<Rightarrow> bool" where
  "is_number t = (case t_queued t of Some (QInt _) \<Rightarrow> True | Some (QFloat _) \<Rightarrow> True | _ \<Rightarrow> False)"

definition load_tasks :: "json list \<Rightarrow> string list \<Rightarrow> task list result" where
  "load_tasks documents specs =
     bind_result (map_result document_fields documents) (\<lambda>docs.
     bind_result (map_result spec_fields specs) (\<lambda>spec_maps.
     bind_result (map_result (\<lambda>(index, m). make_task m index) (enumerate 0 (concat docs @ spec_maps))) (\<lambda>tasks.
       if list_ex is_text tasks \<and> list_ex is_number tasks
       then Inl ''queued values must be all numbers or all timestamps''
       else Inr tasks)))"


section \<open>What a loaded list guarantees\<close>

text \<open>
  A task as \<open>load_tasks\<close> leaves it: an id, the tier of its kind, and a size and a value that are numbers
  greater than zero.
\<close>

definition task_ok :: "task \<Rightarrow> bool" where
  "task_ok t = (t_id t \<noteq> [] \<and> t_tier t = tier_of (t_kind t) \<and> f_lt f_zero (t_size t) \<and> f_lt f_zero (t_value t))"

lemma map_result_length: "map_result f xs = Inr ys \<Longrightarrow> length ys = length xs"
  by (induction xs arbitrary: ys) (auto simp: bind_result_Inr_iff)

lemma map_result_nth: "map_result f xs = Inr ys \<Longrightarrow> i < length xs \<Longrightarrow> f (xs ! i) = Inr (ys ! i)"
proof (induction xs arbitrary: ys i)
  case (Cons x xs)
  then show ?case by (cases i) (auto simp: bind_result_Inr_iff)
qed simp

lemma f_one_pos: "f_lt f_zero (lit 1 1)"
  by code_simp

lemma positive_Inr: "positive raw name tid = Inr x \<Longrightarrow> f_lt f_zero x"
  by (auto simp: positive_def f_one_pos f_not_le split: option.splits if_splits)

lemma make_task_Inr:
  assumes "make_task m index = Inr t"
  shows "task_ok t \<and> t_index t = index"
  using assms
  by (auto simp: make_task_def Let_def bind_result_Inr_iff task_ok_def dest: positive_Inr split: if_splits)

lemma load_tasks_Inr:
  assumes "load_tasks documents specs = Inr ts"
  shows "\<forall>i < length ts. task_ok (ts ! i) \<and> t_index (ts ! i) = i"
    and "\<not> (list_ex is_text ts \<and> list_ex is_number ts)"
proof -
  obtain docs maps where r: "map_result (\<lambda>(index, m). make_task m index) (enumerate 0 (concat docs @ maps)) = Inr ts"
    and mixed: "\<not> (list_ex is_text ts \<and> list_ex is_number ts)"
    using assms by (auto simp: load_tasks_def bind_result_Inr_iff split: if_splits)
  show "\<not> (list_ex is_text ts \<and> list_ex is_number ts)" by (rule mixed)
  show "\<forall>i < length ts. task_ok (ts ! i) \<and> t_index (ts ! i) = i"
    using map_result_length [OF r] map_result_nth [OF r] by (auto simp: nth_enumerate_eq dest: make_task_Inr)
qed

text \<open>
  C32: a task list that loads numbers its tasks by position, gives each a non-empty id, the tier of its kind and
  a positive size and value, and never mixes numbers with timestamps as arrival.
\<close>

theorem load_tasks_ok:
  assumes "load_tasks documents specs = Inr ts"
  shows "(\<forall>i < length ts. task_ok (ts ! i) \<and> t_index (ts ! i) = i)
    \<and> \<not> ((\<exists>t \<in> set ts. is_text t) \<and> (\<exists>t \<in> set ts. is_number t))"
  using load_tasks_Inr [OF assms] by (auto simp: list_ex_iff)

theorem load_tasks_ok_witness:
  "\<exists>ts. load_tasks [JArr [JObj [(''id'', JStr ''a''), (''queued'', JNum (PosInt 7))], JObj [(''id'', JStr ''b'')]]] [] = Inr ts
     \<and> length ts = 2 \<and> task_ok (ts ! 1) \<and> t_index (ts ! 1) = 1"
proof -
  have load: "\<exists>ts. load_tasks [JArr [JObj [(''id'', JStr ''a''), (''queued'', JNum (PosInt 7))], JObj [(''id'', JStr ''b'')]]] [] = Inr ts
      \<and> length ts = 2"
    by (simp add: load_tasks_def document_fields_def make_task_def field_text_def py_str_def py_strip_def byte_def
        is_py_space_def of_chars_def utf8_def queued_of_def as_i64_def list_of_def positive_def is_text_def
        is_number_def Let_def)
  then show ?thesis using load_tasks_ok by fastforce
qed

end
