(* ===== verification/Kahn.thy ===== *)
theory Kahn
  imports Prelude
begin

text \<open>
  The topological loop that \<open>Graph::new\<close>, \<open>order\<close> and \<open>schedule\<close> share (Kahn's algorithm), over an abstract
  work list: \<open>Graph::new\<close> pops a stack, \<open>order\<close> a binary heap. The locale \<open>worklist\<close> states what the loop needs
  of the container, and its lemmas hold for both. The in-degree of a node counts edges with multiplicity, as
  the code does.
\<close>

section \<open>The loop\<close>

text \<open>One finished dependent: its in-degree drops (saturating) and it becomes ready at zero.\<close>

definition release1 :: "(nat \<Rightarrow> 'q \<Rightarrow> 'q) \<Rightarrow> nat list \<times> 'q \<Rightarrow> nat \<Rightarrow> nat list \<times> 'q" where
  "release1 push st d = (case st of (ind, q) \<Rightarrow>
     if d < length ind then
       let k = ind ! d - 1 in (ind[d := k], if k = 0 then push d q else q)
     else (ind, q))"

fun kahn_loop ::
  "('q \<Rightarrow> (nat \<times> 'q) option) \<Rightarrow> (nat \<Rightarrow> 'q \<Rightarrow> 'q) \<Rightarrow> (nat \<Rightarrow> nat list) \<Rightarrow> nat \<Rightarrow> 'q \<Rightarrow> nat list \<Rightarrow> nat list \<Rightarrow> nat list"
where
  "kahn_loop pop push deps 0 q ind out = out"
| "kahn_loop pop push deps (Suc fuel) q ind out =
     (case pop q of
        None \<Rightarrow> out
      | Some (x, q') \<Rightarrow>
          (case foldl (release1 push) (ind, q') (deps x) of
             (ind', q'') \<Rightarrow> kahn_loop pop push deps fuel q'' ind' (out @ [x])))"

section \<open>Topological orders\<close>

text \<open>Every node of \<open>xs\<close> comes after all of its predecessors: \<open>d \<in> set (deps u)\<close> is an edge from \<open>u\<close> to \<open>d\<close>.\<close>

definition preds_first :: "nat \<Rightarrow> (nat \<Rightarrow> nat list) \<Rightarrow> nat list \<Rightarrow> bool" where
  "preds_first n deps xs =
     (\<forall>i < length xs. \<forall>u < n. xs ! i \<in> set (deps u) \<longrightarrow> u \<in> set (take i xs))"

definition topological :: "nat \<Rightarrow> (nat \<Rightarrow> nat list) \<Rightarrow> nat list \<Rightarrow> bool" where
  "topological n deps xs = (distinct xs \<and> set xs = {..<n} \<and> preds_first n deps xs)"

text \<open>The number of edges into \<open>d\<close> from nodes outside \<open>P\<close>.\<close>

definition open_degree :: "nat \<Rightarrow> (nat \<Rightarrow> nat list) \<Rightarrow> nat set \<Rightarrow> nat \<Rightarrow> nat" where
  "open_degree n deps P d = (\<Sum>u \<in> {..<n} - P. count_list (deps u) d)"

lemma open_degree_0: "open_degree n deps P d = 0 \<longleftrightarrow> (\<forall>u < n. d \<in> set (deps u) \<longrightarrow> u \<in> P)"
  by (auto simp: open_degree_def count_list_0_iff)

lemma open_degree_insert:
  "x < n \<Longrightarrow> x \<notin> P \<Longrightarrow> open_degree n deps P d = count_list (deps x) d + open_degree n deps (insert x P) d"
proof -
  assume x: "x < n" "x \<notin> P"
  have "{..<n} - insert x P = {..<n} - P - {x}" by auto
  then show ?thesis using x by (simp add: open_degree_def sum.remove [of "{..<n} - P" x])
qed

lemma preds_first_snoc:
  "preds_first n deps (xs @ [x]) \<longleftrightarrow> preds_first n deps xs \<and> (\<forall>u < n. x \<in> set (deps u) \<longrightarrow> u \<in> set xs)"
proof -
  have "length (xs @ [x]) = Suc (length xs)" by simp
  moreover have "(\<forall>i < length xs. \<forall>u < n. (xs @ [x]) ! i \<in> set (deps u) \<longrightarrow> u \<in> set (take i (xs @ [x]))) \<longleftrightarrow>
      preds_first n deps xs"
    by (simp add: preds_first_def nth_append)
  ultimately show ?thesis by (auto simp only: preds_first_def [of n deps "xs @ [x]"] All_less_Suc) auto
qed

text \<open>A set of nodes that contains the predecessors of its members.\<close>

definition closed_set :: "nat \<Rightarrow> (nat \<Rightarrow> nat list) \<Rightarrow> nat set \<Rightarrow> bool" where
  "closed_set n deps P = (\<forall>d \<in> P. \<forall>u < n. d \<in> set (deps u) \<longrightarrow> u \<in> P)"

lemma preds_first_closed: "preds_first n deps xs \<Longrightarrow> closed_set n deps (set xs)"
  unfolding preds_first_def closed_set_def by (metis in_set_conv_nth in_set_takeD)

section \<open>The invariant\<close>

text \<open>
  The state between two nodes, and inside the release of one node's dependents, of which \<open>rest\<close> is still to
  come: in-degrees count the open edges, and \<open>M\<close> holds the nodes that are ready and not done.
\<close>

definition kahn_inv :: "nat \<Rightarrow> (nat \<Rightarrow> nat list) \<Rightarrow> nat set \<Rightarrow> nat list \<Rightarrow> nat multiset \<Rightarrow> nat list \<Rightarrow> bool" where
  "kahn_inv n deps P rest M ind =
     (length ind = n \<and> P \<subseteq> {..<n}
      \<and> (\<forall>d < n. ind ! d = open_degree n deps P d + count_list rest d)
      \<and> (\<forall>d < n. count M d = (if d \<notin> P \<and> ind ! d = 0 then 1 else 0))
      \<and> set_mset M \<subseteq> {..<n})"

lemma kahn_inv_release1:
  assumes ok: "kahn_inv n deps P (d # rest) M ind" and d: "d < n" "d \<notin> P"
  shows "kahn_inv n deps P rest (if ind ! d - 1 = 0 then add_mset d M else M) (ind[d := ind ! d - 1])"
proof -
  have len: "length ind = n" and deg: "\<forall>e < n. ind ! e = open_degree n deps P e + count_list (d # rest) e"
    and cnt: "\<forall>e < n. count M e = (if e \<notin> P \<and> ind ! e = 0 then 1 else 0)"
    and sub: "P \<subseteq> {..<n}" "set_mset M \<subseteq> {..<n}"
    using ok by (auto simp: kahn_inv_def)
  let ?ind = "ind[d := ind ! d - 1]" and ?M = "if ind ! d - 1 = 0 then add_mset d M else M"
  have pos: "0 < ind ! d" using deg d by simp
  have "\<forall>e < n. ?ind ! e = open_degree n deps P e + count_list rest e"
    using deg d len by (auto simp: nth_list_update)
  moreover have "\<forall>e < n. count ?M e = (if e \<notin> P \<and> ?ind ! e = 0 then 1 else 0)"
    using cnt d len pos by (auto simp: nth_list_update)
  moreover have "set_mset ?M \<subseteq> {..<n}" using sub d by auto
  ultimately show ?thesis using len sub by (simp add: kahn_inv_def)
qed

lemma kahn_inv_ready:
  assumes "kahn_inv n deps P [] M ind"
  shows "set_mset M = {d. d < n \<and> d \<notin> P \<and> (\<forall>u < n. d \<in> set (deps u) \<longrightarrow> u \<in> P)}"
proof -
  have "d \<in># M \<longleftrightarrow> d \<notin> P \<and> open_degree n deps P d = 0" if "d < n" for d
    using assms that by (auto simp: kahn_inv_def simp flip: count_greater_zero_iff split: if_splits)
  then show ?thesis using assms by (auto simp: kahn_inv_def open_degree_0)
qed

lemma kahn_inv_take:
  assumes ok: "kahn_inv n deps P [] M ind" and cl: "closed_set n deps P"
    and x: "x \<in># M" and edges: "\<forall>u < n. \<forall>d \<in> set (deps u). d < n"
  shows "x < n" "x \<notin> P" "\<forall>u < n. x \<in> set (deps u) \<longrightarrow> u \<in> P" "closed_set n deps (insert x P)"
    "\<forall>d \<in> set (deps x). d < n \<and> d \<notin> insert x P"
    "kahn_inv n deps (insert x P) (deps x) (M - {#x#}) ind"
proof -
  show xn: "x < n" and xP: "x \<notin> P" and pre: "\<forall>u < n. x \<in> set (deps u) \<longrightarrow> u \<in> P"
    using kahn_inv_ready [OF ok] x by auto
  show "closed_set n deps (insert x P)" using cl pre by (auto simp: closed_set_def)
  show ds: "\<forall>d \<in> set (deps x). d < n \<and> d \<notin> insert x P"
    using edges xn xP pre cl by (auto simp: closed_set_def)
  have deg: "\<forall>e < n. ind ! e = open_degree n deps (insert x P) e + count_list (deps x) e"
    using ok open_degree_insert [OF xn xP] by (auto simp: kahn_inv_def)
  have "count (M - {#x#}) e = (if e \<notin> insert x P \<and> ind ! e = 0 then 1 else 0)" if "e < n" for e
    using ok x that by (auto simp: kahn_inv_def split: if_splits)
  moreover have "set_mset (M - {#x#}) \<subseteq> {..<n}" using ok by (auto simp: kahn_inv_def dest: in_diffD)
  ultimately show "kahn_inv n deps (insert x P) (deps x) (M - {#x#}) ind"
    using ok deg xn by (auto simp: kahn_inv_def)
qed

section \<open>The work list\<close>

locale worklist =
  fixes items :: "'q \<Rightarrow> nat multiset"
    and pop :: "'q \<Rightarrow> (nat \<times> 'q) option"
    and push :: "nat \<Rightarrow> 'q \<Rightarrow> 'q"
  assumes pop_None: "pop q = None \<longleftrightarrow> items q = {#}"
    and pop_Some: "pop q = Some (x, q') \<Longrightarrow> items q = add_mset x (items q')"
    and items_push: "items (push x q) = add_mset x (items q)"
begin

text \<open>Releasing the dependents of a node; \<open>R\<close> are ready nodes held elsewhere.\<close>

lemma release_ok:
  "kahn_inv n deps P ds (items q + R) ind \<Longrightarrow> (\<forall>d \<in> set ds. d < n \<and> d \<notin> P) \<Longrightarrow>
     foldl (release1 push) (ind, q) ds = (ind', q') \<Longrightarrow> kahn_inv n deps P [] (items q' + R) ind'"
proof (induction ds arbitrary: q ind)
  case (Cons d ds)
  let ?i = "ind[d := ind ! d - 1]" and ?q = "if ind ! d - 1 = 0 then push d q else q"
  have "length ind = n" using Cons.prems by (simp add: kahn_inv_def)
  then have s: "release1 push (ind, q) d = (?i, ?q)" using Cons.prems by (simp add: release1_def Let_def)
  have "kahn_inv n deps P ds (if ind ! d - 1 = 0 then add_mset d (items q + R) else items q + R) ?i"
    using kahn_inv_release1 [OF Cons.prems(1)] Cons.prems(2) by simp
  moreover have "(if ind ! d - 1 = 0 then add_mset d (items q + R) else items q + R) = items ?q + R"
    by (simp add: items_push)
  ultimately have "kahn_inv n deps P ds (items ?q + R) ?i" by simp
  then show ?case using Cons.IH Cons.prems s by simp
qed simp

lemma pop_ok:
  assumes ok: "kahn_inv n deps (set out) [] (items q) ind" and out: "preds_first n deps out"
    and p: "pop q = Some (x, q')" and edges: "\<forall>u < n. \<forall>d \<in> set (deps u). d < n"
    and rel: "foldl (release1 push) (ind, q') (deps x) = (ind', q'')"
  shows "x \<notin> set out" "preds_first n deps (out @ [x])" "kahn_inv n deps (set (out @ [x])) [] (items q'') ind'"
proof -
  have x: "x \<in># items q" "items q - {#x#} = items q'" using pop_Some [OF p] by simp_all
  note t = kahn_inv_take [OF ok preds_first_closed [OF out] x(1) edges, unfolded x(2)]
  show "x \<notin> set out" by (rule t)
  show "preds_first n deps (out @ [x])" using out t(3) by (simp add: preds_first_snoc)
  show "kahn_inv n deps (set (out @ [x])) [] (items q'') ind'"
    using release_ok [of n deps "insert x (set out)" "deps x" q' "{#}" ind ind' q''] t(5,6) rel by simp
qed

text \<open>
  The loop run from a correct state with fuel for every node ends with an empty work list: it returns distinct
  nodes, predecessors first, and a node it leaves out has a predecessor that it leaves out as well.
\<close>

lemma kahn_loop_ok:
  assumes "kahn_inv n deps (set out) [] (items q) ind" "preds_first n deps out" "distinct out"
    and edges: "\<forall>u < n. \<forall>d \<in> set (deps u). d < n" and fuel: "n \<le> length out + fuel"
    and r: "r = kahn_loop pop push deps fuel q ind out"
  shows "distinct r \<and> set r \<subseteq> {..<n} \<and> preds_first n deps r
    \<and> (\<forall>d < n. d \<notin> set r \<longrightarrow> (\<exists>u < n. u \<notin> set r \<and> d \<in> set (deps u)))"
  using assms
proof (induction fuel arbitrary: q ind out)
  case 0
  have sub: "set out \<subseteq> {..<n}" using 0 by (simp add: kahn_inv_def)
  have "card (set out) = length out" using 0 by (simp add: distinct_card)
  then have "set out = {..<n}" using sub 0 by (metis add_0_right card_lessThan card_subset_eq card_mono finite_lessThan le_antisym)
  then show ?case using 0 by auto
next
  case (Suc fuel)
  show ?case
  proof (cases "pop q")
    case None
    then have "r = out" using Suc.prems by simp
    moreover have "\<forall>d < n. d \<notin> set out \<longrightarrow> (\<exists>u < n. u \<notin> set out \<and> d \<in> set (deps u))"
      using kahn_inv_ready [OF Suc.prems(1)] None by (auto simp: pop_None)
    ultimately show ?thesis using Suc.prems by (auto simp: kahn_inv_def)
  next
    case (Some xq)
    obtain x q' where xq: "xq = (x, q')" by force
    obtain i2 q2 where rel: "foldl (release1 push) (ind, q') (deps x) = (i2, q2)" by force
    note p = pop_ok [OF Suc.prems(1,2) Some [unfolded xq] edges rel]
    have r: "r = kahn_loop pop push deps fuel q2 i2 (out @ [x])"
      using Suc.prems(6) Some xq rel by simp
    show ?thesis
      by (rule Suc.IH [OF p(3,2) _ edges _ r]) (use Suc.prems p in auto)
  qed
qed

text \<open>Every node of the result was popped from a state in which exactly the ready nodes were waiting.\<close>

lemma kahn_loop_pops:
  assumes "kahn_inv n deps (set out) [] (items q) ind" "preds_first n deps out"
    and edges: "\<forall>u < n. \<forall>d \<in> set (deps u). d < n"
    and r: "r = kahn_loop pop push deps fuel q ind out"
  shows "(\<exists>zs. r = out @ zs)
    \<and> (\<forall>i < length r. length out \<le> i \<longrightarrow>
        (\<exists>q' ind' q''. kahn_inv n deps (set (take i r)) [] (items q') ind' \<and> pop q' = Some (r ! i, q'')))"
  using assms(1,2) r
proof (induction fuel arbitrary: q ind out)
  case 0
  then show ?case by simp
next
  case (Suc fuel)
  show ?case
  proof (cases "pop q")
    case None
    then show ?thesis using Suc.prems by simp
  next
    case (Some xq)
    obtain x q' where xq: "xq = (x, q')" by force
    obtain i2 q2 where rel: "foldl (release1 push) (ind, q') (deps x) = (i2, q2)" by force
    note p = pop_ok [OF Suc.prems(1,2) Some [unfolded xq] edges rel]
    have r: "r = kahn_loop pop push deps fuel q2 i2 (out @ [x])"
      using Suc.prems(3) Some xq rel by simp
    note ih = Suc.IH [OF p(3,2) r]
    then obtain zs where zs: "r = out @ x # zs" by auto
    have "\<exists>q' ind' q''. kahn_inv n deps (set (take i r)) [] (items q') ind' \<and> pop q' = Some (r ! i, q'')"
      if "i < length r" "length out \<le> i" for i
    proof (cases "i = length out")
      case True
      then have "take i r = out" "r ! i = x" using zs by auto
      then show ?thesis using Suc.prems(1) Some xq by blast
    next
      case False
      then show ?thesis using ih that by auto
    qed
    then show ?thesis using zs by blast
  qed
qed

end

text \<open>
  A topological order exists exactly when the edges close no cycle; for a closed set of left-over nodes
  following predecessors never leaves the set.
\<close>

lemma topological_acyclic:
  assumes "topological n deps xs"
  shows "acyclic {(u, d). u < n \<and> d \<in> set (deps u)}"
proof -
  let ?E = "{(u, d). u < n \<and> d \<in> set (deps u)}"
  define pos where "pos u = (LEAST i. i < length xs \<and> xs ! i = u)" for u
  have pos: "pos u < length xs \<and> xs ! pos u = u" if "u \<in> set xs" for u
    unfolding pos_def by (rule LeastI_ex) (use that in \<open>auto simp: in_set_conv_nth\<close>)
  have step: "pos u < pos d" if "(u, d) \<in> ?E" "d \<in> set xs" for u d
  proof -
    have "u \<in> set (take (pos d) xs)"
      using that pos [OF that(2)] assms by (auto simp: topological_def preds_first_def)
    then obtain i where i: "i < pos d" "i < length xs" "xs ! i = u" by (auto simp: in_set_conv_nth)
    moreover have "pos u \<le> i" unfolding pos_def by (rule Least_le) (use i in simp)
    ultimately show ?thesis by simp
  qed
  have src: "u \<in> set xs" if "(u, d) \<in> ?E" for u d using that assms by (auto simp: topological_def)
  have path: "(u, d) \<in> ?E\<^sup>+ \<Longrightarrow> d \<in> set xs \<Longrightarrow> u \<in> set xs \<and> pos u < pos d" for u d
  proof (induction rule: trancl_induct)
    case (base d) then show ?case using step src by blast
  next
    case (step d e)
    then have "d \<in> set xs" using src by blast
    then show ?case using step.IH \<open>e \<in> set xs\<close> step.hyps(2) \<open>\<And>u d. (u, d) \<in> ?E \<Longrightarrow> d \<in> set xs \<Longrightarrow> pos u < pos d\<close>
      by (meson less_trans)
  qed
  show ?thesis
  proof (rule acyclicI, rule allI, rule notI)
    fix u assume c: "(u, u) \<in> ?E\<^sup>+"
    then have "u \<in> set xs" using src by (meson converse_tranclE)
    then show False using path [OF c] by simp
  qed
qed

end
