(* ===== verification/Graph.thy ===== *)
theory Graph
  imports Task Kahn "HOL-Library.Sublist"
begin

text \<open>
  The dependency graph over a task list (\<open>crates/agora-sched/src/graph.rs\<close>): \<open>Graph::new\<close> with its errors and
  the cycle it reports, bottom levels, and the file-overlap predicates. The error of \<open>Graph::new\<close> is a value
  whose text is \<open>graph_message\<close>.
\<close>

section \<open>Definitions\<close>

datatype graph_error =
    DuplicateId string
  | UnknownTask string string
  | SelfAfter string
  | Cycle "string list"

definition graph_message :: "graph_error \<Rightarrow> string" where
  "graph_message e = (case e of
     DuplicateId i \<Rightarrow> ''duplicate task id '' @ repr_str i
   | UnknownTask i p \<Rightarrow> ''task '' @ repr_str i @ '' is after unknown task '' @ repr_str p
   | SelfAfter i \<Rightarrow> ''task '' @ repr_str i @ '' is after itself''
   | Cycle ids \<Rightarrow> ''the tasks form a cycle: '' @ join '' -> '' ids)"

record graph =
  g_tasks :: "task list"
  g_index :: "string \<Rightarrow> nat option"
  g_dependents :: "nat list list"
  g_topo :: "nat list"

fun build_index :: "nat \<Rightarrow> task list \<Rightarrow> (string \<Rightarrow> nat option) \<Rightarrow> graph_error + (string \<Rightarrow> nat option)" where
  "build_index pos [] m = Inr m"
| "build_index pos (t # ts) m =
     (if m (t_id t) \<noteq> None then Inl (DuplicateId (t_id t))
      else build_index (Suc pos) ts (m(t_id t \<mapsto> pos)))"

fun add_edges ::
  "(string \<Rightarrow> nat option) \<Rightarrow> nat \<Rightarrow> string \<Rightarrow> string list \<Rightarrow> nat list list \<Rightarrow> graph_error + nat list list" where
  "add_edges index pos i [] deps = Inr deps"
| "add_edges index pos i (p # ps) deps =
     (case index p of
        None \<Rightarrow> Inl (UnknownTask i p)
      | Some before \<Rightarrow>
          if p = i then Inl (SelfAfter i)
          else add_edges index pos i ps (deps[before := deps ! before @ [pos]]))"

fun build_dependents ::
  "(string \<Rightarrow> nat option) \<Rightarrow> nat \<Rightarrow> task list \<Rightarrow> nat list list \<Rightarrow> graph_error + nat list list" where
  "build_dependents index pos [] deps = Inr deps"
| "build_dependents index pos (t # ts) deps =
     bind_result (add_edges index pos (t_id t) (t_after t) deps) (build_dependents index (Suc pos) ts)"

text \<open>The ready stack of \<open>Graph::new\<close>.\<close>

definition pop_stack :: "'a list \<Rightarrow> ('a \<times> 'a list) option" where
  "pop_stack q = (if q = [] then None else Some (last q, butlast q))"

definition push_stack :: "'a \<Rightarrow> 'a list \<Rightarrow> 'a list" where
  "push_stack x q = q @ [x]"

definition deps_at :: "nat list list \<Rightarrow> nat \<Rightarrow> nat list" where
  "deps_at deps p = (if p < length deps then deps ! p else [])"

definition graph_topo :: "task list \<Rightarrow> nat list list \<Rightarrow> nat list" where
  "graph_topo tasks deps =
     (let indegree = map (\<lambda>t. length (t_after t)) tasks;
          ready = filter (\<lambda>p. indegree ! p = 0) [0 ..< length tasks]
      in kahn_loop pop_stack push_stack (deps_at deps) (length tasks) ready indegree [])"

text \<open>The first position with the smallest id.\<close>

definition min_by_id :: "task list \<Rightarrow> nat list \<Rightarrow> nat option" where
  "min_by_id tasks ps = (case ps of
     [] \<Rightarrow> None
   | p # ps' \<Rightarrow> Some (foldl (\<lambda>best q. if t_id (tasks ! q) < t_id (tasks ! best) then q else best) p ps'))"

lemma min_by_id_in: "min_by_id tasks ps = Some p \<Longrightarrow> p \<in> set ps"
proof -
  have "foldl (\<lambda>best q. if t_id (tasks ! q) < t_id (tasks ! best) then q else best) b qs \<in> insert b (set qs)" for b qs
    by (induction qs arbitrary: b) (auto split: if_splits)
  then show "min_by_id tasks ps = Some p \<Longrightarrow> p \<in> set ps"
    by (cases ps) (auto simp: min_by_id_def)
qed

definition following :: "task list \<Rightarrow> (string \<Rightarrow> nat option) \<Rightarrow> nat list \<Rightarrow> nat \<Rightarrow> nat option" where
  "following tasks index remaining p =
     min_by_id tasks (filter (\<lambda>q. q \<in> set remaining) (List.map_filter index (t_after (tasks ! p))))"

function cycle_walk :: "task list \<Rightarrow> (string \<Rightarrow> nat option) \<Rightarrow> nat list \<Rightarrow> nat list \<Rightarrow> nat list option" where
  "cycle_walk tasks index remaining path =
     (case following tasks index remaining (last path) of
        None \<Rightarrow> None
      | Some f \<Rightarrow>
          if f \<in> set path then Some (dropWhile (\<lambda>p. p \<noteq> f) path @ [f])
          else cycle_walk tasks index remaining (path @ [f]))"
  by pat_completeness auto
termination
proof (relation "measure (\<lambda>(tasks, index, remaining, path). card (set remaining - set path))")
  fix tasks :: "task list" and index :: "string \<Rightarrow> nat option" and remaining path f
  assume "following tasks index remaining (last path) = Some f" "f \<notin> set path"
  then have "f \<in> set remaining" "f \<notin> set path" by (auto simp: following_def dest: min_by_id_in)
  then have "set remaining - set (path @ [f]) \<subset> set remaining - set path" by auto
  then show "((tasks, index, remaining, path @ [f]), (tasks, index, remaining, path))
      \<in> measure (\<lambda>(tasks, index, remaining, path). card (set remaining - set path))"
    by (simp add: psubset_card_mono)
qed simp

declare cycle_walk.simps [simp del]

definition cycle_path :: "task list \<Rightarrow> (string \<Rightarrow> nat option) \<Rightarrow> nat list \<Rightarrow> nat list option" where
  "cycle_path tasks index remaining =
     (case min_by_id tasks remaining of
        None \<Rightarrow> None
      | Some start \<Rightarrow> cycle_walk tasks index remaining [start])"

definition cycle_ids :: "task list \<Rightarrow> (string \<Rightarrow> nat option) \<Rightarrow> nat list \<Rightarrow> string list" where
  "cycle_ids tasks index remaining =
     (case cycle_path tasks index remaining of
        Some path \<Rightarrow> map (\<lambda>p. t_id (tasks ! p)) path
      | None \<Rightarrow> sort (map (\<lambda>p. t_id (tasks ! p)) remaining))"

definition graph_new :: "task list \<Rightarrow> graph_error + graph" where
  "graph_new tasks =
     bind_result (build_index 0 tasks (\<lambda>_. None)) (\<lambda>index.
     bind_result (build_dependents index 0 tasks (replicate (length tasks) [])) (\<lambda>dependents.
       let topo = graph_topo tasks dependents in
       if length topo < length tasks
       then Inl (Cycle (cycle_ids tasks index (filter (\<lambda>p. p \<notin> set topo) [0 ..< length tasks])))
       else Inr \<lparr>g_tasks = tasks, g_index = index, g_dependents = dependents, g_topo = topo\<rparr>))"

definition level_of :: "graph \<Rightarrow> f64 list \<Rightarrow> nat \<Rightarrow> f64" where
  "level_of g levels p =
     f_add (t_size (g_tasks g ! p)) (foldl f_max f_zero (map (\<lambda>d. levels ! d) (deps_at (g_dependents g) p)))"

definition bottom_levels :: "graph \<Rightarrow> f64 list" where
  "bottom_levels g =
     foldl (\<lambda>levels p. levels[p := level_of g levels p])
       (replicate (length (g_tasks g)) f_zero) (rev (g_topo g))"

definition overlap :: "string \<Rightarrow> string \<Rightarrow> bool" where
  "overlap a b =
     (let a' = trim_end (\<lambda>c. c = CHR ''/'') a; b' = trim_end (\<lambda>c. c = CHR ''/'') b;
          under = (\<lambda>x y. case strip_prefix y x of Some (c # _) \<Rightarrow> c = CHR ''/'' | _ \<Rightarrow> False)
      in a' = b' \<or> under a' b' \<or> under b' a')"

definition conflict :: "task \<Rightarrow> task \<Rightarrow> bool" where
  "conflict a b = (t_id a = t_id b \<or> list_ex (\<lambda>x. list_ex (overlap x) (t_files b)) (t_files a))"

section \<open>The index and the edges\<close>

lemma map_add_upd_fresh: "f k = None \<Longrightarrow> m(k \<mapsto> v) ++ f = m ++ f(k \<mapsto> v)"
  by (auto simp: fun_eq_iff map_add_def split: option.split)

lemma build_index_Inr:
  "build_index pos ts m = Inr index \<Longrightarrow>
     distinct (map t_id ts) \<and> (\<forall>t \<in> set ts. m (t_id t) = None)
     \<and> index = m ++ map_of (zip (map t_id ts) [pos ..< pos + length ts])"
proof (induction ts arbitrary: pos m)
  case (Cons t ts)
  have m: "m (t_id t) = None" and r: "build_index (Suc pos) ts (m(t_id t \<mapsto> pos)) = Inr index"
    using Cons.prems(1) by (auto split: if_splits)
  note IH = Cons.IH [OF r]
  have nt: "t_id t \<notin> set (map t_id ts)" using IH by fastforce
  have up: "[pos ..< pos + length (t # ts)] = pos # [Suc pos ..< Suc pos + length ts]"
    by (simp add: upt_conv_Cons del: upt_Suc)
  have none: "map_of (zip (map t_id ts) [Suc pos ..< Suc pos + length ts]) (t_id t) = None"
    using nt by (simp add: map_of_zip_is_None)
  have eq: "m(t_id t \<mapsto> pos) ++ map_of (zip (map t_id ts) [Suc pos ..< Suc pos + length ts])
      = m ++ map_of (zip (map t_id (t # ts)) [pos ..< pos + length (t # ts)])"
    unfolding up using none by (simp add: map_add_upd_fresh)
  have "index = m ++ map_of (zip (map t_id (t # ts)) [pos ..< pos + length (t # ts)])"
    by (rule trans [OF _ eq]) (use IH in blast)
  moreover have "distinct (map t_id (t # ts))" using IH nt by simp
  moreover have "\<forall>s \<in> set (t # ts). m (t_id s) = None" using IH m by (auto split: if_splits)
  ultimately show ?case by blast
qed simp

text \<open>An index is right when it finds each task by its id, and nothing else.\<close>

definition index_ok :: "task list \<Rightarrow> (string \<Rightarrow> nat option) \<Rightarrow> bool" where
  "index_ok ts index = (\<forall>s i. index s = Some i \<longleftrightarrow> i < length ts \<and> t_id (ts ! i) = s)"

lemma build_index_ok:
  assumes "build_index 0 ts (\<lambda>_. None) = Inr index"
  shows "distinct (map t_id ts)" "index_ok ts index"
proof -
  have b: "distinct (map t_id ts)" "index = map_of (zip (map t_id ts) [0 ..< length ts])"
    using build_index_Inr [OF assms] by (auto simp: map_add_def fun_eq_iff split: option.split)
  show "distinct (map t_id ts)" by (rule b)
  have z: "distinct (map fst (zip (map t_id ts) [0 ..< length ts]))" using b by simp
  show "index_ok ts index"
    unfolding index_ok_def b(2) map_of_eq_Some_iff [OF z] 
    by (auto simp: in_set_zip) (metis add_0 nth_map nth_upt)
qed

lemma build_index_distinct:
  "distinct (map t_id ts) \<Longrightarrow> \<forall>t \<in> set ts. m (t_id t) = None \<Longrightarrow> \<exists>index. build_index pos ts m = Inr index"
proof (induction ts arbitrary: pos m)
  case (Cons t ts)
  have "\<forall>s \<in> set ts. (m(t_id t \<mapsto> pos)) (t_id s) = None" using Cons.prems by (auto simp: image_iff)
  then show ?case using Cons by simp
qed simp

text \<open>What the prerequisites of one task must be for its edges to be added.\<close>

definition after_ok :: "(string \<Rightarrow> nat option) \<Rightarrow> task \<Rightarrow> bool" where
  "after_ok index t = (\<forall>p \<in> set (t_after t). index p \<noteq> None \<and> p \<noteq> t_id t)"

lemma add_edges_Inr_iff:
  "(\<exists>deps'. add_edges index pos i ps deps = Inr deps') \<longleftrightarrow> (\<forall>p \<in> set ps. index p \<noteq> None \<and> p \<noteq> i)"
  by (induction ps arbitrary: deps) (auto split: option.splits)

lemma add_edges_count:
  assumes "add_edges index pos i ps deps = Inr deps'" "\<forall>s u. index s = Some u \<longrightarrow> u < length deps"
  shows "length deps' = length deps"
    and "u < length deps \<Longrightarrow> inj_on index (dom index) \<Longrightarrow> index s = Some u \<Longrightarrow>
      count_list (deps' ! u) d = count_list (deps ! u) d + (if d = pos then count_list ps s else 0)"
  using assms
proof (induction ps arbitrary: deps)
  case Nil
  { case 1 then show ?case by simp next case 2 then show ?case by simp }
next
  case (Cons p ps)
  { case 1 then show ?case using Cons.IH(1) by (auto split: option.splits if_splits)
  next
    case 2
    obtain b where b: "index p = Some b" "p \<noteq> i"
      and r: "add_edges index pos i ps (deps[b := deps ! b @ [pos]]) = Inr deps'"
      using 2 by (auto split: option.splits if_splits)
    have "b = u \<longleftrightarrow> p = s" using b 2 by (auto simp: inj_on_def dom_def)
    moreover have "b < length deps" using b 2 by auto
    ultimately show ?case using Cons.IH(2) [OF _ _ _ r] 2 by (auto simp: nth_list_update) }
qed

lemma build_dependents_Inr_iff:
  "(\<exists>deps'. build_dependents index pos ts deps = Inr deps') \<longleftrightarrow> (\<forall>t \<in> set ts. after_ok index t)"
proof (induction ts arbitrary: pos deps)
  case (Cons t ts)
  have "(\<exists>deps'. build_dependents index pos (t # ts) deps = Inr deps') \<longleftrightarrow>
      (\<exists>d. add_edges index pos (t_id t) (t_after t) deps = Inr d \<and>
        (\<exists>deps'. build_dependents index (Suc pos) ts d = Inr deps'))"
    by (auto simp: bind_result_Inr_iff)
  also have "\<dots> \<longleftrightarrow> after_ok index t \<and> (\<forall>t \<in> set ts. after_ok index t)"
    unfolding Cons.IH after_ok_def [of index t] add_edges_Inr_iff [of index pos "t_id t" "t_after t" deps, symmetric] by blast
  finally show ?case by simp
qed simp

lemma build_dependents_count:
  assumes "build_dependents index pos ts deps = Inr deps'" "\<forall>s u. index s = Some u \<longrightarrow> u < length deps"
    and "inj_on index (dom index)"
  shows "length deps' = length deps \<and> (\<forall>u s d. u < length deps \<longrightarrow> index s = Some u \<longrightarrow>
      count_list (deps' ! u) d = count_list (deps ! u) d
        + (if pos \<le> d \<and> d < pos + length ts then count_list (t_after (ts ! (d - pos))) s else 0))"
  using assms
proof (induction ts arbitrary: pos deps)
  case (Cons t ts)
  obtain d1 where a: "add_edges index pos (t_id t) (t_after t) deps = Inr d1"
    and r: "build_dependents index (Suc pos) ts d1 = Inr deps'"
    using Cons.prems(1) by (auto simp: bind_result_Inr_iff)
  note e = add_edges_count [OF a Cons.prems(2)]
  have l: "length d1 = length deps" by (rule e(1))
  note IH = Cons.IH [OF r, unfolded l, OF Cons.prems(2,3)]
  have "count_list (deps' ! u) d = count_list (deps ! u) d
      + (if pos \<le> d \<and> d < pos + length (t # ts) then count_list (t_after ((t # ts) ! (d - pos))) s else 0)"
    if u: "u < length deps" "index s = Some u" for u s d
  proof -
    have "count_list (deps' ! u) d = count_list (d1 ! u) d
        + (if Suc pos \<le> d \<and> d < Suc pos + length ts then count_list (t_after (ts ! (d - Suc pos))) s else 0)"
      using IH u by blast
    also have "count_list (d1 ! u) d = count_list (deps ! u) d + (if d = pos then count_list (t_after t) s else 0)"
      using e(2) u Cons.prems(3) by blast
    finally show ?thesis by (cases "d = pos") (auto simp: nth_Cons' Suc_diff_le)
  qed
  then show ?case using IH by simp
qed simp


section \<open>The order of a graph\<close>

interpretation stack: worklist mset pop_stack push_stack
proof
  fix q :: "nat list" and x q'
  show "pop_stack q = None \<longleftrightarrow> mset q = {#}" by (simp add: pop_stack_def)
  show "mset (push_stack x q) = add_mset x (mset q)" by (simp add: push_stack_def)
  assume "pop_stack q = Some (x, q')"
  then have "q = q' @ [x]" by (auto simp: pop_stack_def split: if_splits)
  then show "mset q = add_mset x (mset q')" by simp
qed

text \<open>
  The invariant of a graph: ids are distinct and indexed, the dependents of a task list every task that names it,
  as often as it names it, prerequisites exist and differ from their task, and \<open>topo\<close> is a topological order.
\<close>

definition graph_ok :: "graph \<Rightarrow> bool" where
  "graph_ok g = (let ts = g_tasks g; n = length ts in
     distinct (map t_id ts) \<and> index_ok ts (g_index g) \<and> length (g_dependents g) = n
     \<and> (\<forall>u < n. \<forall>d. count_list (deps_at (g_dependents g) u) d =
           (if d < n then count_list (t_after (ts ! d)) (t_id (ts ! u)) else 0))
     \<and> (\<forall>t \<in> set ts. after_ok (g_index g) t)
     \<and> topological n (deps_at (g_dependents g)) (g_topo g))"

lemma index_ok_inj: "index_ok ts index \<Longrightarrow> inj_on index (dom index)"
  unfolding index_ok_def inj_on_def dom_def by (metis (mono_tags, lifting) mem_Collect_eq not_Some_eq)

lemma index_ok_dom:
  assumes "index_ok ts index"
  shows "index p \<noteq> None \<longleftrightarrow> p \<in> t_id ` set ts"
proof -
  have "index p \<noteq> None \<longleftrightarrow> (\<exists>i. index p = Some i)" by simp
  also have "\<dots> \<longleftrightarrow> (\<exists>i < length ts. t_id (ts ! i) = p)" using assms by (simp add: index_ok_def)
  also have "\<dots> \<longleftrightarrow> p \<in> t_id ` set ts" by (force simp: in_set_conv_nth)
  finally show ?thesis .
qed

lemma count_filter_upt: "count (mset (filter P [0 ..< n])) d = (if d < n \<and> P d then 1 else 0)"
  by (induction n) (auto simp: less_Suc_eq)

lemma sum_count_list:
  "distinct xs \<Longrightarrow> set ys \<subseteq> set xs \<Longrightarrow> (\<Sum>u < length xs. count_list ys (xs ! u)) = length ys"
proof (induction ys)
  case (Cons y ys)
  obtain i where i: "i < length xs" "xs ! i = y" using Cons.prems by (auto simp: in_set_conv_nth)
  have "xs ! u = y \<longleftrightarrow> u = i" if "u < length xs" for u
    using i that Cons.prems(1) by (auto simp: distinct_conv_nth)
  then have "(\<Sum>u < length xs. count_list (y # ys) (xs ! u)) = (\<Sum>u < length xs. count_list ys (xs ! u) + (if u = i then 1 else 0))"
    by (intro sum.cong) auto
  also have "\<dots> = length ys + 1" using Cons i by (simp add: sum.distrib)
  finally show ?case by simp
qed simp

lemma built_edges:
  assumes ix: "build_index 0 ts (\<lambda>_. None) = Inr index"
    and bd: "build_dependents index 0 ts (replicate (length ts) []) = Inr deps"
  shows "length deps = length ts"
    and "u < length ts \<Longrightarrow> count_list (deps_at deps u) d =
      (if d < length ts then count_list (t_after (ts ! d)) (t_id (ts ! u)) else 0)"
proof -
  note io = build_index_ok [OF ix]
  have lt: "\<forall>s u. index s = Some u \<longrightarrow> u < length (replicate (length ts) [])"
    using io by (auto simp: index_ok_def)
  note c = build_dependents_count [OF bd lt index_ok_inj [OF io(2)]]
  show l: "length deps = length ts" using c by simp
  assume u: "u < length ts"
  then have "index (t_id (ts ! u)) = Some u" using io by (simp add: index_ok_def)
  then show "count_list (deps_at deps u) d =
      (if d < length ts then count_list (t_after (ts ! d)) (t_id (ts ! u)) else 0)"
    using c u l by (auto simp: deps_at_def)
qed

lemma graph_topo_ok:
  assumes ix: "build_index 0 ts (\<lambda>_. None) = Inr index"
    and bd: "build_dependents index 0 ts (replicate (length ts) []) = Inr deps"
  defines "topo \<equiv> graph_topo ts deps"
  shows "distinct topo \<and> set topo \<subseteq> {..<length ts} \<and> preds_first (length ts) (deps_at deps) topo
    \<and> (\<forall>d < length ts. d \<notin> set topo \<longrightarrow> (\<exists>u < length ts. u \<notin> set topo \<and> d \<in> set (deps_at deps u)))"
proof -
  note io = build_index_ok [OF ix] and e = built_edges [OF ix bd]
  let ?n = "length ts" and ?ind = "map (\<lambda>t. length (t_after t)) ts"
  have af: "\<forall>t \<in> set ts. after_ok index t" using bd build_dependents_Inr_iff by blast
  have known: "set (t_after t) \<subseteq> set (map t_id ts)" if "t \<in> set ts" for t
    using that af index_ok_dom [OF io(2)] by (auto simp: after_ok_def)
  have deg: "open_degree ?n (deps_at deps) {} d = length (t_after (ts ! d))" if "d < ?n" for d
    using sum_count_list [OF io(1) known [of "ts ! d"]] that e(2) by (simp add: open_degree_def)
  have edges: "\<forall>u < ?n. \<forall>d \<in> set (deps_at deps u). d < ?n"
    using e(2) by (metis count_list_0_iff)
  have "kahn_inv ?n (deps_at deps) (set []) [] (mset (filter (\<lambda>p. ?ind ! p = 0) [0 ..< ?n])) ?ind"
    using deg by (auto simp: kahn_inv_def count_filter_upt simp del: mset_filter)
  then show ?thesis
    using stack.kahn_loop_ok [OF _ _ _ edges, of "[]"] by (simp add: topo_def graph_topo_def Let_def preds_first_def)
qed


lemma card_lt_length: "distinct xs \<Longrightarrow> set xs \<subseteq> {..<n} \<Longrightarrow> length xs < n \<longleftrightarrow> set xs \<noteq> {..<n}"
  by (metis card_lessThan card_seteq distinct_card finite_lessThan linorder_not_le nless_le)

lemma graph_new_Inr:
  assumes "graph_new ts = Inr g"
  shows "graph_ok g" "g_tasks g = ts"
proof -
  obtain index deps where ix: "build_index 0 ts (\<lambda>_. None) = Inr index"
    and bd: "build_dependents index 0 ts (replicate (length ts) []) = Inr deps"
    and len: "\<not> length (graph_topo ts deps) < length ts"
    and g: "g = \<lparr>g_tasks = ts, g_index = index, g_dependents = deps, g_topo = graph_topo ts deps\<rparr>"
    using assms by (auto simp: graph_new_def bind_result_Inr_iff Let_def split: if_splits)
  note io = build_index_ok [OF ix] and e = built_edges [OF ix bd] and t = graph_topo_ok [OF ix bd]
  have "\<forall>t \<in> set ts. after_ok index t" using bd build_dependents_Inr_iff by blast
  moreover have "topological (length ts) (deps_at deps) (graph_topo ts deps)"
    using t len card_lt_length unfolding topological_def by blast
  ultimately show "graph_ok g" using io e g by (simp add: graph_ok_def Let_def)
  show "g_tasks g = ts" using g by simp
qed

text \<open>The prerequisite relation on ids.\<close>

definition prereq :: "task list \<Rightarrow> (string \<times> string) set" where
  "prereq ts = {(p, t_id t) | p t. t \<in> set ts \<and> p \<in> set (t_after t)}"

lemma prereqI: "d < length ts \<Longrightarrow> p \<in> set (t_after (ts ! d)) \<Longrightarrow> (p, t_id (ts ! d)) \<in> prereq ts"
  unfolding prereq_def by force

lemma finite_prereq: "finite (prereq ts)"
proof -
  have "prereq ts = (\<Union>t \<in> set ts. (\<lambda>p. (p, t_id t)) ` set (t_after t))" by (auto simp: prereq_def)
  then show ?thesis by simp
qed

lemma graph_ok_edge:
  assumes "graph_ok g" "u < length (g_tasks g)" "d < length (g_tasks g)"
  shows "d \<in> set (deps_at (g_dependents g) u) \<longleftrightarrow> t_id (g_tasks g ! u) \<in> set (t_after (g_tasks g ! d))"
  using assms by (simp add: graph_ok_def Let_def) (metis count_list_0_iff)

lemma graph_ok_acyclic:
  assumes ok: "graph_ok g"
  shows "acyclic (prereq (g_tasks g))"
proof -
  let ?ts = "g_tasks g" and ?E = "{(u, d). u < length (g_tasks g) \<and> d \<in> set (deps_at (g_dependents g) u)}"
  define pos where "pos s = the (g_index g s)" for s
  have io: "index_ok ?ts (g_index g)" and af: "\<forall>t \<in> set ?ts. after_ok (g_index g) t"
    and tp: "topological (length ?ts) (deps_at (g_dependents g)) (g_topo g)"
    using ok by (auto simp: graph_ok_def Let_def)
  have pos: "pos s < length ?ts" "t_id (?ts ! pos s) = s" if "g_index g s \<noteq> None" for s
    using that io [unfolded index_ok_def, rule_format, of s "pos s"] by (simp_all add: pos_def)
  have edge: "(pos p, pos s) \<in> ?E" if ps: "(p, s) \<in> prereq ?ts" for p s
  proof -
    obtain t where t: "t \<in> set ?ts" "p \<in> set (t_after t)" "s = t_id t" using ps by (auto simp: prereq_def)
    obtain d where d: "d < length ?ts" "?ts ! d = t" using t by (auto simp: in_set_conv_nth)
    then have "g_index g s = Some d" using io t by (simp add: index_ok_def)
    then have "pos s = d" by (simp add: pos_def)
    moreover have "g_index g p \<noteq> None" using af t by (auto simp: after_ok_def)
    ultimately show ?thesis using pos [of p] d t graph_ok_edge [OF ok, of "pos p" d] by auto
  qed
  have "(pos a, pos b) \<in> ?E\<^sup>+" if "(a, b) \<in> (prereq ?ts)\<^sup>+" for a b
    using that
  proof (induction rule: trancl_induct)
    case (base b)
    show ?case by (rule r_into_trancl [OF edge [OF base]])
  next
    case (step b c)
    show ?case by (rule trancl_into_trancl [OF step.IH edge [OF step.hyps(2)]])
  qed
  then show ?thesis using topological_acyclic [OF tp] unfolding acyclic_def by blast
qed

text \<open>
  A task that the loop leaves out has a prerequisite that it leaves out as well, so there is no first one.
\<close>

lemma left_over_prereq:
  assumes ix: "build_index 0 ts (\<lambda>_. None) = Inr index"
    and bd: "build_dependents index 0 ts (replicate (length ts) []) = Inr deps"
    and d: "d < length ts" "d \<notin> set (graph_topo ts deps)"
  shows "\<exists>u < length ts. u \<notin> set (graph_topo ts deps) \<and> t_id (ts ! u) \<in> set (t_after (ts ! d))"
proof -
  obtain u where u: "u < length ts" "u \<notin> set (graph_topo ts deps)" "d \<in> set (deps_at deps u)"
    using graph_topo_ok [OF ix bd] d by blast
  then have "t_id (ts ! u) \<in> set (t_after (ts ! d))"
    using built_edges(2) [OF ix bd u(1), of d] d by (metis count_list_0_iff)
  then show ?thesis using u by blast
qed

lemma acyclic_complete:
  assumes ix: "build_index 0 ts (\<lambda>_. None) = Inr index"
    and bd: "build_dependents index 0 ts (replicate (length ts) []) = Inr deps"
    and ac: "acyclic (prereq ts)"
  shows "\<not> length (graph_topo ts deps) < length ts"
proof
  let ?L = "{d. d < length ts \<and> d \<notin> set (graph_topo ts deps)}"
  assume "length (graph_topo ts deps) < length ts"
  then have "set (graph_topo ts deps) \<noteq> {..<length ts}"
    using graph_topo_ok [OF ix bd] card_lt_length by blast
  then obtain d where "d \<in> ?L" using graph_topo_ok [OF ix bd] by auto
  then have d: "t_id (ts ! d) \<in> (\<lambda>d. t_id (ts ! d)) ` ?L" by blast
  have wf: "wf (prereq ts)" by (rule finite_acyclic_wf [OF finite_prereq ac])
  obtain m where m: "m \<in> (\<lambda>d. t_id (ts ! d)) ` ?L" "\<And>p. (p, m) \<in> prereq ts \<Longrightarrow> p \<notin> (\<lambda>d. t_id (ts ! d)) ` ?L"
    by (rule wfE_min [OF wf d]) blast
  obtain e where e: "e \<in> ?L" "m = t_id (ts ! e)" using m(1) by auto
  obtain u where u: "u < length ts" "u \<notin> set (graph_topo ts deps)" "t_id (ts ! u) \<in> set (t_after (ts ! e))"
    using left_over_prereq [OF ix bd] e by blast
  then have "(t_id (ts ! u), m) \<in> prereq ts" using e prereqI by auto
  moreover have "t_id (ts ! u) \<in> (\<lambda>d. t_id (ts ! d)) ` ?L" using u by auto
  ultimately show False using m by blast
qed

section \<open>The reported cycle\<close>

definition names :: "task list \<Rightarrow> (string \<Rightarrow> nat option) \<Rightarrow> nat \<Rightarrow> nat \<Rightarrow> bool" where
  "names ts index a b = (\<exists>p \<in> set (t_after (ts ! a)). index p = Some b)"

lemma min_by_id_None [simp]: "min_by_id ts ps = None \<longleftrightarrow> ps = []"
  by (cases ps) (auto simp: min_by_id_def)

lemma set_map_filter: "set (List.map_filter f xs) = {y. \<exists>x \<in> set xs. f x = Some y}"
  by (force simp: List.map_filter_def)

lemma following_Some:
  assumes "\<exists>u \<in> set remaining. names ts index a u"
  shows "\<exists>f. following ts index remaining a = Some f \<and> f \<in> set remaining \<and> names ts index a f"
proof -
  let ?ps = "filter (\<lambda>q. q \<in> set remaining) (List.map_filter index (t_after (ts ! a)))"
  have "?ps \<noteq> []" using assms by (force simp: filter_empty_conv set_map_filter names_def)
  then obtain f where "min_by_id ts ?ps = Some f" using min_by_id_None by fastforce
  moreover from this have "f \<in> set ?ps" by (rule min_by_id_in)
  ultimately show ?thesis by (auto simp: following_def set_map_filter names_def)
qed

lemma dropWhile_hd: "f \<in> set path \<Longrightarrow> \<exists>rest. dropWhile (\<lambda>p. p \<noteq> f) path = f # rest"
  by (induction path) auto

lemma cycle_walk_Some:
  assumes "path \<noteq> []" "set path \<subseteq> set remaining" "successively (names ts index) path"
    and "\<forall>d \<in> set remaining. \<exists>u \<in> set remaining. names ts index d u"
  shows "\<exists>c. cycle_walk ts index remaining path = Some c \<and> successively (names ts index) c
    \<and> hd c = last c \<and> 2 \<le> length c \<and> set c \<subseteq> set remaining"
  using assms
proof (induction ts index remaining path rule: cycle_walk.induct)
  case (1 ts index remaining path)
  have "last path \<in> set remaining" using "1.prems" by auto
  then obtain f where f: "following ts index remaining (last path) = Some f" "f \<in> set remaining"
    "names ts index (last path) f"
    using following_Some "1.prems"(4) by blast
  have ext: "successively (names ts index) (path @ [f])"
    using "1.prems" f by (simp add: successively_append_iff)
  show ?case
  proof (cases "f \<in> set path")
    case True
    obtain rest where d: "dropWhile (\<lambda>p. p \<noteq> f) path = f # rest" using dropWhile_hd [OF True] by blast
    have "path @ [f] = takeWhile (\<lambda>p. p \<noteq> f) path @ (f # rest @ [f])" using d by (metis append.assoc append_Cons takeWhile_dropWhile_id)
    then have "successively (names ts index) (f # rest @ [f])"
      using ext by (metis successively_append_iff)
    moreover have "set (f # rest) \<subseteq> set path" using d set_dropWhileD by (metis subsetI)
    ultimately show ?thesis
      using f True d "1.prems"(2) by (simp add: cycle_walk.simps [of ts index remaining path])
  next
    case False
    then show ?thesis
      using "1.IH" [OF f(1) False] ext f "1.prems" by (simp add: cycle_walk.simps [of ts index remaining path])
  qed
qed

lemma graph_new_Cycle:
  assumes "graph_new ts = Inl (Cycle ids)"
  shows "2 \<le> length ids \<and> hd ids = last ids \<and>
    successively (\<lambda>i p. (p, i) \<in> prereq ts) ids"
proof -
  obtain index where ix: "build_index 0 ts (\<lambda>_. None) = Inr index"
  proof (cases "build_index 0 ts (\<lambda>_. None)")
    case (Inl e)
    have "build_index pos us m = Inl e' \<Longrightarrow> \<exists>i. e' = DuplicateId i" for pos us m e'
      by (induction us arbitrary: pos m) (auto split: if_splits)
    then show ?thesis using Inl assms by (fastforce simp: graph_new_def)
  qed
  obtain deps where bd: "build_dependents index 0 ts (replicate (length ts) []) = Inr deps"
  proof (cases "build_dependents index 0 ts (replicate (length ts) [])")
    case (Inl e)
    have ae: "add_edges index pos i ps d = Inl e' \<Longrightarrow> \<nexists>c. e' = Cycle c" for pos i ps d e'
      by (induction ps arbitrary: d) (auto split: option.splits if_splits)
    have "build_dependents index pos us d = Inl e' \<Longrightarrow> \<nexists>c. e' = Cycle c" for pos us d e'
    proof (induction us arbitrary: pos d)
      case (Cons u us)
      then show ?case using ae by (cases "add_edges index pos (t_id u) (t_after u) d") auto
    qed simp
    then show ?thesis using Inl assms ix by (fastforce simp: graph_new_def)
  qed
  let ?rem = "filter (\<lambda>p. p \<notin> set (graph_topo ts deps)) [0 ..< length ts]"
  have lt: "length (graph_topo ts deps) < length ts" and ids: "ids = cycle_ids ts index ?rem"
    using assms ix bd by (auto simp: graph_new_def Let_def split: if_splits)
  have io: "index_ok ts index" by (rule build_index_ok [OF ix])
  have nx: "\<forall>d \<in> set ?rem. \<exists>u \<in> set ?rem. names ts index d u"
  proof
    fix d assume "d \<in> set ?rem"
    then obtain u where "u < length ts" "u \<notin> set (graph_topo ts deps)" "t_id (ts ! u) \<in> set (t_after (ts ! d))"
      using left_over_prereq [OF ix bd, of d] by auto
    then show "\<exists>u \<in> set ?rem. names ts index d u" using io by (auto simp: names_def index_ok_def)
  qed
  have "set (graph_topo ts deps) \<noteq> {..<length ts}" using lt graph_topo_ok [OF ix bd] card_lt_length by blast
  then have "?rem \<noteq> []" using graph_topo_ok [OF ix bd] by (auto simp: filter_empty_conv)
  then obtain start where st: "min_by_id ts ?rem = Some start" using min_by_id_None by fastforce
  then have "start \<in> set ?rem" by (rule min_by_id_in)
  then obtain c where c: "cycle_walk ts index ?rem [start] = Some c" "successively (names ts index) c"
      "hd c = last c" "2 \<le> length c" "set c \<subseteq> set ?rem"
    using cycle_walk_Some [of "[start]" ?rem ts index] nx by auto
  have "ids = map (\<lambda>p. t_id (ts ! p)) c" using ids st c(1) by (simp add: cycle_ids_def cycle_path_def)
  moreover have "successively (\<lambda>a b. (t_id (ts ! b), t_id (ts ! a)) \<in> prereq ts) c"
  proof (rule successively_mono [OF c(2)])
    fix a b assume "a \<in> set c" "b \<in> set c" "names ts index a b"
    then show "(t_id (ts ! b), t_id (ts ! a)) \<in> prereq ts"
      using c(5) io prereqI [of a ts] by (auto simp: names_def index_ok_def)
  qed
  moreover have "c \<noteq> []" using c(4) by auto
  ultimately show ?thesis using c by (simp add: successively_map hd_map last_map)
qed


section \<open>Bottom levels\<close>

lemma topological_split:
  assumes t: "topological n deps (ys @ u # zs)" and edges: "\<forall>d \<in> set (deps u). d < n"
  shows "set (deps u) \<subseteq> set zs"
proof
  fix d assume d: "d \<in> set (deps u)"
  let ?xs = "ys @ u # zs"
  have "d \<in> set ?xs" using d edges t by (auto simp: topological_def)
  then obtain j where j: "j < length ?xs" "?xs ! j = d" by (metis in_set_conv_nth)
  have u: "u < n" using t by (auto simp: topological_def)
  then have tk: "u \<in> set (take j ?xs)" using t d j by (auto simp: topological_def preds_first_def)
  have "length ys < j"
  proof (rule ccontr)
    assume "\<not> length ys < j"
    then have "u \<in> set ys" using tk by (auto dest: in_set_takeD)
    then show False using t by (auto simp: topological_def)
  qed
  then show "d \<in> set zs" using j by (auto simp: nth_append nth_Cons' split: if_splits)
qed

lemma level_of_update:
  assumes "q \<notin> set (deps_at (g_dependents g) p)"
  shows "level_of g (levels[q := v]) p = level_of g levels p"
proof -
  have "map (\<lambda>d. levels[q := v] ! d) (deps_at (g_dependents g) p) = map (\<lambda>d. levels ! d) (deps_at (g_dependents g) p)"
    by (intro map_cong refl) (metis assms nth_list_update_neq)
  then show ?thesis by (simp only: level_of_def)
qed

lemma levels_fold:
  assumes "distinct xs" "set xs \<subseteq> {..<length init}"
    and "\<forall>ys u zs. xs = ys @ u # zs \<longrightarrow> set (deps_at (g_dependents g) u) \<subseteq> set ys"
  defines "run \<equiv> foldl (\<lambda>levels p. levels[p := level_of g levels p]) init"
  shows "length (run xs) = length init \<and> (\<forall>p \<in> set xs. run xs ! p = level_of g (run xs) p)"
  using assms(1-3)
proof (induction xs rule: rev_induct)
  case Nil
  then show ?case by (simp add: run_def)
next
  case (snoc x xs)
  have cl: "\<forall>ys u zs. xs = ys @ u # zs \<longrightarrow> set (deps_at (g_dependents g) u) \<subseteq> set ys"
    using snoc.prems(3) by (metis append.assoc append_Cons)
  have IH: "length (run xs) = length init" "\<forall>p \<in> set xs. run xs ! p = level_of g (run xs) p"
    using snoc.IH snoc.prems cl by auto
  have run: "run (xs @ [x]) = (run xs)[x := level_of g (run xs) x]" by (simp add: run_def)
  have old: "x \<notin> set (deps_at (g_dependents g) p)" if p: "p \<in> set (xs @ [x])" for p
  proof -
    obtain ys zs where s: "xs @ [x] = ys @ p # zs" using p by (metis split_list)
    then have "x \<notin> set ys" using snoc.prems(1) by (cases zs rule: rev_cases) auto
    then show ?thesis using snoc.prems(3) s by blast
  qed
  show ?case using IH old snoc.prems by (auto simp: run level_of_update nth_list_update)
qed

lemma bottom_levels_rec:
  assumes ok: "graph_ok g" and p: "p < length (g_tasks g)"
  shows "length (bottom_levels g) = length (g_tasks g)"
    and "bottom_levels g ! p = level_of g (bottom_levels g) p"
proof -
  let ?n = "length (g_tasks g)" and ?deps = "deps_at (g_dependents g)"
  have tp: "topological ?n ?deps (g_topo g)" and
    ct: "\<forall>u < ?n. \<forall>d. count_list (?deps u) d = (if d < ?n then count_list (t_after (g_tasks g ! d)) (t_id (g_tasks g ! u)) else 0)"
    using ok by (auto simp: graph_ok_def Let_def)
  have edges: "\<forall>d \<in> set (?deps u). d < ?n" if "u < ?n" for u
    using ct that by (metis count_list_0_iff)
  have cl: "\<forall>ys u zs. rev (g_topo g) = ys @ u # zs \<longrightarrow> set (?deps u) \<subseteq> set ys"
  proof (intro allI impI)
    fix ys u zs assume r: "rev (g_topo g) = ys @ u # zs"
    then have e: "g_topo g = rev zs @ u # rev ys" by (metis append.assoc append_Cons append_Nil rev.simps(2) rev_append rev_rev_ident)
    then have "u < ?n" using tp by (auto simp: topological_def)
    then show "set (?deps u) \<subseteq> set ys" using topological_split [OF tp [unfolded e] edges] by simp
  qed
  have st: "distinct (rev (g_topo g))" "set (rev (g_topo g)) = {..<?n}" using tp by (auto simp: topological_def)
  note lf = levels_fold [of "rev (g_topo g)" "replicate ?n f_zero" g, OF st(1) _ cl]
  show "length (bottom_levels g) = ?n" using lf st(2) by (simp add: bottom_levels_def)
  show "bottom_levels g ! p = level_of g (bottom_levels g) p"
    using lf st(2) p by (simp add: bottom_levels_def)
qed

lemma foldl_f_max:
  "\<not> is_nan a \<Longrightarrow> \<not> is_nan (foldl f_max a xs) \<and> f_le a (foldl f_max a xs)
     \<and> (\<forall>x \<in> set xs. \<not> is_nan x \<longrightarrow> f_le x (foldl f_max a xs))"
proof (induction xs arbitrary: a)
  case (Cons x xs)
  have "\<not> is_nan (f_max a x)" using Cons.prems by (simp add: f_max_nan_iff)
  note IH = Cons.IH [OF this]
  have "f_le a (f_max a x)" "\<not> is_nan x \<Longrightarrow> f_le x (f_max a x)"
    using Cons.prems by (auto simp: f_max_def f_le_def f_lt_def)
  then show ?case using IH Cons.prems by (auto intro: f_le_trans)
qed simp


lemma level_of_bounds:
  assumes size: "f_lt f_zero (t_size (g_tasks g ! p))"
  shows "f_le (t_size (g_tasks g ! p)) (level_of g levels p)"
    and "d \<in> set (deps_at (g_dependents g) p) \<Longrightarrow> \<not> is_nan (levels ! d) \<Longrightarrow> f_le (levels ! d) (level_of g levels p)"
proof -
  let ?m = "foldl f_max f_zero (map (\<lambda>d. levels ! d) (deps_at (g_dependents g) p))"
  have m: "\<not> is_nan ?m" "f_le f_zero ?m" using foldl_f_max [of f_zero] by auto
  have s: "f_le f_zero (t_size (g_tasks g ! p))" using size by (rule f_lt_imp_le)
  show "f_le (t_size (g_tasks g ! p)) (level_of g levels p)"
    unfolding level_of_def by (rule f_add_le_left [OF s m(2)])
  assume "d \<in> set (deps_at (g_dependents g) p)" "\<not> is_nan (levels ! d)"
  then have "f_le (levels ! d) ?m" using foldl_f_max [of f_zero] by auto
  then show "f_le (levels ! d) (level_of g levels p)"
    unfolding level_of_def by (rule f_le_trans [OF _ f_add_le_right [OF s m(2)]])
qed

section \<open>Overlapping paths\<close>

text \<open>One path lies at or under another when its components start with the other's.\<close>

lemma prefix_components:
  "prefix (split_on d x) (split_on d y) \<longleftrightarrow> y = x \<or> (\<exists>r. y = x @ d # r)"
proof
  assume "y = x \<or> (\<exists>r. y = x @ d # r)"
  moreover have "split_on d (x @ d # r) = split_on d x @ split_on d r" for r
  proof (induction x)
    case (Cons c x)
    then show ?case by (cases "split_on d x") auto
  qed simp
  ultimately show "prefix (split_on d x) (split_on d y)" by auto
next
  assume "prefix (split_on d x) (split_on d y)"
  then obtain zs where z: "split_on d y = split_on d x @ zs" by (auto simp: prefix_def)
  have app: "xs \<noteq> [] \<Longrightarrow> zs \<noteq> [] \<Longrightarrow> join [d] (xs @ zs) = join [d] xs @ d # join [d] zs" for xs zs
    by (induction "[d]" xs rule: join.induct) (auto simp: neq_Nil_conv)
  have "y = join [d] (split_on d x @ zs)" using z join_split_on by metis
  then show "y = x \<or> (\<exists>r. y = x @ d # r)"
    using app [of "split_on d x" zs] by (cases "zs = []") (auto simp: join_split_on)
qed

definition components :: "string \<Rightarrow> string list" where
  "components p = split_on (CHR ''/'') (trim_end (\<lambda>c. c = CHR ''/'') p)"

lemma overlap_components:
  "overlap a b \<longleftrightarrow> prefix (components a) (components b) \<or> prefix (components b) (components a)"
proof -
  have under: "(case strip_prefix y x of Some (c # _) \<Rightarrow> c = CHR ''/'' | _ \<Rightarrow> False) \<longleftrightarrow> (\<exists>r. x = y @ CHR ''/'' # r)" for x y
    by (auto simp: strip_prefix_Some_iff split: option.splits list.splits)
  show ?thesis
    unfolding overlap_def Let_def under components_def prefix_components by auto
qed

lemma overlap_sym: "overlap a b = overlap b a"
  by (auto simp: overlap_components)

lemma conflict_sym: "conflict a b = conflict b a"
  using overlap_sym by (auto simp: conflict_def list_ex_iff)

section \<open>Properties\<close>

definition sample_task :: "string \<Rightarrow> string list \<Rightarrow> string list \<Rightarrow> task" where
  "sample_task i after files = \<lparr>t_index = 0, t_id = i, t_title = [], t_kind = ''other'', t_tier = 1,
     t_queued = None, t_after = after, t_size = lit 1 1, t_value = lit 1 1, t_files = files\<rparr>"

text \<open>
  C4: \<open>Graph::new\<close> accepts a task list exactly when the ids are distinct, every prerequisite is the id of a
  task of the list, and the prerequisite relation closes no cycle.
\<close>

theorem graph_new_accepts:
  "(\<exists>g. graph_new ts = Inr g) \<longleftrightarrow>
     distinct (map t_id ts) \<and> (\<forall>t \<in> set ts. set (t_after t) \<subseteq> t_id ` set ts) \<and> acyclic (prereq ts)"
proof
  assume "\<exists>g. graph_new ts = Inr g"
  then obtain g where g: "graph_new ts = Inr g" by blast
  note ok = graph_new_Inr [OF g]
  have "index_ok ts (g_index g)" "\<forall>t \<in> set ts. after_ok (g_index g) t" "distinct (map t_id ts)"
    using ok by (auto simp: graph_ok_def Let_def)
  then show "distinct (map t_id ts) \<and> (\<forall>t \<in> set ts. set (t_after t) \<subseteq> t_id ` set ts) \<and> acyclic (prereq ts)"
    using graph_ok_acyclic [OF ok(1)] ok(2) index_ok_dom by (auto simp: after_ok_def)
next
  assume a: "distinct (map t_id ts) \<and> (\<forall>t \<in> set ts. set (t_after t) \<subseteq> t_id ` set ts) \<and> acyclic (prereq ts)"
  then obtain index where ix: "build_index 0 ts (\<lambda>_. None) = Inr index"
    using build_index_distinct by fastforce
  have self: "p \<noteq> t_id t" if "t \<in> set ts" "p \<in> set (t_after t)" for t p
  proof
    assume "p = t_id t"
    then have "(p, p) \<in> prereq ts" using that by (auto simp: prereq_def)
    then show False using a by (auto simp: acyclic_def)
  qed
  have "\<forall>t \<in> set ts. after_ok index t"
    using a self index_ok_dom [OF build_index_ok(2) [OF ix]] by (auto simp: after_ok_def)
  then obtain deps where bd: "build_dependents index 0 ts (replicate (length ts) []) = Inr deps"
    using build_dependents_Inr_iff by blast
  show "\<exists>g. graph_new ts = Inr g"
    using acyclic_complete [OF ix bd] a ix bd by (simp add: graph_new_def Let_def)
qed

theorem graph_new_accepts_witness:
  "acyclic (prereq [sample_task ''b'' [''a'', ''a''] [], sample_task ''a'' [] [], sample_task ''c'' [''b''] []])"
proof -
  have "\<not> isl (graph_new [sample_task ''b'' [''a'', ''a''] [], sample_task ''a'' [] [], sample_task ''c'' [''b''] []])"
    by code_simp
  then have "\<exists>g. graph_new [sample_task ''b'' [''a'', ''a''] [], sample_task ''a'' [] [], sample_task ''c'' [''b''] []] = Inr g"
    by (metis isl_def sum.exhaust)
  then show ?thesis unfolding graph_new_accepts by blast
qed

text \<open>
  C5: the graph that \<open>Graph::new\<close> returns satisfies the invariant: its topological order lists every task once,
  and a task only after all of its prerequisites.
\<close>

theorem graph_new_topological:
  assumes "graph_new ts = Inr g"
  shows "g_tasks g = ts \<and> graph_ok g \<and> distinct (g_topo g) \<and> set (g_topo g) = {..<length ts}
    \<and> (\<forall>i < length ts. \<forall>u < length ts.
         t_id (ts ! u) \<in> set (t_after (ts ! (g_topo g ! i))) \<longrightarrow> u \<in> set (take i (g_topo g)))"
proof -
  note ok = graph_new_Inr [OF assms]
  have tp: "topological (length ts) (deps_at (g_dependents g)) (g_topo g)"
    using ok by (simp add: graph_ok_def Let_def)
  have len: "length (g_topo g) = length ts"
    using tp distinct_card [of "g_topo g"] by (simp add: topological_def)
  have "u \<in> set (take i (g_topo g))"
    if "i < length ts" "u < length ts" "t_id (ts ! u) \<in> set (t_after (ts ! (g_topo g ! i)))" for i u
  proof -
    have "g_topo g ! i < length ts" using tp that(1) len by (metis lessThan_iff nth_mem topological_def)
    then have "g_topo g ! i \<in> set (deps_at (g_dependents g) u)"
      using that ok graph_ok_edge [of g u "g_topo g ! i"] by simp
    then show ?thesis using tp that len by (simp add: topological_def preds_first_def)
  qed
  then show ?thesis using ok tp by (simp add: topological_def)
qed

theorem graph_new_topological_witness:
  "\<exists>g. graph_new [sample_task ''b'' [''a''] [], sample_task ''a'' [] []] = Inr g \<and> graph_ok g \<and> g_topo g = [1, 0]"
proof -
  have e: "(case graph_new [sample_task ''b'' [''a''] [], sample_task ''a'' [] []] of Inr g \<Rightarrow> g_topo g = [1, 0] | _ \<Rightarrow> False)"
    by code_simp
  then obtain g where g: "graph_new [sample_task ''b'' [''a''] [], sample_task ''a'' [] []] = Inr g" "g_topo g = [1, 0]"
    by (auto split: sum.splits)
  then show ?thesis using graph_new_topological [OF g(1)] by blast
qed

text \<open>
  C6: the cycle an error reports is a cycle of the task list: it has at least one step, it ends where it
  starts, and each id on it names the next one as its prerequisite.
\<close>

theorem graph_new_cycle_is_real:
  assumes "graph_new ts = Inl (Cycle ids)"
  shows "2 \<le> length ids \<and> hd ids = last ids \<and> (\<forall>i. Suc i < length ids \<longrightarrow> (ids ! Suc i, ids ! i) \<in> prereq ts)"
  using graph_new_Cycle [OF assms] by (simp add: successively_conv_nth)

theorem graph_new_cycle_is_real_witness:
  "let ts = [sample_task ''b'' [''a''] [], sample_task ''a'' [''b''] [], sample_task ''c'' [''a''] []] in
   graph_new ts = Inl (Cycle [''a'', ''b'', ''a'']) \<and> (''b'', ''a'') \<in> prereq ts"
proof -
  have "(case graph_new [sample_task ''b'' [''a''] [], sample_task ''a'' [''b''] [], sample_task ''c'' [''a''] []] of
      Inl (Cycle ids) \<Rightarrow> ids = [''a'', ''b'', ''a''] | _ \<Rightarrow> False)"
    by code_simp
  then have g: "graph_new [sample_task ''b'' [''a''] [], sample_task ''a'' [''b''] [], sample_task ''c'' [''a''] []]
      = Inl (Cycle [''a'', ''b'', ''a''])"
    by (auto split: sum.splits graph_error.splits)
  have "(''b'', ''a'') \<in> prereq [sample_task ''b'' [''a''] [], sample_task ''a'' [''b''] [], sample_task ''c'' [''a''] []]"
    using graph_new_cycle_is_real [OF g, THEN conjunct2, THEN conjunct2, rule_format, of 0] by simp
  with g show ?thesis by simp
qed

text \<open>
  C7: bottom levels solve their defining equation (own size plus the largest level among the dependents), and a
  level is never below the size of its task or the level of a dependent, whatever rounding does.
\<close>

theorem bottom_levels_correct:
  assumes "graph_ok g" "p < length (g_tasks g)" "\<forall>t \<in> set (g_tasks g). f_lt f_zero (t_size t)"
  shows "bottom_levels g ! p = level_of g (bottom_levels g) p
    \<and> f_le (t_size (g_tasks g ! p)) (bottom_levels g ! p)
    \<and> (\<forall>d \<in> set (deps_at (g_dependents g) p). f_le (bottom_levels g ! d) (bottom_levels g ! p))"
proof -
  have size: "f_lt f_zero (t_size (g_tasks g ! q))" if "q < length (g_tasks g)" for q using that assms(3) by simp
  have nan: "\<not> is_nan (bottom_levels g ! q)" if "q < length (g_tasks g)" for q
    using level_of_bounds(1) [OF size [OF that]] bottom_levels_rec(2) [OF assms(1) that] by (simp add: f_le_def)
  have edges: "d < length (g_tasks g)" if "d \<in> set (deps_at (g_dependents g) p)" for d
    using that assms(1,2) by (simp add: graph_ok_def Let_def) (metis count_list_0_iff)
  show ?thesis
    using bottom_levels_rec(2) [OF assms(1,2)] level_of_bounds [OF size [OF assms(2)]] nan edges by metis
qed

theorem bottom_levels_correct_witness:
  "\<exists>g. graph_new [sample_task ''b'' [''a''] [], sample_task ''a'' [] []] = Inr g
     \<and> bottom_levels g ! 1 = level_of g (bottom_levels g) 1 \<and> bottom_levels g = [lit 1 1, lit 2 1]"
proof -
  have e: "(case graph_new [sample_task ''b'' [''a''] [], sample_task ''a'' [] []] of
      Inr g \<Rightarrow> bottom_levels g = [lit 1 1, lit 2 1] | _ \<Rightarrow> False)"
    by code_simp
  then obtain g where g: "graph_new [sample_task ''b'' [''a''] [], sample_task ''a'' [] []] = Inr g"
      "bottom_levels g = [lit 1 1, lit 2 1]"
    by (auto split: sum.splits)
  then have "bottom_levels g ! 1 = level_of g (bottom_levels g) 1"
    using bottom_levels_correct [of g 1] graph_new_Inr [OF g(1)] by (simp add: sample_task_def f_one_pos)
  with g show ?thesis by blast
qed

text \<open>
  C8: two paths overlap exactly when the components of one, split at slashes with trailing slashes ignored, start
  with the components of the other; overlap and conflict are symmetric.
\<close>

theorem overlap_is_component_prefix:
  "(overlap a b \<longleftrightarrow> prefix (components a) (components b) \<or> prefix (components b) (components a))
   \<and> overlap a b = overlap b a \<and> conflict s t = conflict t s"
  using overlap_components overlap_sym conflict_sym by blast

end
