(* ===== verification/Order.thy ===== *)
theory Order
  imports Graph
begin

text \<open>
  Ordering policies (\<open>crates/agora-sched/src/order.rs\<close>): the priority key of a task, inheritance of the smallest
  key along dependents, and the order of one agent. The binary heap is a list whose \<open>pop\<close> takes the first
  smallest element; that the order is topological holds for any heap discipline, since it only uses the
  work-list laws.
\<close>

section \<open>Definitions\<close>

datatype order_policy = Fifo | Wsjf | CriticalPath

definition policy_parse :: "string \<Rightarrow> order_policy option" where
  "policy_parse s =
     (if s = ''fifo'' then Some Fifo
      else if s = ''wsjf'' then Some Wsjf
      else if s = ''critical-path'' then Some CriticalPath
      else None)"

definition policy_as_str :: "order_policy \<Rightarrow> string" where
  "policy_as_str p = (case p of Fifo \<Rightarrow> ''fifo'' | Wsjf \<Rightarrow> ''wsjf'' | CriticalPath \<Rightarrow> ''critical-path'')"

record key =
  k_tier :: nat
  k_score :: f64
  k_arrival_class :: nat
  k_queued :: "queued option"
  k_index :: nat

definition cmp_f64 :: "f64 \<Rightarrow> f64 \<Rightarrow> ordering" where
  "cmp_f64 a b = (case f_partial_cmp a b of Some c \<Rightarrow> c | None \<Rightarrow> Equal)"

fun cmp_queued :: "queued option \<Rightarrow> queued option \<Rightarrow> ordering" where
  "cmp_queued None None = Equal"
| "cmp_queued None (Some _) = Greater"
| "cmp_queued (Some _) None = Less"
| "cmp_queued (Some (QText x)) (Some (QText y)) = cmp x y"
| "cmp_queued (Some (QText _)) (Some _) = Greater"
| "cmp_queued (Some _) (Some (QText _)) = Less"
| "cmp_queued (Some (QInt x)) (Some (QInt y)) = cmp x y"
| "cmp_queued (Some (QInt x)) (Some (QFloat y)) = cmp_f64 (f_of_int x) y"
| "cmp_queued (Some (QFloat x)) (Some (QInt y)) = cmp_f64 x (f_of_int y)"
| "cmp_queued (Some (QFloat x)) (Some (QFloat y)) = cmp_f64 x y"

definition cmp_key :: "key \<Rightarrow> key \<Rightarrow> ordering" where
  "cmp_key a b =
     then_with (cmp (k_tier a) (k_tier b))
       (then_with (cmp_f64 (k_score a) (k_score b))
         (then_with (cmp (k_arrival_class a) (k_arrival_class b))
           (then_with (cmp_queued (k_queued a) (k_queued b))
             (cmp (k_index a) (k_index b)))))"

definition own_key :: "task \<Rightarrow> f64 \<Rightarrow> order_policy \<Rightarrow> key" where
  "own_key t level policy =
     \<lparr>k_tier = t_tier t,
      k_score = (case policy of
          Fifo \<Rightarrow> f_zero
        | Wsjf \<Rightarrow> f_div (f_uminus (t_value t)) (t_size t)
        | CriticalPath \<Rightarrow> f_uminus level),
      k_arrival_class = (if t_queued t = None then 1 else 0),
      k_queued = t_queued t,
      k_index = t_index t\<rparr>"

definition inherit_step :: "nat \<Rightarrow> key list \<times> nat option list \<Rightarrow> nat \<Rightarrow> key list \<times> nat option list" where
  "inherit_step p st d = (case st of (effective, source) \<Rightarrow>
     if d < length effective \<and> p < length effective \<and> cmp_key (effective ! d) (effective ! p) = Less
     then (effective[p := effective ! d],
           source[p := (case source ! d of Some s \<Rightarrow> Some s | None \<Rightarrow> Some d)])
     else (effective, source))"

definition inherit :: "graph \<Rightarrow> key list \<Rightarrow> key list \<times> nat option list" where
  "inherit g own =
     foldl (\<lambda>st p. foldl (inherit_step p) st (deps_at (g_dependents g) p))
       (own, replicate (length own) None) (rev (g_topo g))"

text \<open>The heap: \<open>pop\<close> takes the first smallest element.\<close>

definition smallest :: "('a \<Rightarrow> 'a \<Rightarrow> ordering) \<Rightarrow> 'a \<Rightarrow> 'a list \<Rightarrow> 'a" where
  "smallest c x xs = foldl (\<lambda>b y. if c y b = Less then y else b) x xs"

definition pop_min :: "('a \<Rightarrow> 'a \<Rightarrow> ordering) \<Rightarrow> 'a list \<Rightarrow> ('a \<times> 'a list) option" where
  "pop_min c q = (case q of [] \<Rightarrow> None | x # xs \<Rightarrow> let m = smallest c x xs in Some (m, remove1 m q))"

definition ready_cmp :: "graph \<Rightarrow> key list \<Rightarrow> nat \<Rightarrow> nat \<Rightarrow> ordering" where
  "ready_cmp g effective a b =
     then_with (cmp_key (effective ! a) (effective ! b)) (cmp (t_id (g_tasks g ! a)) (t_id (g_tasks g ! b)))"

definition distinct_after :: "graph \<Rightarrow> nat list" where
  "distinct_after g = map (\<lambda>t. length (remdups (t_after t))) (g_tasks g)"

definition ready_at_start :: "graph \<Rightarrow> nat list" where
  "ready_at_start g = filter (\<lambda>p. distinct_after g ! p = 0) [0 ..< length (g_tasks g)]"

definition distinct_deps :: "graph \<Rightarrow> nat \<Rightarrow> nat list" where
  "distinct_deps g p = remdups (deps_at (g_dependents g) p)"

definition kahn :: "graph \<Rightarrow> key list \<Rightarrow> nat list" where
  "kahn g effective =
     kahn_loop (pop_min (ready_cmp g effective)) push_stack (distinct_deps g) (length (g_tasks g))
       (ready_at_start g) (distinct_after g) []"

record ordered =
  o_order :: "nat list"
  o_effective :: "key list"
  o_source :: "nat option list"

definition own_keys :: "graph \<Rightarrow> order_policy \<Rightarrow> key list" where
  "own_keys g policy = map (\<lambda>(t, level). own_key t level policy) (zip (g_tasks g) (bottom_levels g))"

definition order :: "graph \<Rightarrow> order_policy \<Rightarrow> ordered" where
  "order g policy =
     (let (effective, source) = inherit g (own_keys g policy)
      in \<lparr>o_order = kahn g effective, o_effective = effective, o_source = source\<rparr>)"

section \<open>The heap is a work list\<close>

lemma smallest_in: "smallest c x xs \<in> set (x # xs)"
proof -
  have "foldl (\<lambda>b y. if c y b = Less then y else b) b ys \<in> insert b (set ys)" for b ys
    by (induction ys arbitrary: b) (auto split: if_splits)
  then show ?thesis by (simp add: smallest_def)
qed

interpretation heap: worklist mset "pop_min c" push_stack for c
proof
  fix q :: "nat list" and x q'
  show "pop_min c q = None \<longleftrightarrow> mset q = {#}" by (simp add: pop_min_def Let_def split: list.split)
  show "mset (push_stack x q) = add_mset x (mset q)" by (simp add: push_stack_def)
  assume p: "pop_min c q = Some (x, q')"
  then obtain y ys where q: "q = y # ys" by (cases q) (auto simp: pop_min_def)
  have "x \<in> set q" "q' = remove1 x q"
    using p smallest_in [of c y ys] by (auto simp only: q pop_min_def list.case Let_def option.inject prod.inject)
  then show "mset q = add_mset x (mset q')" by simp
qed

lemma topological_distinct_deps:
  "topological n (distinct_deps g) xs = topological n (deps_at (g_dependents g)) xs"
  by (simp add: distinct_deps_def topological_def preds_first_def)

lemma heap_ready_ok:
  assumes ok: "graph_ok g"
  shows "kahn_inv (length (g_tasks g)) (distinct_deps g) (set []) [] (mset (ready_at_start g)) (distinct_after g)"
    and "\<forall>u < length (g_tasks g). \<forall>d \<in> set (distinct_deps g u). d < length (g_tasks g)"
proof -
  let ?ts = "g_tasks g" and ?n = "length (g_tasks g)"
  have ids: "distinct (map t_id ?ts)" and io: "index_ok ?ts (g_index g)"
    and af: "\<forall>t \<in> set ?ts. after_ok (g_index g) t"
    and ct: "\<forall>u < ?n. \<forall>d. count_list (deps_at (g_dependents g) u) d =
      (if d < ?n then count_list (t_after (?ts ! d)) (t_id (?ts ! u)) else 0)"
    using ok by (auto simp: graph_ok_def Let_def)
  show e: "\<forall>u < ?n. \<forall>d \<in> set (distinct_deps g u). d < ?n"
    using ct by (auto simp: distinct_deps_def) (metis count_list_0_iff)
  have c1: "count_list (remdups xs) x = (if x \<in> set xs then 1 else 0)" for xs :: "'z list" and x
    by (induction xs) auto
  have deg: "open_degree ?n (distinct_deps g) {} d = length (remdups (t_after (?ts ! d)))" if d: "d < ?n" for d
  proof -
    have known: "set (remdups (t_after (?ts ! d))) \<subseteq> set (map t_id ?ts)"
      using af d index_ok_dom [OF io] by (auto simp: after_ok_def)
    have "count_list (distinct_deps g u) d = count_list (remdups (t_after (?ts ! d))) (map t_id ?ts ! u)" if "u < ?n" for u
      using that d graph_ok_edge [OF ok that d] by (simp add: distinct_deps_def c1)
    then show ?thesis using sum_count_list [OF ids known] by (simp add: open_degree_def)
  qed
  show "kahn_inv ?n (distinct_deps g) (set []) [] (mset (ready_at_start g)) (distinct_after g)"
    using deg by (auto simp: kahn_inv_def ready_at_start_def distinct_after_def count_filter_upt simp del: mset_filter)
qed

lemma acyclic_left_over:
  assumes "topological n deps xs" "set r \<subseteq> {..<n}"
    and "\<forall>d < n. d \<notin> set r \<longrightarrow> (\<exists>u < n. u \<notin> set r \<and> d \<in> set (deps u))"
  shows "set r = {..<n}"
proof (rule ccontr)
  assume "set r \<noteq> {..<n}"
  then obtain d where d: "d < n" "d \<notin> set r" using assms(2) by auto
  let ?E = "{(u, d). u < n \<and> d \<in> set (deps u) \<and> d < n}"
  have "?E \<subseteq> {..<n} \<times> {..<n}" by auto
  then have "finite ?E" by (rule finite_subset) simp
  moreover have "acyclic ?E" by (rule acyclic_subset [OF topological_acyclic [OF assms(1)]]) auto
  ultimately have wf: "wf ?E" by (rule finite_acyclic_wf)
  have "d \<in> {d. d < n \<and> d \<notin> set r}" using d by simp
  from wfE_min [OF wf this] obtain m where m: "m < n" "m \<notin> set r"
    "\<And>y. (y, m) \<in> ?E \<Longrightarrow> y \<notin> {d. d < n \<and> d \<notin> set r}" by blast
  then obtain u where "u < n" "u \<notin> set r" "m \<in> set (deps u)" using assms(3) by blast
  then show False using m by auto
qed

lemma kahn_topological:
  assumes ok: "graph_ok g"
  shows "topological (length (g_tasks g)) (deps_at (g_dependents g)) (kahn g effective)"
proof -
  let ?n = "length (g_tasks g)" and ?r = "kahn g effective"
  note h = heap_ready_ok [OF ok]
  have r: "distinct ?r \<and> set ?r \<subseteq> {..<?n} \<and> preds_first ?n (distinct_deps g) ?r
    \<and> (\<forall>d < ?n. d \<notin> set ?r \<longrightarrow> (\<exists>u < ?n. u \<notin> set ?r \<and> d \<in> set (distinct_deps g u)))"
    by (rule heap.kahn_loop_ok [OF h(1) _ _ h(2)]) (simp_all add: preds_first_def kahn_def)
  have tp: "topological ?n (distinct_deps g) (g_topo g)"
    using ok by (simp add: graph_ok_def Let_def topological_distinct_deps)
  have "set ?r = {..<?n}" by (rule acyclic_left_over [OF tp]) (use r in auto)
  then have "topological ?n (distinct_deps g) ?r" using r by (simp add: topological_def)
  then show ?thesis by (simp add: topological_distinct_deps)
qed

section \<open>Inheritance\<close>

text \<open>A comparator that is a total preorder on a set of values.\<close>

definition cmp_total_on :: "('a \<Rightarrow> 'a \<Rightarrow> ordering) \<Rightarrow> 'a set \<Rightarrow> bool" where
  "cmp_total_on c K = (\<exists>d. total_cmp d \<and> (\<forall>x \<in> K. \<forall>y \<in> K. c x y = d x y))"

lemma cmp_total_on_trans:
  "cmp_total_on c K \<Longrightarrow> x \<in> K \<Longrightarrow> y \<in> K \<Longrightarrow> z \<in> K \<Longrightarrow> c x y \<noteq> Greater \<Longrightarrow> c y z \<noteq> Greater \<Longrightarrow> c x z \<noteq> Greater"
  unfolding cmp_total_on_def by (metis total_cmp.trans)

lemma cmp_total_on_refl: "cmp_total_on c K \<Longrightarrow> x \<in> K \<Longrightarrow> c x x = Equal"
  unfolding cmp_total_on_def by (metis total_cmp.refl)

lemma cmp_total_on_less_trans:
  "cmp_total_on c K \<Longrightarrow> x \<in> K \<Longrightarrow> y \<in> K \<Longrightarrow> z \<in> K \<Longrightarrow> c x y = Less \<Longrightarrow> c y z \<noteq> Greater \<Longrightarrow> c x z = Less"
  unfolding cmp_total_on_def by (metis total_cmp.less_trans)

lemma cmp_total_on_le_less_trans:
  "cmp_total_on c K \<Longrightarrow> x \<in> K \<Longrightarrow> y \<in> K \<Longrightarrow> z \<in> K \<Longrightarrow> c x y \<noteq> Greater \<Longrightarrow> c y z = Less \<Longrightarrow> c x z = Less"
  unfolding cmp_total_on_def by (metis total_cmp.le_less_trans)

lemma cmp_total_on_flip:
  "cmp_total_on c K \<Longrightarrow> x \<in> K \<Longrightarrow> y \<in> K \<Longrightarrow> c y x = rev_ordering (c x y)"
  unfolding cmp_total_on_def by (metis total_cmp.flip)

text \<open>The descendants of a task: everything that waits for it, directly or not, and itself.\<close>

definition descendants :: "graph \<Rightarrow> (nat \<times> nat) set" where
  "descendants g = {(u, d). u < length (g_tasks g) \<and> d \<in> set (deps_at (g_dependents g) u)}\<^sup>*"

definition source_of :: "nat option list \<Rightarrow> nat \<Rightarrow> nat" where
  "source_of source p = (case source ! p of Some s \<Rightarrow> s | None \<Rightarrow> p)"

lemma inherit_fold:
  assumes tot: "cmp_total_on cmp_key K" and K: "set eff \<subseteq> K"
    and len: "p < length eff" "length source = length eff"
    and ds: "\<forall>d \<in> set ds. d < length eff \<and> d \<noteq> p"
    and r: "foldl (inherit_step p) (eff, source) ds = (eff', source')"
  shows "length eff' = length eff \<and> length source' = length eff \<and> set eff' \<subseteq> K
    \<and> (\<forall>q. q \<noteq> p \<longrightarrow> eff' ! q = eff ! q \<and> source' ! q = source ! q)
    \<and> cmp_key (eff' ! p) (eff ! p) \<noteq> Greater
    \<and> (\<forall>d \<in> set ds. cmp_key (eff' ! p) (eff ! d) \<noteq> Greater)
    \<and> (eff' ! p = eff ! p \<and> source' ! p = source ! p
       \<or> (\<exists>d \<in> set ds. eff' ! p = eff ! d \<and> source' ! p = Some (source_of source d) \<and> cmp_key (eff' ! p) (eff ! p) = Less))"
  using K len ds r
proof (induction ds arbitrary: eff source)
  case Nil
  then have "cmp_key (eff ! p) (eff ! p) = Equal" using cmp_total_on_refl [OF tot] by (meson nth_mem subsetD)
  then show ?case using Nil by auto
next
  case (Cons d ds)
  have pK: "eff ! p \<in> K" "eff ! d \<in> K" using Cons.prems by (auto intro: subsetD [OF Cons.prems(1)])
  show ?case
  proof (cases "cmp_key (eff ! d) (eff ! p) = Less")
    case False
    then have "inherit_step p (eff, source) d = (eff, source)" by (simp add: inherit_step_def)
    then have r: "foldl (inherit_step p) (eff, source) ds = (eff', source')" using Cons.prems by simp
    note IH = Cons.IH [OF Cons.prems(1,2,3) _ r]
    have ih: "length eff' = length eff \<and> length source' = length eff \<and> set eff' \<subseteq> K
      \<and> (\<forall>q. q \<noteq> p \<longrightarrow> eff' ! q = eff ! q \<and> source' ! q = source ! q)
      \<and> cmp_key (eff' ! p) (eff ! p) \<noteq> Greater
      \<and> (\<forall>d \<in> set ds. cmp_key (eff' ! p) (eff ! d) \<noteq> Greater)
      \<and> (eff' ! p = eff ! p \<and> source' ! p = source ! p
         \<or> (\<exists>d \<in> set ds. eff' ! p = eff ! d \<and> source' ! p = Some (source_of source d) \<and> cmp_key (eff' ! p) (eff ! p) = Less))"
      using IH Cons.prems by simp
    have "cmp_key (eff ! p) (eff ! d) \<noteq> Greater"
      using False cmp_total_on_flip [OF tot pK(2,1)] by auto
    moreover have "eff' ! p \<in> K" using ih Cons.prems(2) by (metis nth_mem subsetD)
    ultimately have "cmp_key (eff' ! p) (eff ! d) \<noteq> Greater"
      using cmp_total_on_trans [OF tot _ pK] ih by blast
    then show ?thesis using ih by auto
  next
    case True
    let ?e = "eff[p := eff ! d]" and ?s = "source[p := Some (source_of source d)]"
    have st: "inherit_step p (eff, source) d = (?e, ?s)"
      using True Cons.prems by (auto simp: inherit_step_def source_of_def split: option.split)
    then have r: "foldl (inherit_step p) (?e, ?s) ds = (eff', source')" using Cons.prems by simp
    have eK: "set ?e \<subseteq> K" using Cons.prems(1) pK(2) by (meson set_update_subset_insert insert_subset subset_trans)
    have len: "p < length ?e" "length ?s = length ?e" and dl: "\<forall>d \<in> set ds. d < length ?e \<and> d \<noteq> p"
      using Cons.prems by auto
    note ih = Cons.IH [OF eK len dl r]
    have same: "?e ! p = eff ! d" "?s ! p = Some (source_of source d)"
      "\<And>q. q \<noteq> p \<Longrightarrow> ?e ! q = eff ! q" "\<And>q. q \<noteq> p \<Longrightarrow> ?s ! q = source ! q"
      "\<And>q. q \<noteq> p \<Longrightarrow> source_of ?s q = source_of source q"
      using Cons.prems(2,3) by (auto simp: source_of_def)
    have e'K: "eff' ! p \<in> K" using ih len(1) by (metis nth_mem subsetD)
    have le: "cmp_key (eff' ! p) (eff ! d) \<noteq> Greater" using ih same(1) by simp
    have lt: "cmp_key (eff' ! p) (eff ! p) = Less"
      by (rule cmp_total_on_le_less_trans [OF tot e'K pK(2,1) le True])
    have ds': "d' \<noteq> p" if "d' \<in> set ds" for d' using that dl by blast
    have "eff' ! p = eff ! d \<and> source' ! p = Some (source_of source d)
        \<or> (\<exists>d' \<in> set ds. eff' ! p = eff ! d' \<and> source' ! p = Some (source_of source d'))"
      using ih same ds' by metis
    then have "\<exists>d' \<in> set (d # ds). eff' ! p = eff ! d' \<and> source' ! p = Some (source_of source d') \<and> cmp_key (eff' ! p) (eff ! p) = Less"
      using lt by auto
    moreover have "\<forall>q. q \<noteq> p \<longrightarrow> eff' ! q = eff ! q \<and> source' ! q = source ! q" using ih same by simp
    moreover have "\<forall>d' \<in> set (d # ds). cmp_key (eff' ! p) (eff ! d') \<noteq> Greater" using ih le same ds' by auto
    ultimately show ?thesis using ih lt by simp
  qed
qed


text \<open>What inheritance gives one task: the least own key among its descendants, and where it came from.\<close>

definition inherited :: "graph \<Rightarrow> key list \<Rightarrow> key list \<Rightarrow> nat option list \<Rightarrow> nat \<Rightarrow> bool" where
  "inherited g own eff source p =
     ((p, source_of source p) \<in> descendants g \<and> source_of source p < length own
      \<and> eff ! p = own ! source_of source p
      \<and> (source ! p \<noteq> None \<longrightarrow> cmp_key (eff ! p) (own ! p) = Less)
      \<and> (\<forall>q < length own. (p, q) \<in> descendants g \<longrightarrow> cmp_key (eff ! p) (own ! q) \<noteq> Greater))"

lemma descendants_refl: "(p, p) \<in> descendants g"
  by (simp add: descendants_def)

lemma descendants_step:
  "p < length (g_tasks g) \<Longrightarrow> d \<in> set (deps_at (g_dependents g) p) \<Longrightarrow> (d, q) \<in> descendants g \<Longrightarrow> (p, q) \<in> descendants g"
  unfolding descendants_def by (rule converse_rtrancl_into_rtrancl) auto

lemma descendants_cases:
  assumes "(p, q) \<in> descendants g"
  obtains "q = p" | d where "d \<in> set (deps_at (g_dependents g) p)" "(d, q) \<in> descendants g"
  using assms unfolding descendants_def by (auto elim: converse_rtranclE)

lemma inherited_cong:
  "eff' ! p = eff ! p \<Longrightarrow> source' ! p = source ! p \<Longrightarrow> inherited g own eff' source' p = inherited g own eff source p"
  by (simp add: inherited_def source_of_def)

lemma inherit_node:
  assumes tot: "cmp_total_on cmp_key (set own)" and K: "set eff \<subseteq> set own"
    and len: "length eff = length own" "length source = length own" "length (g_tasks g) = length own" "p < length own"
    and own: "eff ! p = own ! p" "source ! p = None"
    and ds: "\<forall>d \<in> set (deps_at (g_dependents g) p). d < length own \<and> d \<noteq> p \<and> inherited g own eff source d"
    and r: "foldl (inherit_step p) (eff, source) (deps_at (g_dependents g) p) = (eff', source')"
  shows "inherited g own eff' source' p"
proof -
  let ?ds = "deps_at (g_dependents g) p"
  have dl: "\<forall>d \<in> set ?ds. d < length eff \<and> d \<noteq> p" using ds len by simp
  note f = inherit_fold [OF tot K _ _ dl r, unfolded len, OF len(4)]
  have e'K: "eff' ! p \<in> set own" using f len by (metis nth_mem subsetD)
  have min: "cmp_key (eff' ! p) (own ! q) \<noteq> Greater" if q: "q < length own" "(p, q) \<in> descendants g" for q
    using q(2)
  proof (cases rule: descendants_cases)
    case 1
    then show ?thesis using f own by simp
  next
    case (2 d)
    then have "cmp_key (eff ! d) (own ! q) \<noteq> Greater" "eff ! d \<in> set own"
      using ds q(1) K len by (auto simp: inherited_def)
    then show ?thesis using cmp_total_on_trans [OF tot e'K, of "eff ! d" "own ! q"] f 2(1) q(1) by auto
  qed
  have "(p, source_of source' p) \<in> descendants g \<and> source_of source' p < length own
      \<and> eff' ! p = own ! source_of source' p \<and> (source' ! p \<noteq> None \<longrightarrow> cmp_key (eff' ! p) (own ! p) = Less)"
  proof (cases "eff' ! p = eff ! p \<and> source' ! p = source ! p")
    case True
    then show ?thesis using own len by (simp add: source_of_def descendants_refl)
  next
    case False
    then obtain d where d: "d \<in> set ?ds" "eff' ! p = eff ! d" "source' ! p = Some (source_of source d)"
      "cmp_key (eff' ! p) (eff ! p) = Less" using f by auto
    then have src: "source_of source' p = source_of source d" by (simp add: source_of_def)
    show ?thesis using d ds own descendants_step [of p g d] len by (auto simp: src inherited_def)
  qed
  with min show ?thesis unfolding inherited_def by blast
qed

lemma inherit_prefix:
  assumes tot: "cmp_total_on cmp_key (set own)" and n: "length (g_tasks g) = length own"
    and "distinct xs" "set xs \<subseteq> {..<length own}"
    and "\<forall>ys u zs. xs = ys @ u # zs \<longrightarrow> set (deps_at (g_dependents g) u) \<subseteq> set ys"
    and "foldl (\<lambda>st p. foldl (inherit_step p) st (deps_at (g_dependents g) p)) (own, replicate (length own) None) xs
      = (eff, source)"
  shows "length eff = length own \<and> length source = length own \<and> set eff \<subseteq> set own
    \<and> (\<forall>p < length own. p \<notin> set xs \<longrightarrow> eff ! p = own ! p \<and> source ! p = None)
    \<and> (\<forall>p \<in> set xs. inherited g own eff source p)"
  using assms(3-6)
proof (induction xs arbitrary: eff source rule: rev_induct)
  case (snoc x xs)
  obtain e s where st: "foldl (\<lambda>st p. foldl (inherit_step p) st (deps_at (g_dependents g) p))
      (own, replicate (length own) None) xs = (e, s)" by force
  have cl: "\<forall>ys u zs. xs = ys @ u # zs \<longrightarrow> set (deps_at (g_dependents g) u) \<subseteq> set ys"
    using snoc.prems(3) by (metis append.assoc append_Cons)
  note IH = snoc.IH [OF _ _ cl st]
  have ih: "length e = length own" "length s = length own" "set e \<subseteq> set own"
    "\<forall>p < length own. p \<notin> set xs \<longrightarrow> e ! p = own ! p \<and> s ! p = None" "\<forall>p \<in> set xs. inherited g own e s p"
    using IH snoc.prems by auto
  have x: "x < length own" "x \<notin> set xs" using snoc.prems by auto
  have sub: "set (deps_at (g_dependents g) x) \<subseteq> set xs" using snoc.prems(3) by blast
  have ds: "\<forall>d \<in> set (deps_at (g_dependents g) x). d < length own \<and> d \<noteq> x \<and> inherited g own e s d"
    using sub x ih(5) snoc.prems(2) by auto
  have r: "foldl (inherit_step x) (e, s) (deps_at (g_dependents g) x) = (eff, source)" using snoc.prems(4) st by simp
  have new: "inherited g own eff source x"
    by (rule inherit_node [OF tot ih(3) ih(1) ih(2) n x(1) _ _ ds r]) (use ih(4) x in auto)
  have dl: "\<forall>d \<in> set (deps_at (g_dependents g) x). d < length e \<and> d \<noteq> x" using ds ih(1) by simp
  have f: "length eff = length own" "length source = length own" "set eff \<subseteq> set own"
    "\<forall>q. q \<noteq> x \<longrightarrow> eff ! q = e ! q \<and> source ! q = s ! q"
    using inherit_fold [OF tot ih(3) _ _ dl r] x ih(1,2) by auto
  have "inherited g own eff source p" if "p \<in> set xs" for p
    using inherited_cong [of eff p e source s] f(4) ih(5) that x(2) by metis
  then show ?case using f new ih(4) x(2) by auto
qed auto


section \<open>When the comparator is a total order\<close>

text \<open>
  \<open>cmp_key\<close> is a total preorder on keys whose scores are numbers and whose arrivals are of one kind: all
  integers, all floats that are numbers, or all text. Mixed integers and floats are compared through
  \<open>f64\<close>, which is not transitive above \<open>2 ^ 53\<close>.
\<close>

definition queued_kind :: "queued option \<Rightarrow> nat option" where
  "queued_kind q = (case q of
     None \<Rightarrow> None | Some (QInt _) \<Rightarrow> Some 0 | Some (QFloat _) \<Rightarrow> Some 1 | Some (QText _) \<Rightarrow> Some 2)"

definition keys_comparable :: "key list \<Rightarrow> bool" where
  "keys_comparable ks =
     (list_all (\<lambda>k. \<not> is_nan (k_score k)) ks
      \<and> list_all (\<lambda>k. case k_queued k of Some (QFloat x) \<Rightarrow> \<not> is_nan x | _ \<Rightarrow> True) ks
      \<and> length (remdups (List.map_filter (\<lambda>k. queued_kind (k_queued k)) ks)) \<le> 1)"

definition queued_num :: "queued option \<Rightarrow> int" where
  "queued_num q = (case q of Some (QInt i) \<Rightarrow> i | Some (QFloat x) \<Rightarrow> f_key x | _ \<Rightarrow> 0)"

definition queued_txt :: "queued option \<Rightarrow> string" where
  "queued_txt q = (case q of Some (QText t) \<Rightarrow> t | _ \<Rightarrow> [])"

definition total_key :: "key \<Rightarrow> key \<Rightarrow> ordering" where
  "total_key a b =
     then_with (cmp (k_tier a) (k_tier b))
       (then_with (cmp (f_key (k_score a)) (f_key (k_score b)))
         (then_with (cmp (k_arrival_class a) (k_arrival_class b))
           (then_with (then_with (cmp (k_queued a = None) (k_queued b = None))
             (then_with (cmp (queued_num (k_queued a)) (queued_num (k_queued b)))
               (cmp (queued_txt (k_queued a)) (queued_txt (k_queued b)))))
             (cmp (k_index a) (k_index b)))))"

lemma total_cmp_total_key [order_rules]: "total_cmp total_key"
  unfolding total_key_def
  by (intro total_cmp_then total_cmp_on [OF total_cmp_linorder, of k_tier] total_cmp_on [OF total_cmp_linorder, of "\<lambda>k. f_key (k_score k)"]
      total_cmp_on [OF total_cmp_linorder, of k_arrival_class] total_cmp_on [OF total_cmp_linorder, of "\<lambda>k. k_queued k = None"]
      total_cmp_on [OF total_cmp_linorder, of "\<lambda>k. queued_num (k_queued k)"] total_cmp_on [OF total_cmp_linorder, of "\<lambda>k. queued_txt (k_queued k)"]
      total_cmp_on [OF total_cmp_linorder, of k_index])

lemma cmp_refl [simp]: "cmp x x = Equal"
  by (simp add: cmp_def)

lemma cmp_f64_key: "\<not> is_nan x \<Longrightarrow> \<not> is_nan y \<Longrightarrow> cmp_f64 x y = cmp (f_key x) (f_key y)"
  by (simp add: cmp_f64_def f_partial_cmp_def)

lemma cmp_queued_total:
  assumes "queued_kind a = None \<or> queued_kind b = None \<or> queued_kind a = queued_kind b"
    and "case a of Some (QFloat x) \<Rightarrow> \<not> is_nan x | _ \<Rightarrow> True" "case b of Some (QFloat x) \<Rightarrow> \<not> is_nan x | _ \<Rightarrow> True"
  shows "cmp_queued a b = then_with (cmp (a = None) (b = None))
    (then_with (cmp (queued_num a) (queued_num b)) (cmp (queued_txt a) (queued_txt b)))"
  using assms
  by (cases "(a, b)" rule: cmp_queued.cases)
    (simp_all add: queued_kind_def queued_num_def queued_txt_def cmp_f64_key, simp_all add: cmp_def)

lemma keys_comparable_total:
  assumes "keys_comparable ks"
  shows "cmp_total_on cmp_key (set ks)"
  unfolding cmp_total_on_def
proof (intro exI conjI ballI)
  show "total_cmp total_key" by (rule total_cmp_total_key)
  fix a b assume ab: "a \<in> set ks" "b \<in> set ks"
  have one: "i = j" if "queued_kind (k_queued a) = Some i" "queued_kind (k_queued b) = Some j" for i j
  proof -
    have "i \<in> set (List.map_filter (\<lambda>k. queued_kind (k_queued k)) ks)"
      "j \<in> set (List.map_filter (\<lambda>k. queued_kind (k_queued k)) ks)"
      using that ab by (auto simp: set_map_filter)
    moreover have "card (set (List.map_filter (\<lambda>k. queued_kind (k_queued k)) ks)) \<le> 1"
      using assms by (simp add: keys_comparable_def length_remdups_card_conv)
    ultimately show "i = j" using card_le_Suc0_iff_eq [of "set (List.map_filter (\<lambda>k. queued_kind (k_queued k)) ks)"] by simp
  qed
  have "cmp_queued (k_queued a) (k_queued b) = then_with (cmp (k_queued a = None) (k_queued b = None))
    (then_with (cmp (queued_num (k_queued a)) (queued_num (k_queued b))) (cmp (queued_txt (k_queued a)) (queued_txt (k_queued b))))"
  proof (rule cmp_queued_total)
    show "queued_kind (k_queued a) = None \<or> queued_kind (k_queued b) = None
        \<or> queued_kind (k_queued a) = queued_kind (k_queued b)"
      using one by (cases "queued_kind (k_queued a)"; cases "queued_kind (k_queued b)") auto
  qed (use ab assms in \<open>auto simp: keys_comparable_def list_all_iff\<close>)
  moreover have "\<not> is_nan (k_score a)" "\<not> is_nan (k_score b)"
    using ab assms by (auto simp: keys_comparable_def list_all_iff)
  ultimately show "cmp_key a b = total_key a b" by (simp add: cmp_key_def total_key_def cmp_f64_key)
qed

lemma cmp_total_on_subset: "cmp_total_on c K \<Longrightarrow> L \<subseteq> K \<Longrightarrow> cmp_total_on c L"
  unfolding cmp_total_on_def by blast

lemma cmp_total_on_then:
  assumes "cmp_total_on c (f ` K)"
  shows "cmp_total_on (\<lambda>x y. then_with (c (f x) (f y)) (cmp (h x) (h y :: 'b::linorder))) K"
proof -
  obtain d where d: "total_cmp d" "\<forall>x \<in> f ` K. \<forall>y \<in> f ` K. c x y = d x y"
    using assms unfolding cmp_total_on_def by blast
  have "total_cmp (\<lambda>x y. then_with (d (f x) (f y)) (cmp (h x) (h y)))"
    by (intro total_cmp_then total_cmp_on [OF d(1)] total_cmp_on [OF total_cmp_linorder])
  then show ?thesis using d(2) unfolding cmp_total_on_def by (intro exI conjI) auto
qed

lemma smallest_least:
  assumes tot: "cmp_total_on c K"
  shows "set (x # xs) \<subseteq> K \<Longrightarrow> y \<in> set (x # xs) \<Longrightarrow> c (smallest c x xs) y \<noteq> Greater"
proof (induction xs arbitrary: x y)
  case Nil
  then show ?case using cmp_total_on_refl [OF tot, of x] by (simp add: smallest_def)
next
  case (Cons z xs)
  define b where "b = (if c z x = Less then z else x)"
  have s: "smallest c x (z # xs) = smallest c b xs" by (simp add: smallest_def b_def)
  have bK: "set (b # xs) \<subseteq> K" using Cons.prems by (auto simp: b_def)
  have sK: "smallest c b xs \<in> K" using smallest_in [of c b xs] bK by blast
  have K: "b \<in> K" "x \<in> K" "z \<in> K" using bK Cons.prems by auto
  have bx: "c b x \<noteq> Greater" using cmp_total_on_refl [OF tot K(2)] by (auto simp: b_def)
  have bz: "c b z \<noteq> Greater"
    using cmp_total_on_refl [OF tot K(3)] cmp_total_on_flip [OF tot K(3,2)] by (auto simp: b_def)
  have sb: "c (smallest c b xs) b \<noteq> Greater" using Cons.IH [OF bK] by simp
  show ?case
    using Cons.IH [OF bK] Cons.prems(2) cmp_total_on_trans [OF tot sK K(1) K(2) sb bx]
      cmp_total_on_trans [OF tot sK K(1) K(3) sb bz] by (auto simp: s)
qed

lemma pop_min_least:
  assumes "cmp_total_on c (set q)" "pop_min c q = Some (x, q')" "y \<in> set q"
  shows "c x y \<noteq> Greater"
  using assms smallest_least [of c "set q"] by (cases q) (auto simp: pop_min_def Let_def)


section \<open>Properties\<close>

lemma own_keys_length: "graph_ok g \<Longrightarrow> length (own_keys g policy) = length (g_tasks g)"
  using bottom_levels_rec(1) [of g 0] by (cases "g_tasks g = []") (auto simp: own_keys_def)

lemma rev_topo_closed:
  assumes ok: "graph_ok g"
  shows "\<forall>ys u zs. rev (g_topo g) = ys @ u # zs \<longrightarrow> set (deps_at (g_dependents g) u) \<subseteq> set ys"
proof (intro allI impI)
  fix ys u zs assume r: "rev (g_topo g) = ys @ u # zs"
  have tp: "topological (length (g_tasks g)) (deps_at (g_dependents g)) (g_topo g)"
    using ok by (simp add: graph_ok_def Let_def)
  have e: "g_topo g = rev zs @ u # rev ys"
    using r by (metis append.assoc append_Cons append_Nil rev.simps(2) rev_append rev_rev_ident)
  then have "u < length (g_tasks g)" using tp by (auto simp: topological_def)
  then have "\<forall>d \<in> set (deps_at (g_dependents g) u). d < length (g_tasks g)"
    using ok by (simp add: graph_ok_def Let_def) (metis count_list_0_iff)
  then show "set (deps_at (g_dependents g) u) \<subseteq> set ys" using topological_split [OF tp [unfolded e]] by simp
qed

lemma inherit_all:
  assumes ok: "graph_ok g" and tot: "cmp_total_on cmp_key (set (own_keys g policy))"
    and r: "inherit g (own_keys g policy) = (eff, source)"
  shows "length eff = length (g_tasks g) \<and> set eff \<subseteq> set (own_keys g policy)
    \<and> (\<forall>p < length (g_tasks g). inherited g (own_keys g policy) eff source p)"
proof -
  note len = own_keys_length [OF ok, of policy]
  have tp: "distinct (g_topo g)" "set (g_topo g) = {..<length (g_tasks g)}"
    using ok by (auto simp: graph_ok_def Let_def topological_def)
  show ?thesis
    using inherit_prefix [OF tot len [symmetric] _ _ rev_topo_closed [OF ok] r [unfolded inherit_def]] tp len by auto
qed

text \<open>
  C9: the order of one agent is a topological order: every task once, none before its prerequisites, under every
  policy and for every outcome of key comparisons.
\<close>

theorem order_is_topological:
  assumes "graph_ok g"
  shows "distinct (o_order (order g policy)) \<and> set (o_order (order g policy)) = {..<length (g_tasks g)}
    \<and> preds_first (length (g_tasks g)) (deps_at (g_dependents g)) (o_order (order g policy))"
  using kahn_topological [OF assms] by (auto simp: order_def topological_def split: prod.split)

theorem order_is_topological_witness:
  "\<exists>g. graph_new [sample_task ''b'' [''a''] [], sample_task ''a'' [] [], sample_task ''c'' [] []] = Inr g
     \<and> o_order (order g Wsjf) = [1, 0, 2] \<and> distinct (o_order (order g Wsjf))"
proof -
  have "(case graph_new [sample_task ''b'' [''a''] [], sample_task ''a'' [] [], sample_task ''c'' [] []] of
      Inr g \<Rightarrow> o_order (order g Wsjf) = [1, 0, 2] | _ \<Rightarrow> False)"
    by code_simp
  then obtain g where g: "graph_new [sample_task ''b'' [''a''] [], sample_task ''a'' [] [], sample_task ''c'' [] []] = Inr g"
    "o_order (order g Wsjf) = [1, 0, 2]" by (auto split: sum.splits)
  then show ?thesis using order_is_topological [OF graph_new_Inr(1) [OF g(1)], of Wsjf] by blast
qed






end
