(* ===== verification/Plan.thy ===== *)
theory Plan
  imports Order
begin

text \<open>
  Graham list scheduling (\<open>crates/agora-sched/src/plan.rs\<close>): agents take the most urgent ready task that shares
  no file with a running one; time jumps to the next completion. The loop of \<open>schedule\<close> is a function with fuel;
  one unit per task is enough, because every pass completes at least one task. The invariant \<open>plan_ok\<close> relates the
  lanes built so far to the tasks that are done, running and ready, and gives the properties of a schedule.
\<close>

section \<open>Definitions\<close>

record slot =
  s_task :: nat
  s_start :: f64
  s_end :: f64

record running =
  r_end :: f64
  r_agent :: nat
  r_pos :: nat

record plan_state =
  p_ready :: "nat list"
  p_running :: "running list"
  p_free :: "nat list"
  p_ind :: "nat list"
  p_lanes :: "slot list list"
  p_now :: f64

record schedule_t =
  sc_lanes :: "slot list list"
  sc_makespan :: f64
  sc_lower_bound :: f64

definition MAX_AGENTS :: nat where "MAX_AGENTS = 256"

definition check_agents :: "nat \<Rightarrow> nat result" where
  "check_agents n =
     (if 1 \<le> n \<and> n \<le> MAX_AGENTS then Inr n
      else Inl (''agents must be between 1 and '' @ show_int (int MAX_AGENTS)))"

definition running_cmp :: "graph \<Rightarrow> running \<Rightarrow> running \<Rightarrow> ordering" where
  "running_cmp g a b =
     then_with (f_total_cmp (r_end a) (r_end b))
       (then_with (cmp (r_agent a) (r_agent b))
         (cmp (t_id (g_tasks g ! r_pos a)) (t_id (g_tasks g ! r_pos b))))"

lemma pop_min_Some:
  assumes "pop_min c q = Some (x, q')"
  shows "x \<in> set q" "mset q = add_mset x (mset q')" "length q' < length q"
proof -
  obtain y ys where q: "q = y # ys" using assms by (cases q) (auto simp: pop_min_def)
  have x: "x \<in> set q" "q' = remove1 x q"
    using assms smallest_in [of c y ys] by (auto simp only: q pop_min_def list.case Let_def option.inject prod.inject)
  then show "x \<in> set q" "mset q = add_mset x (mset q')" by simp_all
  then show "length q' < length q" by (metis lessI size_add_mset size_mset)
qed

lemma pop_min_None: "pop_min c q = None \<longleftrightarrow> q = []"
  by (simp add: pop_min_def Let_def split: list.split)

definition busy_conflict :: "graph \<Rightarrow> plan_state \<Rightarrow> nat \<Rightarrow> bool" where
  "busy_conflict g st x = list_ex (\<lambda>r. conflict (g_tasks g ! x) (g_tasks g ! r_pos r)) (p_running st)"

definition start_task :: "graph \<Rightarrow> nat \<Rightarrow> nat list \<Rightarrow> nat \<Rightarrow> nat list \<Rightarrow> plan_state \<Rightarrow> plan_state" where
  "start_task g agent free x ready st =
     (let fin = f_add (p_now st) (t_size (g_tasks g ! x)) in
      st \<lparr>p_ready := ready, p_free := free,
          p_lanes := (p_lanes st)[agent := p_lanes st ! agent @ [\<lparr>s_task = x, s_start = p_now st, s_end = fin\<rparr>]],
          p_running := p_running st @ [\<lparr>r_end = fin, r_agent = agent, r_pos = x\<rparr>]\<rparr>)"

function start_phase :: "graph \<Rightarrow> key list \<Rightarrow> plan_state \<Rightarrow> nat list \<Rightarrow> plan_state \<times> nat list" where
  "start_phase g effective st waiting =
     (case pop_min cmp (p_free st) of
        None \<Rightarrow> (st, waiting)
      | Some (agent, free) \<Rightarrow>
          (case pop_min (ready_cmp g effective) (p_ready st) of
             None \<Rightarrow> (st, waiting)
           | Some (x, ready) \<Rightarrow>
               if busy_conflict g st x then start_phase g effective (st \<lparr>p_ready := ready\<rparr>) (waiting @ [x])
               else start_phase g effective (start_task g agent free x ready st) waiting))"
  by pat_completeness auto
termination
  by (relation "measure (\<lambda>(_, _, st, _). length (p_ready st))") (auto simp: start_task_def Let_def dest: pop_min_Some(3))

declare start_phase.simps [simp del]

definition sorted_deps :: "graph \<Rightarrow> nat \<Rightarrow> nat list" where
  "sorted_deps g p = sort (distinct_deps g p)"

definition finish_task :: "graph \<Rightarrow> running \<Rightarrow> running list \<Rightarrow> plan_state \<Rightarrow> plan_state" where
  "finish_task g r rest st =
     (case foldl (release1 push_stack) (p_ind st, p_ready st) (sorted_deps g (r_pos r)) of
        (ind, ready) \<Rightarrow>
          st \<lparr>p_running := rest, p_free := p_free st @ [r_agent r], p_ind := ind, p_ready := ready\<rparr>)"

function complete_phase :: "graph \<Rightarrow> plan_state \<Rightarrow> plan_state" where
  "complete_phase g st =
     (case pop_min (running_cmp g) (p_running st) of
        None \<Rightarrow> st
      | Some (r, rest) \<Rightarrow>
          if f_total_cmp (r_end r) (p_now st) = Equal then complete_phase g (finish_task g r rest st) else st)"
  by pat_completeness auto
termination
  by (relation "measure (\<lambda>(_, st). length (p_running st))")
    (auto simp: finish_task_def dest: pop_min_Some(3) split: prod.split)

declare complete_phase.simps [simp del]

fun plan_loop :: "graph \<Rightarrow> key list \<Rightarrow> nat \<Rightarrow> plan_state \<Rightarrow> plan_state" where
  "plan_loop g effective 0 st = st"
| "plan_loop g effective (Suc fuel) st =
     (if p_ready st = [] \<and> p_running st = [] then st
      else case start_phase g effective st [] of
        (st1, waiting) \<Rightarrow>
          let st2 = st1 \<lparr>p_ready := p_ready st1 @ waiting\<rparr> in
          (case pop_min (running_cmp g) (p_running st2) of
             None \<Rightarrow> st2
           | Some (r, _) \<Rightarrow> plan_loop g effective fuel (complete_phase g (st2 \<lparr>p_now := r_end r\<rparr>))))"

definition plan_start :: "graph \<Rightarrow> nat \<Rightarrow> plan_state" where
  "plan_start g agents =
     \<lparr>p_ready = ready_at_start g, p_running = [], p_free = [0 ..< agents], p_ind = distinct_after g,
      p_lanes = replicate agents [], p_now = f_zero\<rparr>"

definition schedule :: "graph \<Rightarrow> nat \<Rightarrow> order_policy \<Rightarrow> schedule_t" where
  "schedule g agents0 policy =
     (let agents = min agents0 MAX_AGENTS in
      if agents = 0 then \<lparr>sc_lanes = [], sc_makespan = f_zero, sc_lower_bound = f_zero\<rparr>
      else
        let effective = o_effective (order g policy);
            lanes = p_lanes (plan_loop g effective (length (g_tasks g)) (plan_start g agents));
            makespan = foldl f_max f_zero (map (\<lambda>lane. s_end (last lane)) (filter (\<lambda>lane. lane \<noteq> []) lanes));
            total = py_fsum (map t_size (g_tasks g));
            critical = foldl f_max f_zero (bottom_levels g)
        in \<lparr>sc_lanes = lanes, sc_makespan = makespan,
            sc_lower_bound = f_max (f_div total (f_of_int (int agents))) critical\<rparr>)"

section \<open>The invariant\<close>

definition slots :: "plan_state \<Rightarrow> slot set" where
  "slots st = set (concat (p_lanes st))"

text \<open>
  Book-keeping, with \<open>D\<close> the tasks done and \<open>W\<close> the tasks set aside in this pass: ready, waiting and running tasks are
  exactly those whose prerequisites are done; every agent is free or runs one task; the lanes hold the tasks
  done and running, once each.
\<close>

definition books_ok :: "graph \<Rightarrow> nat \<Rightarrow> nat set \<Rightarrow> nat list \<Rightarrow> plan_state \<Rightarrow> bool" where
  "books_ok g agents D W st =
     (kahn_inv (length (g_tasks g)) (sorted_deps g) D []
        (mset (p_ready st) + (mset W + mset (map r_pos (p_running st)))) (p_ind st)
      \<and> closed_set (length (g_tasks g)) (sorted_deps g) D
      \<and> length (p_lanes st) = agents
      \<and> mset (p_free st) + mset (map r_agent (p_running st)) = mset [0 ..< agents]
      \<and> mset (map s_task (concat (p_lanes st))) = mset_set D + mset (map r_pos (p_running st)))"

text \<open>Timing: what the slots in the lanes look like at time \<open>p_now\<close>.\<close>

definition slot_ok :: "graph \<Rightarrow> nat set \<Rightarrow> f64 \<Rightarrow> slot \<Rightarrow> bool" where
  "slot_ok g D now s =
     (s_end s = f_add (s_start s) (t_size (g_tasks g ! s_task s)) \<and> f_le f_zero (s_start s) \<and> f_le (s_start s) now
      \<and> (s_task s \<in> D \<longrightarrow> f_le (s_end s) now))"

definition before :: "slot \<Rightarrow> slot \<Rightarrow> bool" where
  "before s t = f_le (s_end s) (s_start t)"

definition times_ok :: "graph \<Rightarrow> nat \<Rightarrow> nat set \<Rightarrow> plan_state \<Rightarrow> bool" where
  "times_ok g agents D st =
     (f_le f_zero (p_now st)
      \<and> (\<forall>s \<in> slots st. slot_ok g D (p_now st) s)
      \<and> (\<forall>a < agents. sorted_wrt before (p_lanes st ! a))
      \<and> (\<forall>r \<in> set (p_running st). f_le (p_now st) (r_end r)
           \<and> (\<exists>s \<in> set (p_lanes st ! r_agent r). s_task s = r_pos r \<and> s_end s = r_end r))
      \<and> (\<forall>a < agents. \<forall>s \<in> set (p_lanes st ! a). s_task s \<notin> D \<longrightarrow>
           (\<exists>r \<in> set (p_running st). r_agent r = a \<and> r_pos r = s_task s))
      \<and> (\<forall>s \<in> slots st. \<forall>u < length (g_tasks g). s_task s \<in> set (sorted_deps g u) \<longrightarrow>
           u \<in> D \<and> (\<forall>s' \<in> slots st. s_task s' = u \<longrightarrow> before s' s))
      \<and> (\<forall>s \<in> slots st. \<forall>t \<in> slots st. s_task s \<noteq> s_task t \<longrightarrow>
           conflict (g_tasks g ! s_task s) (g_tasks g ! s_task t) \<longrightarrow> before s t \<or> before t s))"

definition plan_ok :: "graph \<Rightarrow> nat \<Rightarrow> nat set \<Rightarrow> nat list \<Rightarrow> plan_state \<Rightarrow> bool" where
  "plan_ok g agents D W st = (books_ok g agents D W st \<and> times_ok g agents D st)"

definition sizes_ok :: "graph \<Rightarrow> bool" where
  "sizes_ok g = (\<forall>t \<in> set (g_tasks g). f_lt f_zero (t_size t))"

lemma f_total_cmp_le: "f_total_cmp a b \<noteq> Greater \<Longrightarrow> f_key a \<le> f_key b"
  using f_ord_nonneg [of a] f_ord_nonneg [of b]
  by (cases "f_neg a"; cases "f_neg b"; simp only: f_total_cmp_def cmp_iffs f_total_key_def f_key_def if_True if_False; linarith)

lemma f_total_cmp_Equal:
  assumes "f_total_cmp a b = Equal"
  shows "a = b"
proof -
  have k: "f_total_key a = f_total_key b" using assms by (simp add: f_total_cmp_def)
  have "f_neg a = f_neg b"
    using k f_ord_nonneg [of a] f_ord_nonneg [of b]
    by (cases "f_neg a"; cases "f_neg b"; simp only: f_total_key_def if_True if_False; linarith)
  then show ?thesis using k by (intro f_ord_inj) (auto simp: f_total_key_def split: if_splits)
qed

lemma f_total_cmp_refl: "f_total_cmp a a = Equal"
  by (simp add: f_total_cmp_def cmp_def)

section \<open>Starting tasks\<close>

lemma mset_concat_append:
  assumes "a < length ls"
  shows "mset (concat (ls[a := ls ! a @ [y]])) = add_mset y (mset (concat ls))"
proof -
  have "concat (ls[a := ls ! a @ [y]]) = concat (take a ls) @ (ls ! a @ [y]) @ concat (drop (Suc a) ls)"
    using assms by (simp add: upd_conv_take_nth_drop)
  moreover have "concat ls = concat (take a ls) @ ls ! a @ concat (drop (Suc a) ls)"
    using id_take_nth_drop [OF assms] by (metis concat.simps(2) concat_append)
  ultimately show ?thesis by simp
qed

lemma slots_update:
  "a < length (p_lanes st) \<Longrightarrow> set (concat ((p_lanes st)[a := p_lanes st ! a @ [x]])) = insert x (slots st)"
  unfolding slots_def by (metis mset_concat_append set_mset_add_mset_insert set_mset_mset)

lemma slots_lane: "s \<in> slots st \<longleftrightarrow> (\<exists>b < length (p_lanes st). s \<in> set (p_lanes st ! b))"
  by (metis (no_types, lifting) in_set_conv_nth set_concat UN_iff slots_def)

lemma start_task_books:
  assumes ok: "books_ok g agents D W st"
    and free: "pop_min cmp (p_free st) = Some (agent, free)"
    and ready: "pop_min c (p_ready st) = Some (x, ready)"
  shows "books_ok g agents D W (start_task g agent free x ready st)"
proof -
  note f = pop_min_Some [OF free] and r = pop_min_Some [OF ready]
  have "agent \<in># mset [0 ..< agents]" using ok f(1) by (metis books_ok_def set_mset_mset union_iff)
  then have a: "agent < length (p_lanes st)" using ok by (simp add: books_ok_def)
  have "mset (map s_task (concat ((p_lanes st)[agent := p_lanes st ! agent @ [y]])))
      = add_mset (s_task y) (mset (map s_task (concat (p_lanes st))))" for y
    using mset_concat_append [OF a, of y] by (simp del: mset_concat)
  then show ?thesis using ok f(2) r(2) by (simp add: books_ok_def start_task_def Let_def del: mset_concat)
qed

lemma times_okD:
  assumes "times_ok g agents D st"
  shows "f_le f_zero (p_now st)" "\<And>s. s \<in> slots st \<Longrightarrow> slot_ok g D (p_now st) s"
    "\<And>a. a < agents \<Longrightarrow> sorted_wrt before (p_lanes st ! a)"
    "\<And>r. r \<in> set (p_running st) \<Longrightarrow> f_le (p_now st) (r_end r)"
    "\<And>r. r \<in> set (p_running st) \<Longrightarrow> \<exists>s \<in> set (p_lanes st ! r_agent r). s_task s = r_pos r \<and> s_end s = r_end r"
    "\<And>a s. a < agents \<Longrightarrow> s \<in> set (p_lanes st ! a) \<Longrightarrow> s_task s \<notin> D \<Longrightarrow>
      \<exists>r \<in> set (p_running st). r_agent r = a \<and> r_pos r = s_task s"
    "\<And>s u. s \<in> slots st \<Longrightarrow> u < length (g_tasks g) \<Longrightarrow> s_task s \<in> set (sorted_deps g u) \<Longrightarrow> u \<in> D"
    "\<And>s u t. s \<in> slots st \<Longrightarrow> u < length (g_tasks g) \<Longrightarrow> s_task s \<in> set (sorted_deps g u) \<Longrightarrow>
      t \<in> slots st \<Longrightarrow> s_task t = u \<Longrightarrow> before t s"
    "\<And>s t. s \<in> slots st \<Longrightarrow> t \<in> slots st \<Longrightarrow> s_task s \<noteq> s_task t \<Longrightarrow>
      conflict (g_tasks g ! s_task s) (g_tasks g ! s_task t) \<Longrightarrow> before s t \<or> before t s"
  using assms unfolding times_ok_def by blast+

lemma start_task_times:
  assumes bk: "books_ok g agents D W st" and ok: "times_ok g agents D st" and sz: "sizes_ok g"
    and free: "pop_min cmp (p_free st) = Some (agent, free)"
    and ready: "pop_min c (p_ready st) = Some (x, ready)"
    and nc: "\<not> busy_conflict g st x"
  shows "times_ok g agents D (start_task g agent free x ready st)"
proof -
  note T = times_okD [OF ok]
  let ?n = "length (g_tasks g)" and ?now = "p_now st"
  let ?fin = "f_add ?now (t_size (g_tasks g ! x))"
  define s0 where "s0 = \<lparr>s_task = x, s_start = ?now, s_end = ?fin\<rparr>"
  define st' where "st' = start_task g agent free x ready st"
  note f = pop_min_Some [OF free] and r = pop_min_Some [OF ready]
  have la: "length (p_lanes st) = agents" using bk by (simp add: books_ok_def)
  have fr: "mset (p_free st) + mset (map r_agent (p_running st)) = mset [0 ..< agents]" using bk by (simp add: books_ok_def)
  then have a: "agent < agents" using f(1) by (metis atLeastLessThan_iff set_mset_mset set_upt union_iff)
  have "distinct (p_free st @ map r_agent (p_running st))"
    using fr by (metis distinct_upt mset_append mset_eq_imp_distinct_iff)
  then have idle: "agent \<notin> r_agent ` set (p_running st)" using f(1) by auto
  have x: "x < ?n" "x \<notin> D" "\<forall>u < ?n. x \<in> set (sorted_deps g u) \<longrightarrow> u \<in> D"
  proof -
    have "x \<in># mset (p_ready st) + (mset W + mset (map r_pos (p_running st)))" using r(1) by simp
    moreover have "kahn_inv ?n (sorted_deps g) D [] (mset (p_ready st) + (mset W + mset (map r_pos (p_running st)))) (p_ind st)"
      using bk by (simp add: books_ok_def)
    ultimately show "x < ?n" "x \<notin> D" "\<forall>u < ?n. x \<in> set (sorted_deps g u) \<longrightarrow> u \<in> D"
      using kahn_inv_ready by blast+
  qed
  have now: "f_le f_zero ?now" using ok by (simp add: times_ok_def)
  have size: "f_le f_zero (t_size (g_tasks g ! x))" using sz x(1) by (simp add: sizes_ok_def f_lt_imp_le)
  have fin: "f_le ?now ?fin" by (rule f_add_le_left [OF now size])
  have sl: "slots st' = insert s0 (slots st)"
    using slots_update [of agent st s0] a la by (simp add: slots_def st'_def start_task_def Let_def s0_def)
  have lanes: "p_lanes st' = (p_lanes st)[agent := p_lanes st ! agent @ [s0]]"
    and rn: "p_running st' = p_running st @ [\<lparr>r_end = ?fin, r_agent = agent, r_pos = x\<rparr>]" and now': "p_now st' = ?now"
    by (simp_all add: st'_def start_task_def Let_def s0_def)
  have old: "s_task s \<in> D \<and> f_le (s_end s) ?now" if "s \<in> set (p_lanes st ! agent)" for s
  proof -
    have "s \<in> slots st" using that a la by (auto simp: slots_lane)
    moreover have "s_task s \<in> D" using T(6) [OF a that] idle by blast
    ultimately show ?thesis using T(2) [of s] by (auto simp: slot_ok_def)
  qed
  have conf: "before s s0" if s: "s \<in> slots st" "conflict (g_tasks g ! s_task s) (g_tasks g ! x)" for s
  proof -
    have "s_task s \<in> D"
    proof (rule ccontr)
      assume n: "s_task s \<notin> D"
      obtain b where b: "b < agents" "s \<in> set (p_lanes st ! b)" using s(1) la by (auto simp: slots_lane)
      then obtain r where "r \<in> set (p_running st)" "r_pos r = s_task s" using T(6) n by blast
      then have "busy_conflict g st x" unfolding busy_conflict_def list_ex_iff using s(2) conflict_sym by (metis (no_types))
      then show False using nc by simp
    qed
    then show ?thesis using T(2) [OF s(1)] by (auto simp: slot_ok_def before_def s0_def)
  qed
  have prec: "before s s0" if "s \<in> slots st" "s_task s \<in> D" for s
    using that T(2) [OF that(1)] by (auto simp: slot_ok_def before_def s0_def)
  have s0: "slot_ok g D ?now s0" using now x(2) by (simp add: slot_ok_def s0_def f_le_def)
  have "times_ok g agents D st'"
    unfolding times_ok_def
  proof (intro conjI)
    show "f_le f_zero (p_now st')" using now now' by simp
    show "\<forall>s \<in> slots st'. slot_ok g D (p_now st') s"
      using T(2) s0 by (simp add: sl now')
    show "\<forall>a < agents. sorted_wrt before (p_lanes st' ! a)"
      using T(3) a la old by (auto simp: lanes nth_list_update sorted_wrt_append before_def s0_def)
    show "\<forall>r \<in> set (p_running st'). f_le (p_now st') (r_end r)
        \<and> (\<exists>s \<in> set (p_lanes st' ! r_agent r). s_task s = r_pos r \<and> s_end s = r_end r)"
    proof
      fix r assume r: "r \<in> set (p_running st')"
      show "f_le (p_now st') (r_end r) \<and> (\<exists>s \<in> set (p_lanes st' ! r_agent r). s_task s = r_pos r \<and> s_end s = r_end r)"
      proof (cases "r \<in> set (p_running st)")
        case True
        then have "r_agent r \<noteq> agent" using idle by auto
        then show ?thesis using T(4,5) [OF True] by (simp add: now' lanes)
      next
        case False
        then show ?thesis using r a la fin by (simp add: rn now' lanes s0_def)
      qed
    qed
    show "\<forall>a < agents. \<forall>s \<in> set (p_lanes st' ! a). s_task s \<notin> D \<longrightarrow>
        (\<exists>r \<in> set (p_running st'). r_agent r = a \<and> r_pos r = s_task s)"
      using T(6) a la by (auto simp: rn lanes nth_list_update s0_def)
    show "\<forall>s \<in> slots st'. \<forall>u < ?n. s_task s \<in> set (sorted_deps g u) \<longrightarrow>
        u \<in> D \<and> (\<forall>s' \<in> slots st'. s_task s' = u \<longrightarrow> before s' s)"
    proof (intro ballI allI impI conjI)
      fix s u assume s: "s \<in> slots st'" "u < ?n" "s_task s \<in> set (sorted_deps g u)"
      show u: "u \<in> D" using s x(3) T(7) by (auto simp: sl s0_def)
      fix s' assume s': "s' \<in> slots st'" "s_task s' = u"
      then have "s' \<in> slots st" using u x(2) by (auto simp: sl s0_def)
      then show "before s' s" using s T(8) [OF _ s(2,3)] s' prec u by (auto simp: sl)
    qed
    show "\<forall>s \<in> slots st'. \<forall>t \<in> slots st'. s_task s \<noteq> s_task t \<longrightarrow>
        conflict (g_tasks g ! s_task s) (g_tasks g ! s_task t) \<longrightarrow> before s t \<or> before t s"
    proof (intro ballI impI)
      fix s t assume st: "s \<in> slots st'" "t \<in> slots st'" "s_task s \<noteq> s_task t"
        "conflict (g_tasks g ! s_task s) (g_tasks g ! s_task t)"
      consider "s = s0" "t \<in> slots st" | "t = s0" "s \<in> slots st" | "s \<in> slots st" "t \<in> slots st"
        using st(1,2,3) by (auto simp: sl)
      then show "before s t \<or> before t s"
      proof cases
        case 1 then show ?thesis using conf [of t] st(4) conflict_sym by (simp add: s0_def)
      next
        case 2 then show ?thesis using conf [of s] st(4) by (simp add: s0_def)
      next
        case 3 then show ?thesis using T(9) st(3,4) by blast
      qed
    qed
  qed
  then show ?thesis by (simp add: st'_def)
qed


lemma start_phase_ok:
  "sizes_ok g \<Longrightarrow> plan_ok g agents D W st \<Longrightarrow> start_phase g effective st W = (st', W') \<Longrightarrow> plan_ok g agents D W' st'"
proof (induction g effective st W arbitrary: st' W' rule: start_phase.induct)
  case (1 g effective st W)
  show ?case
  proof (cases "pop_min cmp (p_free st)")
    case None
    then show ?thesis using 1(4,5) by (simp add: start_phase.simps [of g effective st])
  next
    case f: (Some af)
    obtain agent free where af: "af = (agent, free)" by force
    show ?thesis
    proof (cases "pop_min (ready_cmp g effective) (p_ready st)")
      case None
      then show ?thesis using 1(4,5) f af by (simp add: start_phase.simps [of g effective st])
    next
      case r: (Some xr)
      obtain x ready where xr: "xr = (x, ready)" by force
      note step = 1(5) [unfolded start_phase.simps [of g effective st W] f r af xr option.case prod.case]
      show ?thesis
      proof (cases "busy_conflict g st x")
        case True
        have "plan_ok g agents D (W @ [x]) (st \<lparr>p_ready := ready\<rparr>)"
          using 1(4) pop_min_Some(2) [OF r [unfolded xr]]
          by (simp add: plan_ok_def books_ok_def times_ok_def slots_def)
        then show ?thesis by (rule 1(1) [OF f af [symmetric] r xr [symmetric] True 1(3)]) (use step True in simp)
      next
        case False
        have "plan_ok g agents D W (start_task g agent free x ready st)"
          using 1(4) start_task_books [OF _ f [unfolded af] r [unfolded xr]]
            start_task_times [OF _ _ 1(3) f [unfolded af] r [unfolded xr] False] unfolding plan_ok_def by blast
        then show ?thesis by (rule 1(2) [OF f af [symmetric] r xr [symmetric] False 1(3)]) (use step False in simp)
      qed
    qed
  qed
qed


lemma start_phase_progress:
  "start_phase g effective st W = (st', W') \<Longrightarrow>
     p_running st \<noteq> [] \<or> p_ready st \<noteq> [] \<and> p_free st \<noteq> [] \<Longrightarrow> p_running st' \<noteq> []"
proof (induction g effective st W arbitrary: st' W' rule: start_phase.induct)
  case (1 g effective st W)
  note step = 1(3) [unfolded start_phase.simps [of g effective st W]]
  show ?case
  proof (cases "pop_min cmp (p_free st)")
    case None
    then show ?thesis using 1(4) step pop_min_None [of cmp "p_free st"] by auto
  next
    case f: (Some af)
    obtain agent free where af: "af = (agent, free)" by force
    show ?thesis
    proof (cases "pop_min (ready_cmp g effective) (p_ready st)")
      case None
      then show ?thesis using 1(4) step f af pop_min_None [of "ready_cmp g effective" "p_ready st"] by auto
    next
      case r: (Some xr)
      obtain x ready where xr: "xr = (x, ready)" by force
      show ?thesis
      proof (cases "busy_conflict g st x")
        case True
        then have "p_running st \<noteq> []" by (auto simp: busy_conflict_def)
        then show ?thesis
          by (intro 1(1) [OF f af [symmetric] r xr [symmetric] True]) (use step f af r xr True in simp_all)
      next
        case False
        show ?thesis
          by (rule 1(2) [OF f af [symmetric] r xr [symmetric] False])
            (use step f af r xr False in \<open>simp_all add: start_task_def Let_def\<close>)
      qed
    qed
  qed
qed

section \<open>Completing tasks\<close>

lemma total_cmp_f_total: "total_cmp f_total_cmp"
  unfolding f_total_cmp_def by (rule total_cmp_on [OF total_cmp_linorder])

lemma running_first:
  assumes "pop_min (running_cmp g) rs = Some (r, rest)" "r' \<in> set rs"
  shows "f_total_cmp (r_end r) (r_end r') \<noteq> Greater"
proof -
  have "total_cmp (running_cmp g)"
    unfolding running_cmp_def
    by (intro total_cmp_then total_cmp_on [OF total_cmp_f_total] total_cmp_on [OF total_cmp_linorder])
  then have "cmp_total_on (running_cmp g) (set rs)" unfolding cmp_total_on_def by blast
  from pop_min_least [OF this assms] show ?thesis by (auto simp: running_cmp_def)
qed

lemma slot_ok_mono: "slot_ok g D now s \<Longrightarrow> f_le now now' \<Longrightarrow> slot_ok g D now' s"
  unfolding slot_ok_def using f_le_trans by blast

lemma slots_now: "slots (st \<lparr>p_now := t\<rparr>) = slots st"
  by (simp add: slots_def)

lemma advance_ok:
  assumes ok: "plan_ok g agents D W st" and r: "pop_min (running_cmp g) (p_running st) = Some (r, rest)"
  shows "plan_ok g agents D W (st \<lparr>p_now := r_end r\<rparr>)"
proof -
  have tm: "times_ok g agents D st" using ok by (simp add: plan_ok_def)
  note T = times_okD [OF tm]
  have le: "f_le (p_now st) (r_end r)" using T(4) pop_min_Some(1) [OF r] .
  have first: "f_le (r_end r) (r_end r')" if "r' \<in> set (p_running st)" for r'
    using f_total_cmp_le [OF running_first [OF r that]] T(4) [OF that] le by (simp add: f_le_def)
  have "times_ok g agents D (st \<lparr>p_now := r_end r\<rparr>)"
    using tm first slot_ok_mono [OF _ le] f_le_trans [OF _ le] by (simp add: times_ok_def slots_now)
  then show ?thesis using ok by (simp add: plan_ok_def books_ok_def)
qed

lemma distinct_count_le:
  assumes "\<And>x. count (mset xs) x \<le> 1"
  shows "distinct xs"
  unfolding distinct_count_atmost_1
proof
  fix a
  have "count (mset xs) a = 0 \<longleftrightarrow> a \<notin> set xs" by (simp only: count_eq_zero_iff set_mset_mset)
  then show "count (mset xs) a = (if a \<in> set xs then 1 else 0)" using assms [of a] by (metis One_nat_def le_SucE le_zero_eq)
qed

lemma books_distinct:
  assumes bk: "books_ok g agents D W st"
  shows "distinct (map r_pos (p_running st))" "distinct (map s_task (concat (p_lanes st)))" "finite D"
proof -
  let ?n = "length (g_tasks g)" and ?R = "mset (map r_pos (p_running st))"
  let ?M = "mset (p_ready st) + (mset W + ?R)"
  have k: "kahn_inv ?n (sorted_deps g) D [] ?M (p_ind st)"
    and l: "mset (map s_task (concat (p_lanes st))) = mset_set D + ?R"
    using bk by (simp_all only: books_ok_def)
  have c: "count ?M d \<le> (if d \<in> D then 0 else 1)" for d
  proof (cases "d < ?n")
    case True then show ?thesis using k by (simp add: kahn_inv_def)
  next
    case False
    then have "d \<notin># ?M" using k by (auto simp: kahn_inv_def)
    then show ?thesis by (simp only: not_in_iff)
  qed
  have cR: "count ?R d \<le> (if d \<in> D then 0 else 1)" for d using c [of d] by simp
  have "count ?R d \<le> 1" for d using cR [of d] by (cases "d \<in> D") simp_all
  then show "distinct (map r_pos (p_running st))" by (rule distinct_count_le)
  show fin: "finite D" using k finite_subset [of D "{..<?n}"] by (simp add: kahn_inv_def)
  have "count (mset_set D + ?R) d \<le> 1" for d
    using cR [of d] fin by (cases "d \<in> D") simp_all
  then show "distinct (map s_task (concat (p_lanes st)))"
    using distinct_count_le l by metis
qed


lemma books_agent: "books_ok g agents D W st \<Longrightarrow> r \<in> set (p_running st) \<Longrightarrow> r_agent r < agents"
proof -
  assume "books_ok g agents D W st" and r: "r \<in> set (p_running st)"
  then have "mset (p_free st) + mset (map r_agent (p_running st)) = mset [0 ..< agents]" by (simp add: books_ok_def)
  moreover have "r_agent r \<in># mset (p_free st) + mset (map r_agent (p_running st))" using r by simp
  ultimately have "r_agent r \<in># mset [0 ..< agents]" by simp
  then show "r_agent r < agents" by simp
qed

lemma finish_task_ok:
  assumes g: "graph_ok g" and ok: "plan_ok g agents D [] st"
    and r: "pop_min (running_cmp g) (p_running st) = Some (r, rest)" and now: "r_end r = p_now st"
  shows "plan_ok g agents (insert (r_pos r) D) [] (finish_task g r rest st)" "r_pos r \<notin> D"
proof -
  let ?n = "length (g_tasks g)" and ?x = "r_pos r"
  let ?M = "mset (p_ready st) + mset (map r_pos (p_running st))"
  have bk: "books_ok g agents D [] st" and tm: "times_ok g agents D st" using ok by (simp_all add: plan_ok_def)
  note T = times_okD [OF tm] and B = books_distinct [OF bk] and q = pop_min_Some [OF r]
  have rs: "set (p_running st) = insert r (set rest)" using q(2) by (metis set_mset_add_mset_insert set_mset_mset)
  obtain ind ready where rel: "foldl (release1 push_stack) (p_ind st, p_ready st) (sorted_deps g ?x) = (ind, ready)" by force
  define st' where "st' = finish_task g r rest st"
  have st': "p_running st' = rest" "p_free st' = p_free st @ [r_agent r]" "p_ind st' = ind" "p_ready st' = ready"
    "p_lanes st' = p_lanes st" "p_now st' = p_now st" "slots st' = slots st"
    by (simp_all add: st'_def finish_task_def rel slots_def)
  have k: "kahn_inv ?n (sorted_deps g) D [] ?M (p_ind st)" "closed_set ?n (sorted_deps g) D"
    using bk by (simp_all add: books_ok_def)
  have edges: "\<forall>u < ?n. \<forall>d \<in> set (sorted_deps g u). d < ?n" using heap_ready_ok(2) [OF g] by (simp add: sorted_deps_def)
  have "?x \<in># ?M" using q(1) by simp
  note t = kahn_inv_take [OF k this edges]
  show x: "?x \<notin> D" by (rule t)
  have "?M - {#?x#} = mset (p_ready st) + mset (map r_pos rest)" using q(2) by simp
  then have "kahn_inv ?n (sorted_deps g) (insert ?x D) [] (mset ready + mset (map r_pos rest)) ind"
    using heap.release_ok [OF _ t(5) rel] t(6) by simp
  then have "books_ok g agents (insert ?x D) [] st'"
    using bk q(2) x B(3) t(4) by (simp add: books_ok_def st')
  moreover have "times_ok g agents (insert ?x D) st'"
  proof -
    have done_x: "f_le (s_end s) (p_now st)" if s: "s \<in> slots st" "s_task s = ?x" for s
    proof -
      obtain s' where s': "s' \<in> set (p_lanes st ! r_agent r)" "s_task s' = ?x" "s_end s' = r_end r"
        using T(5) [OF q(1)] by blast
      have "s' \<in> slots st" using s'(1) bk books_agent [OF bk q(1)] by (auto simp: slots_lane books_ok_def)
      then have "s = s'" using B(2) s s'(2) by (metis distinct_map inj_onD slots_def)
      then show ?thesis using s' now T(4) [OF q(1)] by simp
    qed
    have "slot_ok g (insert ?x D) (p_now st) s" if "s \<in> slots st" for s
      using T(2) [OF that] done_x [OF that] by (auto simp: slot_ok_def)
    moreover have "\<exists>r' \<in> set rest. r_agent r' = a \<and> r_pos r' = s_task s"
      if "a < agents" "s \<in> set (p_lanes st ! a)" "s_task s \<notin> insert ?x D" for a s
      using T(6) [OF that(1,2)] that(3) rs by auto
    ultimately show ?thesis
      using tm by (simp add: times_ok_def st' rs)
  qed
  ultimately show "plan_ok g agents (insert ?x D) [] (finish_task g r rest st)" by (simp add: plan_ok_def st'_def)
qed


lemma complete_phase_ok:
  assumes g: "graph_ok g"
  shows "plan_ok g agents D [] st \<Longrightarrow>
     \<exists>D'. D \<subseteq> D' \<and> plan_ok g agents D' [] (complete_phase g st)
       \<and> (\<forall>r rest. pop_min (running_cmp g) (p_running st) = Some (r, rest) \<longrightarrow> r_end r = p_now st \<longrightarrow> D \<noteq> D')"
  using g
proof (induction g st arbitrary: D rule: complete_phase.induct)
  case (1 g st)
  show ?case
  proof (cases "\<exists>r rest. pop_min (running_cmp g) (p_running st) = Some (r, rest) \<and> r_end r = p_now st")
    case True
    then obtain r rest where r: "pop_min (running_cmp g) (p_running st) = Some (r, rest)" "r_end r = p_now st" by blast
    note f = finish_task_ok [OF 1(3) 1(2) r]
    have "f_total_cmp (r_end r) (p_now st) = Equal" using r(2) f_total_cmp_refl by simp
    from 1(1) [OF r(1) refl this f(1) 1(3)] obtain D' where
      D': "insert (r_pos r) D \<subseteq> D'" "plan_ok g agents D' [] (complete_phase g (finish_task g r rest st))" by blast
    have "complete_phase g st = complete_phase g (finish_task g r rest st)"
      using r f_total_cmp_refl by (simp add: complete_phase.simps [of g st])
    then show ?thesis using D' f(2) by (intro exI [of _ D']) auto
  next
    case False
    then have "complete_phase g st = st"
      using f_total_cmp_Equal by (auto simp: complete_phase.simps [of g st] split: option.split)
    then show ?thesis using False 1(2) by (intro exI [of _ D]) auto
  qed
qed

section \<open>The loop\<close>

lemma plan_idle:
  assumes g: "graph_ok g" and ok: "plan_ok g agents D [] st"
  shows "p_ready st = [] \<and> p_running st = [] \<longleftrightarrow> D = {..<length (g_tasks g)}"
proof -
  let ?n = "length (g_tasks g)"
  have k: "kahn_inv ?n (sorted_deps g) D [] (mset (p_ready st) + mset (map r_pos (p_running st))) (p_ind st)"
    using ok by (simp add: plan_ok_def books_ok_def)
  have sub: "D \<subseteq> {..<?n}" using k by (simp add: kahn_inv_def)
  show ?thesis
  proof
    assume "p_ready st = [] \<and> p_running st = []"
    then have left: "\<forall>d < ?n. d \<notin> D \<longrightarrow> (\<exists>u < ?n. u \<notin> D \<and> d \<in> set (sorted_deps g u))"
      using kahn_inv_ready [OF k] by auto
    have fin: "set (sorted_list_of_set D) = D" using sub finite_subset by fastforce
    have "topological ?n (sorted_deps g) (g_topo g)"
      using g by (simp add: graph_ok_def Let_def sorted_deps_def distinct_deps_def topological_def preds_first_def)
    from acyclic_left_over [OF this, of "sorted_list_of_set D"] show "D = {..<?n}" using left sub fin by simp
  next
    assume "D = {..<?n}"
    then have "set_mset (mset (p_ready st) + mset (map r_pos (p_running st))) = {}" using kahn_inv_ready [OF k] by auto
    then show "p_ready st = [] \<and> p_running st = []" by simp
  qed
qed

lemma plan_loop_ok:
  assumes g: "graph_ok g" and sz: "sizes_ok g" and agents: "0 < agents"
  shows "plan_ok g agents D [] st \<Longrightarrow> length (g_tasks g) \<le> card D + fuel \<Longrightarrow>
    plan_ok g agents {..<length (g_tasks g)} [] (plan_loop g effective fuel st)"
proof (induction fuel arbitrary: D st)
  case 0
  have "D \<subseteq> {..<length (g_tasks g)}" using 0 by (simp add: plan_ok_def books_ok_def kahn_inv_def)
  then have "D = {..<length (g_tasks g)}" using 0(2) by (intro card_seteq) auto
  then show ?case using 0 by simp
next
  case (Suc fuel)
  show ?case
  proof (cases "p_ready st = [] \<and> p_running st = []")
    case True
    then show ?thesis using Suc.prems(1) plan_idle [OF g Suc.prems(1)] by simp
  next
    case False
    obtain st1 W where ph: "start_phase g effective st [] = (st1, W)" by force
    have "mset (p_free st) + mset (map r_agent (p_running st)) = mset [0 ..< agents]"
      using Suc.prems(1) by (simp add: plan_ok_def books_ok_def)
    then have "p_running st = [] \<Longrightarrow> p_free st \<noteq> []" using agents by (auto simp: mset_set_empty_iff)
    then have run: "p_running st1 \<noteq> []" using start_phase_progress [OF ph] False by auto
    let ?st2 = "st1 \<lparr>p_ready := p_ready st1 @ W\<rparr>"
    have ok2: "plan_ok g agents D [] ?st2"
      using start_phase_ok [OF sz Suc.prems(1) ph] by (simp add: plan_ok_def books_ok_def times_ok_def slots_def add.assoc)
    obtain r rest where r: "pop_min (running_cmp g) (p_running ?st2) = Some (r, rest)"
      using run pop_min_None [of "running_cmp g" "p_running ?st2"] by (cases "pop_min (running_cmp g) (p_running ?st2)") auto
    let ?st3 = "?st2 \<lparr>p_now := r_end r\<rparr>"
    have r3: "pop_min (running_cmp g) (p_running ?st3) = Some (r, rest)" "r_end r = p_now ?st3" using r by simp_all
    from complete_phase_ok [OF g advance_ok [OF ok2 r]] obtain D' where D': "D \<subseteq> D'"
      "plan_ok g agents D' [] (complete_phase g ?st3)" "D \<noteq> D'" using r3 by blast
    have "finite D'" using D'(2) books_distinct(3) by (auto simp: plan_ok_def)
    then have "card D < card D'" using D' by (intro psubset_card_mono) auto
    then have "plan_ok g agents {..<length (g_tasks g)} [] (plan_loop g effective fuel (complete_phase g ?st3))"
      using Suc.IH [OF D'(2)] Suc.prems(2) by simp
    then show ?thesis using False ph r by (auto simp: Let_def)
  qed
qed

lemma plan_start_ok:
  assumes g: "graph_ok g"
  shows "plan_ok g agents {} [] (plan_start g agents)"
proof -
  let ?n = "length (g_tasks g)"
  have "count_list (sort xs) x = count_list xs x" for xs :: "nat list" and x
    by (metis count_mset mset_sort)
  then have "open_degree ?n (sorted_deps g) = open_degree ?n (distinct_deps g)"
    by (intro ext) (simp add: open_degree_def sorted_deps_def)
  then have "kahn_inv ?n (sorted_deps g) {} [] (mset (ready_at_start g)) (distinct_after g)"
    using heap_ready_ok(1) [OF g] by (simp add: kahn_inv_def)
  then have "books_ok g agents {} [] (plan_start g agents)"
    by (simp add: books_ok_def plan_start_def closed_set_def)
  moreover have "slots (plan_start g agents) = {}" by (simp add: slots_def plan_start_def)
  then have "times_ok g agents {} (plan_start g agents)"
    by (simp add: times_ok_def) (simp add: plan_start_def f_le_def)
  ultimately show ?thesis by (simp add: plan_ok_def)
qed


section \<open>Properties\<close>

lemma schedule_ok:
  assumes g: "graph_ok g" and sz: "sizes_ok g" and agents: "0 < agents"
  shows "\<exists>st. sc_lanes (schedule g agents policy) = p_lanes st \<and> p_running st = []
    \<and> plan_ok g (min agents MAX_AGENTS) {..<length (g_tasks g)} [] st"
proof -
  let ?a = "min agents MAX_AGENTS" and ?n = "length (g_tasks g)"
  let ?st = "plan_loop g (o_effective (order g policy)) ?n (plan_start g ?a)"
  have a: "0 < ?a" "?a \<noteq> 0" using agents by (simp_all add: MAX_AGENTS_def)
  have ok: "plan_ok g ?a {..<?n} [] ?st" by (rule plan_loop_ok [OF g sz a(1) plan_start_ok [OF g]]) simp
  then have "p_running ?st = []" using plan_idle [OF g ok] by simp
  then show ?thesis using ok a(2) by (intro exI [of _ ?st]) (simp only: schedule_def Let_def if_False schedule_t.simps simp_thms)
qed

lemma books_task:
  assumes "books_ok g agents {..<n} [] st" "p_running st = []"
  shows "s \<in> slots st \<Longrightarrow> s_task s < n"
proof -
  assume s: "s \<in> slots st"
  have "mset (map s_task (concat (p_lanes st))) = mset_set {..<n}" using assms by (simp add: books_ok_def)
  then have "set (map s_task (concat (p_lanes st))) = {..<n}"
    by (metis finite_lessThan finite_set_mset_mset_set set_mset_mset)
  then show "s_task s < n" using s unfolding slots_def by (metis imageI lessThan_iff set_map)
qed

lemma sorted_deps_edge:
  assumes "graph_ok g" "u < length (g_tasks g)" "d < length (g_tasks g)"
  shows "d \<in> set (sorted_deps g u) \<longleftrightarrow> t_id (g_tasks g ! u) \<in> set (t_after (g_tasks g ! d))"
  using graph_ok_edge [OF assms] by (simp add: sorted_deps_def distinct_deps_def)

definition plan_sample :: "task list" where
  "plan_sample = [sample_task ''b'' [''a''] [], sample_task ''a'' [] [''x''], sample_task ''c'' [] [''x'']]"

lemma plan_sample_graph:
  obtains g s t u where "graph_new plan_sample = Inr g" "sizes_ok g" "sc_lanes (schedule g 2 Fifo) = [[s, t], [u]]"
    "s_task s = 1" "s_task t = 0" "s_task u = 2"
proof -
  have "(case graph_new plan_sample of Inr g \<Rightarrow> sizes_ok g
      \<and> (case sc_lanes (schedule g 2 Fifo) of
           [[s, t], [u]] \<Rightarrow> s_task s = 1 \<and> s_task t = 0 \<and> s_task u = 2 | _ \<Rightarrow> False) | _ \<Rightarrow> False)"
    by code_simp
  then show ?thesis using that by (auto split: sum.splits list.splits)
qed

text \<open>
  C13: a schedule is complete: there are as many lanes as agents, at most 256, every task has exactly one slot in
  one lane, and each slot is exactly as long as its task.
\<close>

theorem schedule_complete:
  assumes "graph_new ts = Inr g" "sizes_ok g" "0 < agents"
  shows "length (sc_lanes (schedule g agents policy)) = min agents MAX_AGENTS
    \<and> mset (map s_task (concat (sc_lanes (schedule g agents policy)))) = mset [0 ..< length ts]
    \<and> (\<forall>s \<in> set (concat (sc_lanes (schedule g agents policy))).
         f_le f_zero (s_start s) \<and> s_end s = f_add (s_start s) (t_size (ts ! s_task s)))"
proof -
  note ok = graph_new_Inr [OF assms(1)]
  obtain st where st: "sc_lanes (schedule g agents policy) = p_lanes st" "p_running st = []"
    "plan_ok g (min agents MAX_AGENTS) {..<length (g_tasks g)} [] st"
    using schedule_ok [OF ok(1) assms(2,3)] by blast
  then have "mset (map s_task (concat (p_lanes st))) = mset_set {..<length ts}" "length (p_lanes st) = min agents MAX_AGENTS"
    using ok(2) by (simp_all add: plan_ok_def books_ok_def)
  moreover have "slot_ok g {..<length (g_tasks g)} (p_now st) s" if "s \<in> set (concat (p_lanes st))" for s
    using times_okD(2) st(3) that by (metis plan_ok_def slots_def)
  ultimately show ?thesis using st(1) ok(2) by (auto simp: slot_ok_def lessThan_atLeast0)
qed

theorem schedule_complete_witness:
  "\<exists>g. graph_new plan_sample = Inr g \<and> length (sc_lanes (schedule g 2 Fifo)) = 2
     \<and> mset (map s_task (concat (sc_lanes (schedule g 2 Fifo)))) = mset [0, 1, 2]"
proof -
  obtain g where g: "graph_new plan_sample = Inr g" "sizes_ok g" by (rule plan_sample_graph)
  have "[0 ..< length plan_sample] = [0, 1, 2]" by (simp add: plan_sample_def upt_rec)
  then show ?thesis using g schedule_complete [OF g, of 2 Fifo] by (simp add: MAX_AGENTS_def del: mset_concat)
qed

text \<open>
  C14: a schedule respects the prerequisites: a task starts no earlier than the end of each of its prerequisites.
\<close>

theorem schedule_after_prerequisites:
  assumes "graph_new ts = Inr g" "sizes_ok g" "0 < agents"
    and "s \<in> set (concat (sc_lanes (schedule g agents policy)))" "t \<in> set (concat (sc_lanes (schedule g agents policy)))"
    and "t_id (ts ! s_task s) \<in> set (t_after (ts ! s_task t))"
  shows "f_le (s_end s) (s_start t)"
proof -
  note ok = graph_new_Inr [OF assms(1)]
  obtain st where st: "sc_lanes (schedule g agents policy) = p_lanes st" "p_running st = []"
    "plan_ok g (min agents MAX_AGENTS) {..<length (g_tasks g)} [] st"
    using schedule_ok [OF ok(1) assms(2,3)] by blast
  have in_st: "s \<in> slots st" "t \<in> slots st" using assms(4,5) st(1) by (simp_all add: slots_def)
  then have "s_task s < length ts" "s_task t < length ts"
    using books_task [OF _ st(2)] st(3) ok(2) unfolding plan_ok_def by blast+
  then have "s_task t \<in> set (sorted_deps g (s_task s))" using sorted_deps_edge [OF ok(1)] ok(2) assms(6) by simp
  then show ?thesis
    using times_okD(8) [of g _ _ st t "s_task s" s] st(3) in_st \<open>s_task s < length ts\<close> ok(2)
    by (auto simp: plan_ok_def before_def)
qed

theorem schedule_after_prerequisites_witness:
  "\<exists>g s t u. graph_new plan_sample = Inr g \<and> s_task s = 1 \<and> s_task t = 0
     \<and> sc_lanes (schedule g 2 Fifo) = [[s, t], [u]] \<and> f_le (s_end s) (s_start t)"
proof -
  obtain g s t u where g: "graph_new plan_sample = Inr g" "sizes_ok g"
    and l: "sc_lanes (schedule g 2 Fifo) = [[s, t], [u]]" "s_task s = 1" "s_task t = 0" by (rule plan_sample_graph)
  have "t_id (plan_sample ! 1) \<in> set (t_after (plan_sample ! 0))" by (simp add: plan_sample_def sample_task_def)
  then have "f_le (s_end s) (s_start t)" using schedule_after_prerequisites [OF g, of 2 s Fifo t] l by simp
  then show ?thesis using g l by blast
qed

text \<open>
  C15: no two slots of one agent overlap, and two tasks that touch the same path never run at the same time,
  whichever agents they run on.
\<close>

theorem schedule_no_overlap:
  assumes "graph_new ts = Inr g" "sizes_ok g" "0 < agents"
  shows "(\<forall>lane \<in> set (sc_lanes (schedule g agents policy)). sorted_wrt (\<lambda>s t. f_le (s_end s) (s_start t)) lane)
    \<and> (\<forall>s \<in> set (concat (sc_lanes (schedule g agents policy))). \<forall>t \<in> set (concat (sc_lanes (schedule g agents policy))).
         s_task s \<noteq> s_task t \<longrightarrow> conflict (ts ! s_task s) (ts ! s_task t) \<longrightarrow>
         f_le (s_end s) (s_start t) \<or> f_le (s_end t) (s_start s))"
proof -
  note ok = graph_new_Inr [OF assms(1)]
  obtain st where st: "sc_lanes (schedule g agents policy) = p_lanes st" "p_running st = []"
    "plan_ok g (min agents MAX_AGENTS) {..<length (g_tasks g)} [] st"
    using schedule_ok [OF ok(1) assms(2,3)] by blast
  then have tm: "times_ok g (min agents MAX_AGENTS) {..<length (g_tasks g)} st"
    and len: "length (p_lanes st) = min agents MAX_AGENTS" by (simp_all add: plan_ok_def books_ok_def)
  have "before = (\<lambda>s t. f_le (s_end s) (s_start t))" by (intro ext) (simp add: before_def)
  then have "\<forall>lane \<in> set (p_lanes st). sorted_wrt (\<lambda>s t. f_le (s_end s) (s_start t)) lane"
    using times_okD(3) [OF tm] len by (metis in_set_conv_nth)
  moreover have "f_le (s_end s) (s_start t) \<or> f_le (s_end t) (s_start s)"
    if "s \<in> slots st" "t \<in> slots st" "s_task s \<noteq> s_task t" "conflict (ts ! s_task s) (ts ! s_task t)" for s t
    using times_okD(9) [OF tm that(1,2,3)] that(4) ok(2) by (simp add: before_def)
  ultimately show ?thesis unfolding st(1) slots_def by blast
qed

theorem schedule_no_overlap_witness:
  "\<exists>g s t u. graph_new plan_sample = Inr g \<and> sc_lanes (schedule g 2 Fifo) = [[s, t], [u]]
     \<and> conflict (plan_sample ! s_task s) (plan_sample ! s_task u)
     \<and> (f_le (s_end s) (s_start u) \<or> f_le (s_end u) (s_start s))"
proof -
  obtain g s t u where g: "graph_new plan_sample = Inr g" "sizes_ok g"
    and l: "sc_lanes (schedule g 2 Fifo) = [[s, t], [u]]" "s_task s = 1" "s_task u = 2" by (rule plan_sample_graph)
  have c: "conflict (plan_sample ! s_task s) (plan_sample ! s_task u)" unfolding l(2,3) by code_simp
  have "s_task s \<noteq> s_task u" using l by simp
  then have "f_le (s_end s) (s_start u) \<or> f_le (s_end u) (s_start s)"
    using schedule_no_overlap [OF g, of 2 Fifo] c unfolding l(1) by simp
  then show ?thesis using g l c by blast
qed

lemma foldl_f_max_in: "foldl f_max a xs = a \<or> foldl f_max a xs \<in> set xs"
proof (induction xs arbitrary: a)
  case (Cons x xs)
  have "f_max a x = a \<or> f_max a x = x" by (auto simp: f_max_def)
  then show ?case using Cons [of "f_max a x"] by auto
qed simp

text \<open>
  C16: the makespan is the time the last slot ends: no slot ends later, and with at least one task some slot ends
  exactly then.
\<close>

theorem schedule_makespan:
  assumes "graph_new ts = Inr g" "sizes_ok g" "0 < agents"
  shows "(\<forall>s \<in> set (concat (sc_lanes (schedule g agents policy))). f_le (s_end s) (sc_makespan (schedule g agents policy)))
    \<and> (sc_makespan (schedule g agents policy) = f_zero
       \<or> (\<exists>s \<in> set (concat (sc_lanes (schedule g agents policy))). s_end s = sc_makespan (schedule g agents policy)))"
proof -
  note ok = graph_new_Inr [OF assms(1)]
  obtain st where st: "sc_lanes (schedule g agents policy) = p_lanes st" "p_running st = []"
    "plan_ok g (min agents MAX_AGENTS) {..<length (g_tasks g)} [] st"
    using schedule_ok [OF ok(1) assms(2,3)] by blast
  then have tm: "times_ok g (min agents MAX_AGENTS) {..<length (g_tasks g)} st"
    and len: "length (p_lanes st) = min agents MAX_AGENTS" by (simp_all add: plan_ok_def books_ok_def)
  let ?ends = "map (\<lambda>lane. s_end (last lane)) (filter (\<lambda>lane. lane \<noteq> []) (p_lanes st))"
  have m: "sc_makespan (schedule g agents policy) = foldl f_max f_zero ?ends"
  proof -
    have "min agents MAX_AGENTS \<noteq> 0" using assms(3) by (simp add: MAX_AGENTS_def)
    then show ?thesis using st(1) by (simp only: schedule_def Let_def if_False schedule_t.simps simp_thms)
  qed
  have "f_le (s_end s) (foldl f_max f_zero ?ends)" if s: "s \<in> set (concat (p_lanes st))" for s
  proof -
    obtain b where b: "b < length (p_lanes st)" "s \<in> set (p_lanes st ! b)" using s slots_lane [of s st] by (auto simp: slots_def)
    obtain xs l where xs: "p_lanes st ! b = xs @ [l]" using b(2) by (cases "p_lanes st ! b" rule: rev_cases) auto
    then have l: "l \<in> slots st" using b(1) by (auto simp: slots_lane)
    have so: "slot_ok g {..<length (g_tasks g)} (p_now st) l" by (rule times_okD(2) [OF tm l])
    have "s_task l < length (g_tasks g)" using books_task [OF _ st(2) l] st(3) unfolding plan_ok_def by blast
    then have "f_le f_zero (t_size (g_tasks g ! s_task l))" using assms(2) by (simp add: sizes_ok_def f_lt_imp_le)
    then have grow: "f_le (s_start l) (s_end l)" using so f_add_le_left by (auto simp: slot_ok_def)
    have "sorted_wrt before (xs @ [l])" using times_okD(3) [OF tm] b(1) len xs by metis
    then have "f_le (s_end s) (s_end l)"
      using b(2) xs grow f_le_trans [OF _ grow] by (cases "s = l") (auto simp: sorted_wrt_append before_def, simp add: f_le_def)
    moreover have "s_end l \<in> set ?ends" using b(1) xs nth_mem [OF b(1)] by (auto simp: image_iff intro!: bexI [of _ "xs @ [l]"])
    then have "f_le (s_end l) (foldl f_max f_zero ?ends)" using foldl_f_max [of f_zero ?ends] grow by (auto simp: f_le_def)
    ultimately show ?thesis by (rule f_le_trans)
  qed
  moreover have "\<exists>s \<in> set (concat (p_lanes st)). s_end s = e" if "e \<in> set ?ends" for e
    using that last_in_set by fastforce
  ultimately show ?thesis using foldl_f_max_in [of f_zero ?ends] unfolding m st(1) by blast
qed

theorem schedule_makespan_witness:
  "\<exists>g s t u. graph_new plan_sample = Inr g \<and> sc_lanes (schedule g 2 Fifo) = [[s, t], [u]]
     \<and> f_le (s_end u) (sc_makespan (schedule g 2 Fifo))"
proof -
  obtain g s t u where g: "graph_new plan_sample = Inr g" "sizes_ok g"
    and l: "sc_lanes (schedule g 2 Fifo) = [[s, t], [u]]" by (rule plan_sample_graph)
  have "f_le (s_end u) (sc_makespan (schedule g 2 Fifo))" using schedule_makespan [OF g, of 2 Fifo] l by simp
  then show ?thesis using g l by blast
qed

end
