(* ===== verification/Crypto.thy ===== *)
theory Crypto
  imports Prelude
begin

text \<open>
  Signing bytes and key wrapping (\<open>crates/agora-crypto/src/lib.rs\<close>). The curve, the cipher, the hash and the
  random source are other packages: they are parameters of the definitions. What is proved is what this crate
  adds: the encoding that is signed has one reading, and a wrapped channel key is unwrapped by its recipient.
\<close>

section \<open>Definitions\<close>

datatype crypto_error = BadKey | BadSignature | Decrypt | Malformed | Random

definition SIG_LEN :: nat where "SIG_LEN = 64"
definition KEY_LEN :: nat where "KEY_LEN = 32"
definition NONCE_LEN :: nat where "NONCE_LEN = 24"

text \<open>The \<open>k\<close> little-endian bytes of an integer, in two's complement.\<close>

fun le_bytes :: "nat \<Rightarrow> int \<Rightarrow> string" where
  "le_bytes 0 x = []"
| "le_bytes (Suc k) x = char_of (nat (x mod 256)) # le_bytes k (x div 256)"

lemma le_bytes_code [code]:
  "le_bytes 0 x = []"
  "le_bytes (Suc k) x = int_char (x mod 256) # le_bytes k (x div 256)"
  by (simp_all add: int_char_def)

definition canonical_field :: "string \<Rightarrow> string" where
  "canonical_field f = le_bytes 8 (int (length f)) @ f"

definition canonical :: "string \<Rightarrow> string list \<Rightarrow> string" where
  "canonical domain fields = ''agora/'' @ domain @ [CHR 0x00] @ concat (map canonical_field fields)"

definition wrap_aad :: "string \<Rightarrow> int \<Rightarrow> string" where
  "wrap_aad channel epoch = canonical ''wrap/v1'' [channel, le_bytes 8 epoch]"

definition body_aad :: "string \<Rightarrow> int \<Rightarrow> string \<Rightarrow> string" where
  "body_aad channel epoch message_id = canonical ''body/v1'' [channel, le_bytes 8 epoch, message_id]"

definition attachment_aad :: "string \<Rightarrow> int \<Rightarrow> string" where
  "attachment_aad channel epoch = canonical ''att/v1'' [channel, le_bytes 8 epoch]"

text \<open>
  The primitives of the libraries (curve points, signatures, key agreement, key derivation, the content hash in hex,
  cipher, SHA-256), and one reading of the random source.
\<close>

record primitives =
  pr_key_ok :: "string \<Rightarrow> bool"
  pr_sig_ok :: "string \<Rightarrow> string \<Rightarrow> string \<Rightarrow> bool"
  pr_public :: "string \<Rightarrow> string"
  pr_dh :: "string \<Rightarrow> string \<Rightarrow> string"
  pr_derive :: "string \<Rightarrow> string \<Rightarrow> string"
  pr_hash :: "string \<Rightarrow> string"
  pr_encrypt :: "string \<Rightarrow> string \<Rightarrow> string \<Rightarrow> string \<Rightarrow> string option"
  pr_decrypt :: "string \<Rightarrow> string \<Rightarrow> string \<Rightarrow> string \<Rightarrow> string option"
  pr_random :: "string option"
  pr_sha256 :: "string \<Rightarrow> string"

definition verify :: "primitives \<Rightarrow> string \<Rightarrow> string \<Rightarrow> string \<Rightarrow> crypto_error + unit" where
  "verify P public msg sig =
     (if \<not> pr_key_ok P public then Inl BadKey
      else if length sig \<noteq> SIG_LEN then Inl BadSignature
      else if pr_sig_ok P public msg sig then Inr () else Inl BadSignature)"

definition shared_with :: "primitives \<Rightarrow> string \<Rightarrow> string \<Rightarrow> crypto_error + string" where
  "shared_with P seed peer =
     (if \<not> pr_key_ok P peer then Inl BadKey
      else
        let mine = pr_public P seed;
            (a, b) = (if mine \<le> peer then (mine, peer) else (peer, mine))
        in Inr (pr_derive P ''agora/channel-key-wrap/v1'' (pr_dh P seed peer @ a @ b)))"

definition aead_seal :: "primitives \<Rightarrow> string \<Rightarrow> string \<Rightarrow> string \<Rightarrow> crypto_error + string" where
  "aead_seal P key aad plain =
     (case pr_random P of
        None \<Rightarrow> Inl Random
      | Some nonce \<Rightarrow>
          (case pr_encrypt P key nonce aad plain of
             None \<Rightarrow> Inl Decrypt
           | Some ct \<Rightarrow> Inr (nonce @ ct)))"

definition aead_open :: "primitives \<Rightarrow> string \<Rightarrow> string \<Rightarrow> string \<Rightarrow> crypto_error + string" where
  "aead_open P key aad blob =
     (if length blob < NONCE_LEN + 16 then Inl Malformed
      else case pr_decrypt P key (take NONCE_LEN blob) aad (drop NONCE_LEN blob) of
        None \<Rightarrow> Inl Decrypt
      | Some plain \<Rightarrow> Inr plain)"

definition wrap_key :: "primitives \<Rightarrow> string \<Rightarrow> string \<Rightarrow> string \<Rightarrow> int \<Rightarrow> string \<Rightarrow> crypto_error + string" where
  "wrap_key P seed recipient channel epoch key =
     bind_result (shared_with P seed recipient) (\<lambda>shared. aead_seal P shared (wrap_aad channel epoch) key)"

definition unwrap_key :: "primitives \<Rightarrow> string \<Rightarrow> string \<Rightarrow> string \<Rightarrow> int \<Rightarrow> string \<Rightarrow> crypto_error + string" where
  "unwrap_key P seed sender channel epoch wrapped =
     bind_result (shared_with P seed sender) (\<lambda>shared.
       bind_result (aead_open P shared (wrap_aad channel epoch) wrapped) (\<lambda>plain.
         if length plain = KEY_LEN then Inr plain else Inl Malformed))"

section \<open>The encoding has one reading\<close>

lemma length_le_bytes [simp]: "length (le_bytes k x) = k"
  by (induction k arbitrary: x) auto

lemma char_of_byte_inj:
  assumes "char_of (nat (x mod 256)) = (char_of (nat (y mod 256)) :: char)"
  shows "x mod 256 = (y :: int) mod 256"
proof -
  have "nat (x mod 256) < 256" "nat (y mod 256) < 256" by (simp_all add: nat_less_iff)
  then have "nat (x mod 256) = nat (y mod 256)" using assms by (metis of_char_of mod_less)
  then show ?thesis by (simp add: nat_eq_iff2)
qed

lemma le_bytes_inj: "le_bytes k x = le_bytes k y \<Longrightarrow> x mod 256 ^ k = y mod 256 ^ k"
proof (induction k arbitrary: x y)
  case (Suc k)
  have b: "x mod 256 = y mod 256" using Suc.prems char_of_byte_inj by simp
  have d: "x div 256 mod 256 ^ k = y div 256 mod 256 ^ k" by (rule Suc.IH) (use Suc.prems in simp)
  have m: "z mod 256 ^ Suc k = 256 * (z div 256 mod 256 ^ k) + z mod 256" for z :: int
    using zmod_zmult2_eq [of "256 ^ k" z 256] by simp
  show ?case using m [of x] m [of y] b d by simp
qed simp

lemma le_bytes_u64_inj: "0 \<le> x \<Longrightarrow> x < 2 ^ 64 \<Longrightarrow> 0 \<le> y \<Longrightarrow> y < 2 ^ 64 \<Longrightarrow> le_bytes 8 x = le_bytes 8 y \<longleftrightarrow> x = y"
  using le_bytes_inj [of 8 x y] by (auto simp: mod_pos_pos_trivial)

lemma le_bytes_i64_inj:
  assumes "in_i64 x" "in_i64 y" "le_bytes 8 x = le_bytes 8 y"
  shows "x = y"
proof -
  have "2 ^ 64 dvd x - y" using le_bytes_inj [OF assms(3)] by (simp add: mod_eq_dvd_iff)
  moreover have "\<bar>x - y\<bar> < 2 ^ 64" using assms by (auto simp: in_i64_def)
  ultimately have "x - y = 0" using zdvd_imp_le [of "2 ^ 64" "\<bar>x - y\<bar>"] by (cases "x - y = 0") auto
  then show ?thesis by simp
qed

text \<open>A field fits: its length is a 64-bit number, as every slice length is.\<close>

definition fits :: "string \<Rightarrow> bool" where "fits f = (int (length f) < 2 ^ 64)"

lemma canonical_field_append:
  assumes "fits f" "fits g" "canonical_field f @ xs = canonical_field g @ ys"
  shows "f = g \<and> xs = ys"
proof -
  have e: "le_bytes 8 (int (length f)) = le_bytes 8 (int (length g)) \<and> f @ xs = g @ ys"
    using assms(3) by (simp add: canonical_field_def append_eq_append_conv)
  then have "length f = length g" using le_bytes_u64_inj assms(1,2) by (simp add: fits_def)
  then show ?thesis using e by simp
qed

lemma canonical_fields_inj:
  "list_all fits fs \<Longrightarrow> list_all fits gs \<Longrightarrow>
     concat (map canonical_field fs) = concat (map canonical_field gs) \<Longrightarrow> fs = gs"
proof (induction fs arbitrary: gs)
  case Nil
  have "canonical_field g \<noteq> []" for g by (metis append_is_Nil_conv canonical_field_def length_le_bytes list.size(3) zero_neq_numeral)
  then show ?case using Nil by (cases gs) auto
next
  case (Cons f fs)
  have "canonical_field f \<noteq> []" by (metis append_is_Nil_conv canonical_field_def length_le_bytes list.size(3) zero_neq_numeral)
  then obtain g gs' where g: "gs = g # gs'" using Cons.prems by (cases gs) auto
  then have "f = g \<and> concat (map canonical_field fs) = concat (map canonical_field gs')"
    by (intro canonical_field_append) (use Cons.prems in simp_all)
  then show ?case using Cons g by simp
qed

lemma no_sep_append:
  assumes "(x :: char) \<notin> set a" "x \<notin> set b" "a @ x # xs = b @ x # ys"
  shows "a = b \<and> xs = ys"
  using split_once_append [OF assms(1), of xs, unfolded assms(3)] split_once_append [OF assms(2), of ys] by simp

text \<open>
  The encoding that is signed has one reading: two (domain, fields) pairs with the same bytes are equal, for domains
  without a NUL byte and fields whose lengths are 64-bit numbers.
\<close>

lemma canonical_inj:
  assumes "CHR 0x00 \<notin> set d" "CHR 0x00 \<notin> set e" "list_all fits fs" "list_all fits gs"
    and "canonical d fs = canonical e gs"
  shows "d = e \<and> fs = gs"
proof -
  have "d @ CHR 0x00 # concat (map canonical_field fs) = e @ CHR 0x00 # concat (map canonical_field gs)"
    using assms(5) by (simp add: canonical_def)
  then have "d = e \<and> concat (map canonical_field fs) = concat (map canonical_field gs)"
    by (rule no_sep_append [OF assms(1,2)])
  then show ?thesis using canonical_fields_inj [OF assms(3,4)] by simp
qed

section \<open>Wrapped channel keys\<close>

lemma shared_with_sym:
  assumes dh: "\<forall>s t. pr_dh P s (pr_public P t) = pr_dh P t (pr_public P s)"
    and ok: "\<forall>s. pr_key_ok P (pr_public P s)"
  shows "shared_with P s (pr_public P t) = shared_with P t (pr_public P s)"
  using assms by (auto simp: shared_with_def Let_def)

text \<open>
  C28: the recipient of a wrapped channel key unwraps it to the same key, with the sender's public key, for the
  same channel and epoch. The hypotheses are the laws of the libraries: the Diffie-Hellman secret is the same
  from both sides, public keys are curve points, nonces have 24 bytes, and decryption inverts encryption and
  removes a tag of 16 bytes.
\<close>

theorem wrap_key_roundtrip:
  assumes dh: "\<forall>s t. pr_dh P s (pr_public P t) = pr_dh P t (pr_public P s)"
    and ok: "\<forall>s. pr_key_ok P (pr_public P s)"
    and nonce: "\<forall>n. pr_random P = Some n \<longrightarrow> length n = NONCE_LEN"
    and aead: "\<forall>k n aad m c. pr_encrypt P k n aad m = Some c \<longrightarrow> pr_decrypt P k n aad c = Some m \<and> length c = length m + 16"
    and len: "length key = KEY_LEN"
    and wrapped: "wrap_key P sender (pr_public P recipient) channel epoch key = Inr blob"
  shows "unwrap_key P recipient (pr_public P sender) channel epoch blob = Inr key"
proof -
  obtain shared n c where s: "shared_with P sender (pr_public P recipient) = Inr shared" "pr_random P = Some n"
    "pr_encrypt P shared n (wrap_aad channel epoch) key = Some c" "blob = n @ c"
    using wrapped by (auto simp: wrap_key_def bind_result_Inr_iff aead_seal_def split: option.splits)
  have r: "shared_with P recipient (pr_public P sender) = Inr shared"
    using s(1) shared_with_sym [OF dh ok, of recipient sender] by simp
  have n: "length n = NONCE_LEN" and c: "pr_decrypt P shared n (wrap_aad channel epoch) c = Some key" "length c = KEY_LEN + 16"
    using s nonce aead len by auto
  then have "aead_open P shared (wrap_aad channel epoch) blob = Inr key"
    using s(4) by (simp add: aead_open_def KEY_LEN_def)
  then show ?thesis using r len by (simp add: unwrap_key_def)
qed

text \<open>Toy primitives that satisfy the laws: a cipher that appends a tag of 16 bytes.\<close>

definition toy_primitives :: primitives where
  "toy_primitives = \<lparr>pr_key_ok = \<lambda>_. True, pr_sig_ok = \<lambda>k m s. s = replicate 64 CHR ''s'', pr_public = \<lambda>s. s, pr_dh = \<lambda>s t. [],
     pr_derive = \<lambda>c m. m, pr_hash = \<lambda>m. m, pr_encrypt = \<lambda>k n aad m. Some (replicate 16 CHR ''t'' @ m),
     pr_decrypt = \<lambda>k n aad c. Some (drop 16 c), pr_random = Some (replicate 24 CHR ''n''), pr_sha256 = \<lambda>m. m\<rparr>"

lemma pr_public_toy: "pr_public toy_primitives s = s"
  by (simp add: toy_primitives_def)

theorem wrap_key_roundtrip_witness:
  "\<exists>blob. wrap_key toy_primitives ''a'' ''b'' ''general'' 3 (replicate 32 CHR ''k'') = Inr blob
     \<and> unwrap_key toy_primitives ''b'' ''a'' ''general'' 3 blob = Inr (replicate 32 CHR ''k'')"
proof -
  have "\<not> isl (wrap_key toy_primitives ''a'' ''b'' ''general'' 3 (replicate 32 CHR ''k''))" by code_simp
  then obtain blob where b: "wrap_key toy_primitives ''a'' (pr_public toy_primitives ''b'') ''general'' 3 (replicate 32 CHR ''k'') = Inr blob"
    by (metis isl_def sum.exhaust pr_public_toy)
  have "unwrap_key toy_primitives ''b'' (pr_public toy_primitives ''a'') ''general'' 3 blob = Inr (replicate 32 CHR ''k'')"
    by (rule wrap_key_roundtrip [OF _ _ _ _ _ b]) (simp_all add: toy_primitives_def NONCE_LEN_def KEY_LEN_def)
  then show ?thesis using b unfolding pr_public_toy by blast
qed

end
