(* ===== verification/Policy.thy ===== *)
theory Policy
  imports F64
begin

text \<open>
  Team and lane policies with layered defaults (\<open>crates/agora-sched/src/policy.rs\<close>). Layers are applied from
  the most general to the most specific; the last one that sets a field decides it.
\<close>

section \<open>Definitions\<close>

record team_policy =
  tp_stale_after_s :: "f64 option"
  tp_escalate_after_s :: "f64 option"
  tp_reclaim_after_s :: "f64 option"
  tp_reclaim :: "bool option"
  tp_require_review :: "bool option"
  tp_wip_limit :: "int option"
  tp_escalation_chain :: "string list option"
  tp_sprint_rollover :: "bool option"

record effective_policy =
  ep_stale_after_s :: f64
  ep_escalate_after_s :: f64
  ep_reclaim_after_s :: f64
  ep_reclaim :: bool
  ep_require_review :: bool
  ep_wip_limit :: "int option"
  ep_escalation_chain :: "string list"
  ep_sprint_rollover :: bool

definition policy_defaults :: "bool \<Rightarrow> effective_policy" where
  "policy_defaults require_review_default =
     \<lparr>ep_stale_after_s = f_of_int 1800, ep_escalate_after_s = f_of_int 900, ep_reclaim_after_s = f_of_int 3600,
      ep_reclaim = True, ep_require_review = require_review_default, ep_wip_limit = None,
      ep_escalation_chain = [], ep_sprint_rollover = True\<rparr>"

abbreviation or_keep :: "'a option \<Rightarrow> 'a \<Rightarrow> 'a" where
  "or_keep new old \<equiv> (case new of Some v \<Rightarrow> v | None \<Rightarrow> old)"

definition apply_layer :: "effective_policy \<Rightarrow> team_policy \<Rightarrow> effective_policy" where
  "apply_layer out layer =
     \<lparr>ep_stale_after_s = or_keep (tp_stale_after_s layer) (ep_stale_after_s out),
      ep_escalate_after_s = or_keep (tp_escalate_after_s layer) (ep_escalate_after_s out),
      ep_reclaim_after_s = or_keep (tp_reclaim_after_s layer) (ep_reclaim_after_s out),
      ep_reclaim = or_keep (tp_reclaim layer) (ep_reclaim out),
      ep_require_review = or_keep (tp_require_review layer) (ep_require_review out),
      ep_wip_limit = (case tp_wip_limit layer of Some v \<Rightarrow> Some v | None \<Rightarrow> ep_wip_limit out),
      ep_escalation_chain = or_keep (tp_escalation_chain layer) (ep_escalation_chain out),
      ep_sprint_rollover = or_keep (tp_sprint_rollover layer) (ep_sprint_rollover out)\<rparr>"

definition effective :: "team_policy list \<Rightarrow> bool \<Rightarrow> effective_policy" where
  "effective layers require_review_default = foldl apply_layer (policy_defaults require_review_default) layers"

definition is_pubkey_hex :: "string \<Rightarrow> bool" where
  "is_pubkey_hex key =
     (length key = 64 \<and> list_all (\<lambda>c. is_digit c \<or> c \<in> set ''abcdef'') key)"

definition bad_duration :: "f64 option \<Rightarrow> bool" where
  "bad_duration d = (case d of None \<Rightarrow> False | Some v \<Rightarrow> \<not> is_finite v \<or> f_le v f_zero)"

definition policy_validate :: "team_policy \<Rightarrow> unit result" where
  "policy_validate p =
     (case find (\<lambda>(name, value). bad_duration value)
        [(''stale_after_s'', tp_stale_after_s p), (''escalate_after_s'', tp_escalate_after_s p),
         (''reclaim_after_s'', tp_reclaim_after_s p)] of
        Some (name, _) \<Rightarrow> Inl (name @ '' must be a finite number greater than zero'')
      | None \<Rightarrow>
          if (case tp_wip_limit p of Some w \<Rightarrow> w < 1 | None \<Rightarrow> False) then Inl ''wip_limit must be at least 1''
          else (case tp_escalation_chain p of
             None \<Rightarrow> Inr ()
           | Some chain \<Rightarrow>
               if 16 < length chain then Inl ''escalation_chain must have at most 16 entries''
               else if \<not> list_all is_pubkey_hex chain then
                 Inl ''escalation_chain entries must be 64-character lowercase hex public keys''
               else if \<not> distinct chain then Inl ''escalation_chain must not contain duplicate entries''
               else Inr ()))"

section \<open>Layering\<close>

text \<open>The last layer that sets a field, or the default.\<close>

definition last_set :: "('p \<Rightarrow> 'a option) \<Rightarrow> 'p list \<Rightarrow> 'a \<Rightarrow> 'a" where
  "last_set field layers d =
     (case find (\<lambda>l. field l \<noteq> None) (rev layers) of Some l \<Rightarrow> the (field l) | None \<Rightarrow> d)"

lemma last_set_snoc: "last_set field (ls @ [l]) d = or_keep (field l) (last_set field ls d)"
  by (simp add: last_set_def split: option.split)

lemma last_set_Nil [simp]: "last_set field [] d = d"
  by (simp add: last_set_def)

lemma effective_snoc: "effective (ls @ [l]) d = apply_layer (effective ls d) l"
  by (simp add: effective_def)

text \<open>
  C29: every field of the effective policy is the value of the most specific layer that sets it, and the
  documented default where no layer does.
\<close>

theorem effective_last_layer_wins:
  "ep_stale_after_s (effective layers d) = last_set tp_stale_after_s layers (f_of_int 1800)
   \<and> ep_escalate_after_s (effective layers d) = last_set tp_escalate_after_s layers (f_of_int 900)
   \<and> ep_reclaim_after_s (effective layers d) = last_set tp_reclaim_after_s layers (f_of_int 3600)
   \<and> ep_reclaim (effective layers d) = last_set tp_reclaim layers True
   \<and> ep_require_review (effective layers d) = last_set tp_require_review layers d
   \<and> ep_wip_limit (effective layers d) = last_set (\<lambda>l. map_option Some (tp_wip_limit l)) layers None
   \<and> ep_escalation_chain (effective layers d) = last_set tp_escalation_chain layers []
   \<and> ep_sprint_rollover (effective layers d) = last_set tp_sprint_rollover layers True"
proof (induction layers rule: rev_induct)
  case Nil
  show ?case by (simp add: effective_def policy_defaults_def)
next
  case (snoc l ls)
  then show ?case by (simp add: effective_snoc last_set_snoc apply_layer_def split: option.split)
qed

text \<open>What a validated policy promises, kept by layering.\<close>

definition policy_ok :: "team_policy \<Rightarrow> bool" where
  "policy_ok p =
     ((\<forall>d \<in> {tp_stale_after_s p, tp_escalate_after_s p, tp_reclaim_after_s p}. \<forall>v. d = Some v \<longrightarrow> is_finite v \<and> f_lt f_zero v)
      \<and> (\<forall>w. tp_wip_limit p = Some w \<longrightarrow> 1 \<le> w)
      \<and> (\<forall>c. tp_escalation_chain p = Some c \<longrightarrow> length c \<le> 16 \<and> list_all is_pubkey_hex c \<and> distinct c))"

lemma bad_duration_iff: "bad_duration d \<longleftrightarrow> \<not> (\<forall>v. d = Some v \<longrightarrow> is_finite v \<and> f_lt f_zero v)"
  by (cases d) (auto simp: bad_duration_def f_le_def f_lt_def is_finite_def is_nan_def)

lemma policy_validate_iff: "policy_validate p = Inr () \<longleftrightarrow> policy_ok p"
proof -
  have "policy_ok p \<longleftrightarrow> \<not> bad_duration (tp_stale_after_s p) \<and> \<not> bad_duration (tp_escalate_after_s p)
      \<and> \<not> bad_duration (tp_reclaim_after_s p) \<and> (case tp_wip_limit p of Some w \<Rightarrow> \<not> w < 1 | None \<Rightarrow> True)
      \<and> (case tp_escalation_chain p of None \<Rightarrow> True | Some c \<Rightarrow> \<not> 16 < length c \<and> list_all is_pubkey_hex c \<and> distinct c)"
    unfolding policy_ok_def bad_duration_iff by (simp split: option.split) auto
  then show ?thesis
    by (cases "tp_escalation_chain p"; cases "tp_wip_limit p") (simp_all add: policy_validate_def)
qed

text \<open>
  C31: layers that pass \<open>validate\<close> give an effective policy with positive finite durations, a wip limit of at
  least one, and an escalation chain of at most 16 distinct public keys.
\<close>

theorem effective_of_validated:
  assumes "\<forall>l \<in> set layers. policy_validate l = Inr ()"
  shows "f_lt f_zero (ep_stale_after_s (effective layers d)) \<and> f_lt f_zero (ep_escalate_after_s (effective layers d))
    \<and> f_lt f_zero (ep_reclaim_after_s (effective layers d))
    \<and> (\<forall>w. ep_wip_limit (effective layers d) = Some w \<longrightarrow> 1 \<le> w)
    \<and> length (ep_escalation_chain (effective layers d)) \<le> 16 \<and> distinct (ep_escalation_chain (effective layers d))
    \<and> list_all is_pubkey_hex (ep_escalation_chain (effective layers d))"
  using assms
proof (induction layers rule: rev_induct)
  case Nil
  have "f_lt f_zero (f_of_int 1800)" "f_lt f_zero (f_of_int 900)" "f_lt f_zero (f_of_int 3600)" by code_simp+
  then show ?case by (simp add: effective_def policy_defaults_def)
next
  case (snoc l ls)
  have "policy_ok l" using snoc.prems by (simp add: policy_validate_iff)
  then show ?case
    using snoc by (auto simp: effective_snoc apply_layer_def policy_ok_def split: option.split)
qed

definition no_policy :: team_policy where
  "no_policy = \<lparr>tp_stale_after_s = None, tp_escalate_after_s = None, tp_reclaim_after_s = None, tp_reclaim = None,
     tp_require_review = None, tp_wip_limit = None, tp_escalation_chain = None, tp_sprint_rollover = None\<rparr>"

theorem effective_of_validated_witness:
  "policy_validate (no_policy \<lparr>tp_wip_limit := Some 3\<rparr>) = Inr ()
   \<and> ep_wip_limit (effective [no_policy \<lparr>tp_wip_limit := Some 3\<rparr>] True) = Some 3
   \<and> f_lt f_zero (ep_stale_after_s (effective [no_policy \<lparr>tp_wip_limit := Some 3\<rparr>] True))"
proof -
  have v: "policy_validate (no_policy \<lparr>tp_wip_limit := Some 3\<rparr>) = Inr ()" by code_simp
  then have "\<forall>l \<in> set [no_policy \<lparr>tp_wip_limit := Some 3\<rparr>]. policy_validate l = Inr ()" by simp
  from effective_of_validated [OF this, of True] v show ?thesis
    by (simp add: effective_def apply_layer_def no_policy_def)
qed

end
