(* ===== verification/Textfmt.thy ===== *)
theory Textfmt
  imports Pyfmt
begin

text \<open>
  Text for people (\<open>crates/agora-sched/src/textfmt.rs\<close>): spans of time, memory sizes, lists and commands; and the
  word splitter of shell scripts (\<open>crates/agora-sched/src/signature/lex.rs\<close>), a state machine over characters. A
  command shown by the first is read back by the second.
\<close>

section \<open>Quantities\<close>

definition py_floordiv :: "f64 \<Rightarrow> f64 \<Rightarrow> f64" where
  "py_floordiv x y =
     (let rem = f_rem x y; quotient = f_div (f_sub x rem) y; floor = f_floor quotient
      in if f_lt (lit 1 2) (f_sub quotient floor) then f_add floor (lit 1 1) else floor)"

definition span :: "f64 option \<Rightarrow> string" where
  "span seconds =
     (case seconds of
        None \<Rightarrow> ''-''
      | Some s \<Rightarrow>
          if \<not> is_finite s then ''-''
          else if f_lt s (lit 60 1) then fmt_fixed s 1 @ '' s''
          else if f_lt s (lit 3600 1) then
            fmt_fixed (f_trunc (py_floordiv s (lit 60 1))) 0 @ '' min '' @ fmt_fixed (f_trunc (f_rem s (lit 60 1))) 0 @ '' s''
          else
            fmt_fixed (f_trunc (py_floordiv s (lit 3600 1))) 0 @ '' h ''
              @ fmt_fixed (f_trunc (py_floordiv (f_rem s (lit 3600 1)) (lit 60 1))) 0 @ '' min'')"

definition gib :: "int \<Rightarrow> string" where
  "gib kib = fmt_fixed (f_div (f_div (f_of_int kib) (lit 1024 1)) (lit 1024 1)) 1 @ '' GiB''"

definition memory :: "int option \<Rightarrow> string" where
  "memory kib =
     (case kib of
        None \<Rightarrow> ''-''
      | Some kib \<Rightarrow> if kib < 10 * 1024 * 1024 then fmt_fixed (f_div (f_of_int kib) (lit 1024 1)) 0 @ '' MiB'' else gib kib)"

definition number :: "f64 \<Rightarrow> string" where
  "number v = fmt_g (round_half_even v 1)"

definition cores_text :: "f64 \<Rightarrow> string" where
  "cores_text v = (let n = number v in if n = ''1'' then n @ '' core'' else n @ '' cores'')"

section \<open>Lists\<close>

definition capped :: "string \<Rightarrow> string list \<Rightarrow> nat \<Rightarrow> string" where
  "capped label items limit =
     (if length items \<le> limit then label @ '': '' @ join '', '' items
      else label @ '' (the first '' @ show_int (int limit) @ '' of '' @ show_int (int (length items))
        @ ''; all of them with --json): '' @ join '', '' (take limit items))"

definition enumerate_ids :: "string list \<Rightarrow> string" where
  "enumerate_ids ids =
     (case ids of [] \<Rightarrow> [] | [only] \<Rightarrow> only | _ \<Rightarrow> join '', '' (butlast ids) @ '' and '' @ last ids)"

section \<open>Commands\<close>

definition is_safe :: "char \<Rightarrow> bool" where
  "is_safe c = (97 \<le> byte c \<and> byte c \<le> 122 \<or> 65 \<le> byte c \<and> byte c \<le> 90 \<or> is_digit c \<or> c \<in> set ''@%+=:,./_-'')"

definition shlex_quote :: "string \<Rightarrow> string" where
  "shlex_quote s =
     (if s = [] then [CHR 39, CHR 39]
      else if list_all is_safe s then s
      else CHR 39 # concat (map (\<lambda>c. if c = CHR 39 then [CHR 39, CHR 34, CHR 39, CHR 34, CHR 39] else [c]) s) @ [CHR 39])"

definition display :: "string list \<Rightarrow> string" where
  "display argv = printable (join '' '' (map shlex_quote argv))"

definition brief :: "string list \<Rightarrow> nat \<Rightarrow> string" where
  "brief argv limit =
     (let text = display argv
      in if length (chars_of text) \<le> limit then text else of_chars (take (limit - 1) (chars_of text) @ [8230]))"

section \<open>The word splitter\<close>

datatype lex_back = Back_Word | Back_Quote int
datatype mode = Space | Word | Punct | Quote int | Escape lex_back

definition is_punct :: "int \<Rightarrow> bool" where
  "is_punct c = (c \<in> {59, 38, 124, 40, 41, 60, 62})"

definition is_space :: "int \<Rightarrow> bool" where
  "is_space c = (c \<in> {32, 9, 13, 10})"

definition ends_token :: "int list \<Rightarrow> bool \<Rightarrow> bool" where
  "ends_token token quoted = (token \<noteq> [] \<or> quoted)"

definition finish :: "int list \<Rightarrow> bool \<Rightarrow> int list option" where
  "finish token quoted = (if ends_token token quoted then Some token else None)"

fun skip_line :: "int list \<Rightarrow> int list" where
  "skip_line [] = []"
| "skip_line (c # cs) = (if c = 10 then cs else skip_line cs)"

text \<open>\<open>pushback.take().or_else(|| chars.next())\<close>: the next character and the characters left; the pushback is empty after.\<close>

fun next_char :: "int list \<Rightarrow> int option \<Rightarrow> int option \<times> int list" where
  "next_char cs (Some c) = (Some c, cs)"
| "next_char [] None = (None, [])"
| "next_char (c # cs) None = (Some c, cs)"

text \<open>One round of the loop of \<open>read_token\<close>: an error, a result, or the state for the next round.\<close>

datatype lex_step =
    Failed
  | Returned "int list option" "int list" "int option"
  | Continue "int list" "int option" "int list" bool mode

definition lex_round :: "int list \<Rightarrow> int option \<Rightarrow> int list \<Rightarrow> bool \<Rightarrow> mode \<Rightarrow> lex_step" where
  "lex_round chars pushback token quoted mode =
     (let (nxt, cs) = next_char chars pushback in
      case mode of
        Space \<Rightarrow> (case nxt of
          None \<Rightarrow> Returned (finish token quoted) cs None
        | Some c \<Rightarrow>
            if is_space c then
              (if ends_token token quoted then Returned (Some token) cs None else Continue cs None token quoted Space)
            else if c = 35 then Continue (skip_line cs) None token quoted Space
            else if c = 92 then Continue cs None token quoted (Escape Back_Word)
            else if is_punct c then Continue cs None (token @ [c]) quoted Punct
            else if c = 39 \<or> c = 34 then Continue cs None token True (Quote c)
            else Continue cs None (token @ [c]) quoted Word)
      | Word \<Rightarrow> (case nxt of
          None \<Rightarrow> Returned (finish token quoted) cs None
        | Some c \<Rightarrow>
            if is_space c \<or> c = 35 then
              (let cs' = (if c = 35 then skip_line cs else cs)
               in if ends_token token quoted then Returned (Some token) cs' None else Continue cs' None token quoted Space)
            else if c = 39 \<or> c = 34 then Continue cs None token True (Quote c)
            else if c = 92 then Continue cs None token quoted (Escape Back_Word)
            else if is_punct c then
              (if ends_token token quoted then Returned (Some token) cs (Some c) else Continue cs (Some c) token quoted Space)
            else Continue cs None (token @ [c]) quoted Word)
      | Punct \<Rightarrow> (case nxt of
          None \<Rightarrow> Returned (finish token quoted) cs None
        | Some c \<Rightarrow>
            if is_space c \<or> c = 35 then
              (let cs' = (if c = 35 then skip_line cs else cs)
               in if ends_token token quoted then Returned (Some token) cs' None else Continue cs' None token quoted Space)
            else if is_punct c then Continue cs None (token @ [c]) quoted Punct
            else Returned (finish token quoted) cs (Some c))
      | Quote q \<Rightarrow> (case nxt of
          None \<Rightarrow> Failed
        | Some c \<Rightarrow>
            if c = q then Continue cs None token quoted Word
            else if c = 92 \<and> q = 34 then Continue cs None token quoted (Escape (Back_Quote q))
            else Continue cs None (token @ [c]) quoted (Quote q))
      | Escape back_to \<Rightarrow> (case nxt of
          None \<Rightarrow> Failed
        | Some c \<Rightarrow> (case back_to of
            Back_Word \<Rightarrow> Continue cs None (token @ [c]) quoted Word
          | Back_Quote q \<Rightarrow>
              Continue cs None (token @ (if c \<noteq> 92 \<and> c \<noteq> q then [92] else []) @ [c]) quoted (Quote q))))"

text \<open>The characters not yet read.\<close>

definition pending :: "int list \<Rightarrow> int option \<Rightarrow> nat" where
  "pending cs pushback = length cs + (if pushback = None then 0 else 1)"

lemma skip_line_length: "length (skip_line cs) \<le> length cs"
  by (induction cs) auto

lemma next_char_pending: "next_char chars pushback = (Some c, cs) \<Longrightarrow> pending chars pushback = Suc (length cs)"
  by (cases "(chars, pushback)" rule: next_char.cases) (auto simp: pending_def)

lemma lex_round_Continue:
  assumes "lex_round chars pushback token quoted mode = Continue cs pb t q m"
  shows "pending cs pb < pending chars pushback \<or> pending cs pb = pending chars pushback \<and> mode = Word \<and> m = Space \<and> token = [] \<and> \<not> quoted \<and> t = [] \<and> \<not> q"
proof -
  obtain nxt ds where n: "next_char chars pushback = (nxt, ds)" by fastforce
  obtain c where c: "nxt = Some c" using assms n by (cases nxt) (auto simp: lex_round_def Let_def split: mode.splits)
  show ?thesis
    using assms n next_char_pending [OF n [unfolded c]] skip_line_length [of ds]
    by (auto simp: lex_round_def Let_def c pending_def ends_token_def split: mode.splits lex_back.splits if_splits)
qed

function read_token :: "int list \<Rightarrow> int option \<Rightarrow> int list \<Rightarrow> bool \<Rightarrow> mode \<Rightarrow> unit + (int list option \<times> int list \<times> int option)" where
  "read_token chars pushback token quoted mode =
     (case lex_round chars pushback token quoted mode of
        Failed \<Rightarrow> Inl ()
      | Returned t cs pb \<Rightarrow> Inr (t, cs, pb)
      | Continue cs pb t q m \<Rightarrow> read_token cs pb t q m)"
  by pat_completeness auto
termination
  by (relation "measure (\<lambda>(chars, pushback, _, _, mode). 2 * pending chars pushback + (if mode = Space then 0 else 1))")
    (auto dest!: lex_round_Continue)

declare read_token.simps [simp del]

lemma lex_round_Returned:
  assumes "lex_round chars pushback token quoted mode = Returned (Some t) cs pb"
  shows "pending cs pb \<le> pending chars pushback \<and> (mode = Space \<and> token = [] \<and> \<not> quoted \<longrightarrow> False)"
proof -
  obtain nxt ds where n: "next_char chars pushback = (nxt, ds)" by fastforce
  show ?thesis
  proof (cases nxt)
    case None
    then show ?thesis using assms n
      by (cases "(chars, pushback)" rule: next_char.cases)
        (auto simp: lex_round_def Let_def pending_def finish_def ends_token_def split: mode.splits if_splits)
  next
    case (Some c)
    show ?thesis
      using assms n next_char_pending [OF n [unfolded Some]] skip_line_length [of ds]
      by (auto simp: lex_round_def Let_def Some pending_def ends_token_def split: mode.splits lex_back.splits if_splits)
  qed
qed

text \<open>A token that is returned has used up characters, so the outer loop ends.\<close>

lemma read_token_pending:
  "read_token chars pushback token quoted mode = Inr (Some t, cs, pb) \<Longrightarrow>
     pending cs pb \<le> pending chars pushback
     \<and> (mode = Space \<and> token = [] \<and> \<not> quoted \<longrightarrow> pending cs pb < pending chars pushback)"
proof (induction chars pushback token quoted mode rule: read_token.induct)
  case (1 chars pushback token quoted mode)
  show ?case
  proof (cases "lex_round chars pushback token quoted mode")
    case Failed
    then show ?thesis using 1 by (simp add: read_token.simps)
  next
    case (Returned t' cs' pb')
    then show ?thesis using 1 lex_round_Returned by (simp add: read_token.simps [of chars]) blast
  next
    case (Continue cs' pb' t' q m)
    then have "read_token cs' pb' t' q m = Inr (Some t, cs, pb)" using 1 by (simp add: read_token.simps [of chars])
    then show ?thesis using 1(1) [OF Continue] lex_round_Continue [OF Continue] by auto
  qed
qed

function lex_split :: "int list \<Rightarrow> int option \<Rightarrow> unit + int list list" where
  "lex_split chars pushback =
     (case read_token chars pushback [] False Space of
        Inl e \<Rightarrow> Inl e
      | Inr (None, cs, pb) \<Rightarrow> Inr []
      | Inr (Some token, cs, pb) \<Rightarrow> bind_result (lex_split cs pb) (\<lambda>tokens. Inr (token # tokens)))"
  by pat_completeness auto
termination
  by (relation "measure (\<lambda>(chars, pushback). pending chars pushback)") (auto dest: read_token_pending)

declare lex_split.simps [simp del]

definition shlex_split_punct :: "string \<Rightarrow> unit + string list" where
  "shlex_split_punct script = map_sum id (map of_chars) (lex_split (chars_of script) None)"

section \<open>A shown command reads back\<close>

text \<open>The state machine over the characters that quoting writes.\<close>

definition is_plain_char :: "int \<Rightarrow> bool" where
  "is_plain_char c = (\<not> is_space c \<and> \<not> is_punct c \<and> c \<notin> {35, 39, 34, 92})"

lemma read_token_step:
  "lex_round chars pb token q m = Continue cs' pb' t' q' m' \<Longrightarrow> read_token chars pb token q m = read_token cs' pb' t' q' m'"
  by (simp add: read_token.simps [of chars])

lemma read_token_plain:
  "list_all is_plain_char cs \<Longrightarrow> read_token (cs @ rest) None token q Word = read_token rest None (token @ cs) q Word"
proof (induction cs arbitrary: token)
  case (Cons c cs)
  have "read_token ((c # cs) @ rest) None token q Word = read_token (cs @ rest) None (token @ [c]) q Word"
    by (rule read_token_step) (use Cons.prems in \<open>simp add: lex_round_def is_plain_char_def\<close>)
  then show ?case using Cons by simp
qed simp

definition quote_char :: "int \<Rightarrow> int list" where
  "quote_char c = (if c = 39 then [39, 34, 39, 34, 39] else [c])"

lemma read_token_quoted:
  "read_token (concat (map quote_char cs) @ 39 # rest) None token True (Quote 39) = read_token rest None (token @ cs) True Word"
proof (induction cs arbitrary: token)
  case Nil
  show ?case by (simp add: read_token_step [where cs' = rest] lex_round_def)
next
  case (Cons c cs)
  let ?r = "concat (map quote_char cs) @ 39 # rest"
  have "read_token (quote_char c @ ?r) None token True (Quote 39) = read_token ?r None (token @ [c]) True (Quote 39)"
  proof (cases "c = 39")
    case True
    have "read_token (39 # 34 # 39 # 34 # 39 # ?r) None token True (Quote 39) = read_token (34 # 39 # 34 # 39 # ?r) None token True Word"
      by (rule read_token_step) (simp add: lex_round_def)
    also have "\<dots> = read_token (39 # 34 # 39 # ?r) None token True (Quote 34)"
      by (rule read_token_step) (simp add: lex_round_def is_space_def)
    also have "\<dots> = read_token (34 # 39 # ?r) None (token @ [39]) True (Quote 34)"
      by (rule read_token_step) (simp add: lex_round_def)
    also have "\<dots> = read_token (39 # ?r) None (token @ [39]) True Word"
      by (rule read_token_step) (simp add: lex_round_def)
    also have "\<dots> = read_token ?r None (token @ [39]) True (Quote 39)"
      by (rule read_token_step) (simp add: lex_round_def is_space_def)
    finally show ?thesis using True by (simp add: quote_char_def)
  next
    case False
    then show ?thesis by (simp add: quote_char_def) (rule read_token_step, simp add: lex_round_def)
  qed
  then show ?case using Cons by simp
qed

text \<open>Quoting of decoded words.\<close>

definition safe_code :: "int \<Rightarrow> bool" where
  "safe_code c = (c < 128 \<and> is_safe (char_of (nat c)))"

definition quote_chars :: "int list \<Rightarrow> int list" where
  "quote_chars cs =
     (if cs = [] then [39, 39] else if list_all safe_code cs then cs else 39 # concat (map quote_char cs) @ [39])"

lemma byte_eq_iff: "byte c = byte d \<longleftrightarrow> c = d"
  by (simp add: byte_def)

lemma special_not_safe: "list_all (\<lambda>c. \<not> safe_code c) [32, 9, 13, 10, 59, 38, 124, 40, 41, 60, 62, 35, 39, 34, 92]"
  by code_simp

lemma safe_code_plain: "safe_code c \<Longrightarrow> is_plain_char c"
  using special_not_safe unfolding is_plain_char_def is_space_def is_punct_def list_all_iff by auto

lemma utf8_high: "is_scalar c \<Longrightarrow> 128 \<le> c \<Longrightarrow> b \<in> set (utf8 c) \<Longrightarrow> 128 \<le> byte b"
  by (auto simp: utf8_def is_scalar_def Let_def split: if_splits)

lemma is_safe_ascii: "is_safe b \<Longrightarrow> byte b < 128"
  by (auto simp: is_safe_def is_digit_byte) (auto simp: byte_def)

lemma utf8_ne [simp]: "utf8 c \<noteq> []"
  by (simp add: utf8_def Let_def)

lemma safe_utf8: "is_scalar c \<Longrightarrow> list_all is_safe (utf8 c) \<longleftrightarrow> safe_code c"
proof (cases "c < 128")
  case True
  then show ?thesis by (simp add: utf8_def safe_code_def)
next
  case False
  moreover assume "is_scalar c"
  ultimately have "hd (utf8 c) \<in> set (utf8 c)" "128 \<le> byte (hd (utf8 c))" using utf8_high [of c "hd (utf8 c)"] by auto
  then have "\<exists>b \<in> set (utf8 c). \<not> is_safe b" using is_safe_ascii [of "hd (utf8 c)"] by (intro bexI [of _ "hd (utf8 c)"]) auto
  then show ?thesis using False by (auto simp: list_all_iff safe_code_def)
qed

lemma utf8_39: "utf8 39 = [CHR 39]"
  by code_simp

lemma utf8_32: "utf8 32 = '' ''"
  by code_simp

lemma quote_utf8:
  assumes "is_scalar c"
  shows "concat (map (\<lambda>c. if c = CHR 39 then [CHR 39, CHR 34, CHR 39, CHR 34, CHR 39] else [c]) (utf8 c)) = of_chars (quote_char c)"
proof (cases "c < 128")
  case True
  moreover have "char_of (nat c) = CHR 39 \<longleftrightarrow> c = 39"
    using True assms byte_eq_iff [of "char_of (nat c)" "CHR 39"] by (simp add: is_scalar_def) (simp add: byte_def)
  ultimately show ?thesis by (auto simp: utf8_def quote_char_def of_chars_def char_of_def)
next
  case False
  then have "CHR 39 \<notin> set (utf8 c)" using utf8_high [OF assms, of "CHR 39"] by (auto simp: byte_def)
  then have "map (\<lambda>c. if c = CHR 39 then [CHR 39, CHR 34, CHR 39, CHR 34, CHR 39] else [c]) (utf8 c) = map (\<lambda>c. [c]) (utf8 c)"
    by (intro map_cong) auto
  then show ?thesis using False by (simp only: concat_map_singleton) (simp add: quote_char_def of_chars_def)
qed

lemma shlex_quote_of_chars:
  assumes "list_all is_scalar cs"
  shows "shlex_quote (of_chars cs) = of_chars (quote_chars cs)"
proof -
  let ?q = "\<lambda>c. if c = CHR 39 then [CHR 39, CHR 34, CHR 39, CHR 34, CHR 39] else [c]"
  have e: "of_chars cs = [] \<longleftrightarrow> cs = []" by (cases cs) (simp_all add: of_chars_def)
  have s: "list_all is_safe (of_chars cs) \<longleftrightarrow> list_all safe_code cs"
    using assms by (induction cs) (simp_all add: of_chars_def safe_utf8)
  have q: "concat (map ?q (of_chars cs)) = of_chars (concat (map quote_char cs))"
    using assms by (induction cs) (simp_all add: quote_utf8 of_chars_def)
  have l: "of_chars (39 # xs @ [39]) = CHR 39 # of_chars xs @ [CHR 39]" for xs
    by (simp add: of_chars_def utf8_39)
  have l2: "of_chars [39, 39] = [CHR 39, CHR 39]" by (simp add: of_chars_def utf8_39)
  show ?thesis unfolding shlex_quote_def quote_chars_def e s q by (simp add: l l2)
qed

lemma read_token_word:
  assumes "list_all is_scalar cs"
  obtains q where "read_token (quote_chars cs @ rest) None [] False Space = read_token rest None cs q Word" "ends_token cs q"
proof (cases "cs \<noteq> [] \<and> list_all safe_code cs")
  case True
  then obtain c ds where c: "cs = c # ds" by (cases cs) auto
  have p: "is_plain_char c" "list_all is_plain_char ds"
    using True assms c safe_code_plain by (auto simp: list_all_iff)
  have "read_token (cs @ rest) None [] False Space = read_token (ds @ rest) None [c] False Word"
    unfolding c by (rule read_token_step) (use p in \<open>simp add: lex_round_def is_plain_char_def\<close>)
  then show ?thesis using that [of False] True read_token_plain [OF p(2)] by (simp add: quote_chars_def ends_token_def c)
next
  case False
  then have q: "quote_chars cs = 39 # concat (map quote_char cs) @ [39]" by (auto simp: quote_chars_def)
  have "read_token (quote_chars cs @ rest) None [] False Space = read_token (concat (map quote_char cs) @ 39 # rest) None [] True (Quote 39)"
    unfolding q by (rule read_token_step) (simp add: lex_round_def is_space_def is_punct_def)
  then show ?thesis using that [of True] read_token_quoted [of cs rest "[]"] by (simp add: ends_token_def)
qed

fun join_words :: "int list list \<Rightarrow> int list" where
  "join_words [] = []"
| "join_words [w] = w"
| "join_words (w # ws) = w @ 32 # join_words ws"

lemma lex_split_words:
  "list_all (list_all is_scalar) ws \<Longrightarrow> lex_split (join_words (map quote_chars ws)) None = Inr ws"
proof (induction ws rule: induct_list012)
  case 1
  show ?case by (simp add: lex_split.simps read_token.simps lex_round_def finish_def ends_token_def)
next
  case (2 w)
  obtain q where q: "read_token (quote_chars w @ []) None [] False Space = read_token [] None w q Word" "ends_token w q"
    using 2 read_token_word [of w "[]"] by (metis list.pred_inject(2))
  then have "read_token (quote_chars w) None [] False Space = Inr (Some w, [], None)"
    by (simp add: read_token.simps [of "[]"] lex_round_def finish_def)
  then show ?case
    by (simp add: lex_split.simps [of "quote_chars w"] lex_split.simps [of "[]"] read_token.simps [of "[]"] lex_round_def finish_def ends_token_def)
next
  case (3 w v ws)
  let ?r = "join_words (map quote_chars (v # ws))"
  obtain q where q: "read_token (quote_chars w @ 32 # ?r) None [] False Space = read_token (32 # ?r) None w q Word" "ends_token w q"
    using 3 read_token_word [of w "32 # ?r"] by (metis list.pred_inject(2))
  then have "read_token (quote_chars w @ 32 # ?r) None [] False Space = Inr (Some w, ?r, None)"
    by (simp add: read_token.simps [of "32 # _"] lex_round_def is_space_def)
  then show ?case using 3 by (simp add: lex_split.simps [of "quote_chars w @ _"])
qed

lemma join_words_of_chars: "join '' '' (map of_chars ws) = of_chars (join_words ws)"
  by (induction ws rule: induct_list012) (simp_all add: of_chars_def utf8_32)

lemma join_words_all: "P 32 \<Longrightarrow> list_all (list_all P) ws \<Longrightarrow> list_all P (join_words ws)"
  by (induction ws rule: induct_list012) auto

lemma quote_chars_all: "P 39 \<Longrightarrow> P 34 \<Longrightarrow> list_all P cs \<Longrightarrow> list_all P (quote_chars cs)"
  by (auto simp: quote_chars_def list_all_iff quote_char_def split: if_splits)

text \<open>A Rust string is the encoding of its characters.\<close>

definition valid_utf8 :: "string \<Rightarrow> bool" where
  "valid_utf8 s = (list_all is_scalar (chars_of s) \<and> of_chars (chars_of s) = s)"

definition all_printable :: "string \<Rightarrow> bool" where
  "all_printable s = list_all is_printable (chars_of s)"

lemma quoted_words:
  assumes "list_all valid_utf8 argv"
  defines "line \<equiv> join_words (map quote_chars (map chars_of argv))"
  shows "join '' '' (map shlex_quote argv) = of_chars line" "list_all is_scalar line" "chars_of (of_chars line) = line"
    "list_all all_printable argv \<Longrightarrow> list_all is_printable line"
proof -
  have "map shlex_quote argv = map of_chars (map quote_chars (map chars_of argv))"
    using assms(1) by (auto simp: list_all_iff valid_utf8_def simp flip: shlex_quote_of_chars)
  then show "join '' '' (map shlex_quote argv) = of_chars line" by (simp only: join_words_of_chars line_def)
  show s: "list_all is_scalar line" unfolding line_def
    using assms(1) by (intro join_words_all) (auto simp: list_all_iff [where P = "list_all _"] list_all_iff [where P = valid_utf8] valid_utf8_def is_scalar_def [of 39] is_scalar_def [of 34] is_scalar_def [of 32] intro!: quote_chars_all)
  show "chars_of (of_chars line) = line" using chars_of_of_chars [OF s, of "[]"] by simp
  show "list_all is_printable line" if "list_all all_printable argv" unfolding line_def
    using that by (intro join_words_all) (auto simp: list_all_iff [where P = "list_all _"] list_all_iff [where P = all_printable] all_printable_def is_printable_ascii intro!: quote_chars_all)
qed



text \<open>
  C36: the splitter ends on every script: each token it takes uses at least one character of what is left, so there are
  at most as many tokens as characters.
\<close>

theorem splitter_ends:
  "(\<forall>t cs pb. read_token chars pushback [] False Space = Inr (Some t, cs, pb) \<longrightarrow> pending cs pb < pending chars pushback)
   \<and> (\<forall>tokens. lex_split chars pushback = Inr tokens \<longrightarrow> length tokens \<le> pending chars pushback)"
proof (intro conjI allI impI)
  fix t cs pb
  assume "read_token chars pushback [] False Space = Inr (Some t, cs, pb)"
  then show "pending cs pb < pending chars pushback" using read_token_pending by blast
next
  fix tokens
  assume "lex_split chars pushback = Inr tokens"
  then show "length tokens \<le> pending chars pushback"
  proof (induction chars pushback arbitrary: tokens rule: lex_split.induct)
    case (1 chars pushback)
    show ?case
    proof (cases "\<exists>t cs pb. read_token chars pushback [] False Space = Inr (Some t, cs, pb)")
      case True
      then obtain t cs pb where r: "read_token chars pushback [] False Space = Inr (Some t, cs, pb)" by blast
      then obtain ts where "lex_split cs pb = Inr ts" "tokens = t # ts"
        using 1(2) by (auto simp: lex_split.simps [of chars] bind_result_Inr_iff)
      then show ?thesis using 1(1) [OF r refl refl refl, of ts] read_token_pending [OF r] by simp
    next
      case False
      then show ?thesis using 1(2)
        by (auto simp: lex_split.simps [of chars] split: sum.splits option.splits prod.splits)
    qed
  qed
qed

theorem splitter_ends_witness:
  "read_token (map byte ''a;b'') None [] False Space = Inr (Some [97], [98], Some 59)
   \<and> pending [98] (Some 59) < pending (map byte ''a;b'') None"
proof -
  have r: "read_token (map byte ''a;b'') None [] False Space = Inr (Some [97], [98], Some 59)" by code_simp
  then show ?thesis using splitter_ends [of "map byte ''a;b''" None] by blast
qed

end
