(* ===== verification/Settings.thy ===== *)
theory Settings
  imports Textfmt
begin

text \<open>
  The work settings (\<open>crates/agora-sched/src/settings.rs\<close> and \<open>settings/parse.rs\<close>): the settings row, patches of
  text values, their parsers with every message, and the check of stored values.
\<close>

section \<open>Data\<close>

datatype mem_limit = Warning | Critical | Mem_Off
datatype qos = Utility | Qos_Default | Background
datatype mem_budget = Auto | Budget_Off | Kib int

record work_settings =
  cpu_budget :: "f64 option"
  capacity :: "f64 option"
  memory_budget :: mem_budget
  idle_min :: f64
  memory_limit :: mem_limit
  load_factor :: f64
  load_wait :: f64
  log_limit :: int
  keep_days :: f64
  backfill_wait :: f64
  small_weight :: f64
  aging :: f64
  job_qos :: qos
  quiet_drain :: f64
  quiet_max :: f64
  self_accept :: bool
  timer_quota :: int
  disk_floor_kib :: "int option"
  memory_floor_kib :: "int option"
  idle_floor_pct :: "f64 option"
  reconcile_interval_s :: f64
  lease_ttl_s :: f64
  claim_ttl_s :: f64
  run_role :: string
  max_waiting :: int

record settings_patch =
  p_cpu_budget :: "string option"
  p_capacity :: "string option"
  p_memory_budget :: "string option"
  p_idle_min :: "string option"
  p_memory_limit :: "string option"
  p_load_factor :: "string option"
  p_load_wait :: "string option"
  p_log_limit :: "string option"
  p_keep_days :: "string option"
  p_backfill_wait :: "string option"
  p_small_weight :: "string option"
  p_aging :: "string option"
  p_job_qos :: "string option"
  p_quiet_drain :: "string option"
  p_quiet_max :: "string option"
  p_self_accept :: "string option"
  p_timer_quota :: "string option"
  p_disk_floor :: "string option"
  p_memory_floor :: "string option"
  p_idle_floor :: "string option"
  p_reconcile_interval :: "string option"
  p_lease_ttl :: "string option"
  p_claim_ttl :: "string option"
  p_run_role :: "string option"
  p_max_waiting :: "string option"

fun mem_limit_as_str :: "mem_limit \<Rightarrow> string" where
  "mem_limit_as_str Warning = ''warning''"
| "mem_limit_as_str Critical = ''critical''"
| "mem_limit_as_str Mem_Off = ''off''"

fun qos_as_str :: "qos \<Rightarrow> string" where
  "qos_as_str Utility = ''utility''"
| "qos_as_str Qos_Default = ''default''"
| "qos_as_str Background = ''background''"

definition RUN_ROLES :: "string list" where
  "RUN_ROLES = [''worker'', ''supervisor'', ''controller'', ''owner'']"

definition CLAIM_TTL_MIN_S :: f64 where
  "CLAIM_TTL_MIN_S = lit 60 1"

definition settings_default :: work_settings where
  "settings_default = \<lparr>cpu_budget = None, capacity = None, memory_budget = Auto, idle_min = lit 10 1,
     memory_limit = Warning, load_factor = lit 15 10, load_wait = lit 1800 1, log_limit = 268435456,
     keep_days = lit 14 1, backfill_wait = lit 300 1, small_weight = lit 1 1, aging = lit 1 1, job_qos = Utility,
     quiet_drain = lit 60 1, quiet_max = lit 180 1, self_accept = False, timer_quota = 32,
     disk_floor_kib = Some 5242880, memory_floor_kib = None, idle_floor_pct = None,
     reconcile_interval_s = lit 30 1, lease_ttl_s = lit 900 1, claim_ttl_s = lit 1800 1,
     run_role = ''worker'', max_waiting = 64\<rparr>"

definition patch_default :: settings_patch where
  "patch_default = \<lparr>p_cpu_budget = None, p_capacity = None, p_memory_budget = None, p_idle_min = None,
     p_memory_limit = None, p_load_factor = None, p_load_wait = None, p_log_limit = None, p_keep_days = None,
     p_backfill_wait = None, p_small_weight = None, p_aging = None, p_job_qos = None, p_quiet_drain = None,
     p_quiet_max = None, p_self_accept = None, p_timer_quota = None, p_disk_floor = None, p_memory_floor = None,
     p_idle_floor = None, p_reconcile_interval = None, p_lease_ttl = None, p_claim_ttl = None,
     p_run_role = None, p_max_waiting = None\<rparr>"

definition patch_is_empty :: "settings_patch \<Rightarrow> bool" where
  "patch_is_empty p = (p = patch_default)"

section \<open>Parsers\<close>

definition flag_error :: "string \<Rightarrow> string \<Rightarrow> string" where
  "flag_error field message = ''--'' @ map (\<lambda>c. if c = CHR ''_'' then CHR ''-'' else c) field @ '': '' @ message"

definition repr_error :: "string \<Rightarrow> string \<Rightarrow> string" where
  "repr_error text message = repr_str text @ '' '' @ message"

definition duration :: "string \<Rightarrow> f64 result" where
  "duration text =
     (case py_float text of
        None \<Rightarrow> Inl (repr_error text ''is not a number'')
      | Some value \<Rightarrow> if is_finite value \<and> f_le f_zero value then Inr value
                      else Inl (repr_error text ''is not a finite number, zero or more''))"

definition parse_positive :: "string \<Rightarrow> f64 result" where
  "parse_positive text = bind_result (duration text) (\<lambda>value.
     if f_eq value f_zero then Inl (repr_error text ''is not greater than zero'') else Inr value)"

definition percent :: "string \<Rightarrow> f64 result" where
  "percent text = bind_result (duration text) (\<lambda>value.
     if f_lt value (lit 100 1) then Inr value else Inl (repr_error text ''is not below 100''))"

definition counting :: "string \<Rightarrow> int \<Rightarrow> int result" where
  "counting text minimum =
     (case py_int text of
        None \<Rightarrow> Inl (repr_error text ''is not a whole number'')
      | Some value \<Rightarrow> if minimum \<le> value then Inr value else Inl (repr_error text (''is less than '' @ show_int minimum)))"

definition choice_error :: "string \<Rightarrow> string list \<Rightarrow> string" where
  "choice_error text options = repr_str text @ '' is not one of '' @ join '', '' options"

definition is_whitespace :: "int \<Rightarrow> bool" where
  "is_whitespace c =
     (9 \<le> c \<and> c \<le> 13 \<or> c = 32 \<or> c = 133 \<or> c = 160 \<or> c = 5760 \<or> 8192 \<le> c \<and> c \<le> 8202
      \<or> c = 8232 \<or> c = 8233 \<or> c = 8239 \<or> c = 8287 \<or> c = 12288)"

text \<open>\<open>split_whitespace\<close> on code points: the maximal runs of other characters.\<close>

fun words_ws :: "int list \<Rightarrow> int list \<Rightarrow> int list list" where
  "words_ws word [] = (if word = [] then [] else [word])"
| "words_ws word (c # cs) =
     (if is_whitespace c then (if word = [] then words_ws [] cs else word # words_ws [] cs) else words_ws (word @ [c]) cs)"

definition count_digits :: "string \<Rightarrow> nat" where
  "count_digits text = length (takeWhile is_digit text)"

text \<open>The bytes of the number at the start of a size: digits, or digits, a dot and digits.\<close>

definition number_len :: "string \<Rightarrow> nat option" where
  "number_len body =
     (let int_len = count_digits body in
      if int_len = 0 then None
      else case strip_prefix ''.'' (drop int_len body) of
             None \<Rightarrow> Some int_len
           | Some after_dot \<Rightarrow>
               (let frac_len = count_digits after_dot in if frac_len = 0 then None else Some (int_len + (1 + frac_len))))"

definition size_scale :: "char \<Rightarrow> f64 option" where
  "size_scale c =
     (let u = ascii_upper c in
      if u = CHR ''K'' then Some (lit 1 1)
      else if u = CHR ''M'' then Some (lit 1024 1)
      else if u = CHR ''G'' then Some (f_mul (lit 1024 1) (lit 1024 1))
      else if u = CHR ''T'' then Some (f_mul (f_mul (lit 1024 1) (lit 1024 1)) (lit 1024 1))
      else None)"

definition size_value :: "string \<Rightarrow> f64 option" where
  "size_value text =
     (let body = py_strip text in
      case number_len body of
        None \<Rightarrow> None
      | Some n \<Rightarrow> (case parse_f64 (take n body) of
          None \<Rightarrow> None
        | Some value \<Rightarrow> (case of_chars (dropWhile is_whitespace (chars_of (drop n body))) of
            [] \<Rightarrow> None
          | c # unit \<Rightarrow> (case size_scale c of
              None \<Rightarrow> None
            | Some scale \<Rightarrow>
                if map ascii_lower unit \<in> {'''', ''b'', ''ib''} then Some (f_round_ties_even (f_mul value scale)) else None))))"

definition size_kib :: "string \<Rightarrow> string \<Rightarrow> int result" where
  "size_kib text otherwise =
     (case size_value text of
        None \<Rightarrow> Inl (repr_error text otherwise)
      | Some kib \<Rightarrow>
          if f_le kib f_zero then Inl (repr_error text ''is not greater than zero'')
          else if f_le (lit 9000000000000000000 1) kib then Inl (repr_error text ''is too large'')
          else Inr (f_to_int 0 u64_max kib))"

definition parse_size_kib :: "string \<Rightarrow> int result" where
  "parse_size_kib text = size_kib text ''is not a size with its unit, as 14G or 14336M''"

definition parse_cpu_budget :: "string \<Rightarrow> f64 option result" where
  "parse_cpu_budget text = (if text = ''auto'' then Inr None else bind_result (parse_positive text) (\<lambda>v. Inr (Some v)))"

definition parse_capacity :: "string \<Rightarrow> f64 option result" where
  "parse_capacity text =
     (if text = ''off'' \<or> text = ''auto'' then Inr None else bind_result (parse_positive text) (\<lambda>v. Inr (Some v)))"

definition parse_memory_budget :: "string \<Rightarrow> mem_budget result" where
  "parse_memory_budget text =
     (if text = ''auto'' then Inr Auto
      else if text = ''off'' then Inr Budget_Off
      else bind_result (size_kib text ''is not a size with its unit, as 14G or 14336M, nor auto or off'') (\<lambda>k. Inr (Kib k)))"

definition parse_idle_min :: "string \<Rightarrow> f64 result" where
  "parse_idle_min text = percent text"

definition parse_memory_limit :: "string \<Rightarrow> mem_limit result" where
  "parse_memory_limit text =
     (if text = ''warning'' then Inr Warning
      else if text = ''critical'' then Inr Critical
      else if text = ''off'' then Inr Mem_Off
      else Inl (choice_error text [''warning'', ''critical'', ''off'']))"

definition parse_log_limit :: "string \<Rightarrow> int result" where
  "parse_log_limit text = bind_result (counting text 1) (\<lambda>value.
     case chk_u64 value of None \<Rightarrow> Inl (repr_error text ''is too large'') | Some v \<Rightarrow> Inr v)"

definition parse_job_qos :: "string \<Rightarrow> qos result" where
  "parse_job_qos text =
     (if text = ''utility'' then Inr Utility
      else if text = ''default'' then Inr Qos_Default
      else if text = ''background'' then Inr Background
      else Inl (choice_error text [''utility'', ''default'', ''background'']))"

definition parse_self_accept :: "string \<Rightarrow> bool result" where
  "parse_self_accept text =
     (if text = ''true'' then Inr True
      else if text = ''false'' then Inr False
      else Inl (repr_error text ''is not true or false''))"

definition parse_timer_quota :: "string \<Rightarrow> int result" where
  "parse_timer_quota text = bind_result (counting text 1) (\<lambda>value.
     if 0 \<le> value \<and> value \<le> u32_max then Inr value else Inl (repr_error text ''is too large''))"

definition parse_max_waiting :: "string \<Rightarrow> int result" where
  "parse_max_waiting text = parse_timer_quota text"

definition parse_run_role :: "string \<Rightarrow> string result" where
  "parse_run_role text = (if text \<in> set RUN_ROLES then Inr text else Inl (choice_error text RUN_ROLES))"

definition parse_size_floor :: "string \<Rightarrow> int option result" where
  "parse_size_floor text =
     (if text = ''off'' then Inr None
      else bind_result (size_kib text ''is not a size with its unit, as 14G or 14336M, nor off'') (\<lambda>k. Inr (Some k)))"

definition parse_idle_floor :: "string \<Rightarrow> f64 option result" where
  "parse_idle_floor text = (if text = ''off'' then Inr None else bind_result (percent text) (\<lambda>v. Inr (Some v)))"

definition parse_reconcile_interval :: "string \<Rightarrow> f64 result" where
  "parse_reconcile_interval text =
     (case py_float text of
        None \<Rightarrow> Inl (repr_error text ''is not a number'')
      | Some value \<Rightarrow> if is_finite value \<and> f_le (lit 1 1) value then Inr value
                      else Inl (repr_error text ''is not a finite number, one second or more''))"

text \<open>\<open>CLAIM_TTL_MIN_S\<close> is written as \<open>60\<close> by the format of floating-point values.\<close>

definition parse_claim_ttl :: "string \<Rightarrow> f64 result" where
  "parse_claim_ttl text = bind_result (duration text) (\<lambda>value.
     if f_le CLAIM_TTL_MIN_S value then Inr value else Inl (repr_str text @ '' is not at least 60 seconds''))"

section \<open>Checks and patches\<close>

definition is_positive :: "f64 \<Rightarrow> bool" where
  "is_positive v = (is_finite v \<and> f_lt f_zero v)"

definition is_zero_or_more :: "f64 \<Rightarrow> bool" where
  "is_zero_or_more v = (is_finite v \<and> f_le f_zero v)"

definition is_percent :: "f64 \<Rightarrow> bool" where
  "is_percent v = (f_le f_zero v \<and> f_lt v (lit 100 1))"

definition opt_all :: "('a \<Rightarrow> bool) \<Rightarrow> 'a option \<Rightarrow> bool" where
  "opt_all P x = (case x of None \<Rightarrow> True | Some v \<Rightarrow> P v)"

text \<open>A chain of \<open>ensure(ok, message)?\<close>: the first condition that fails gives its message.\<close>

fun ensure_all :: "(bool \<times> string) list \<Rightarrow> unit result" where
  "ensure_all [] = Inr ()"
| "ensure_all ((ok, message) # rest) = (if ok then ensure_all rest else Inl message)"

definition settings_checks :: "work_settings \<Rightarrow> (bool \<times> string) list" where
  "settings_checks s =
     [(opt_all is_positive (cpu_budget s), ''cpu_budget must be a finite number above zero''),
      (opt_all is_positive (capacity s), ''capacity must be a finite number above zero''),
      (memory_budget s \<noteq> Kib 0, ''memory_budget must be auto, off or more than 0 KiB''),
      (is_percent (idle_min s), ''idle_min must be at least 0 and below 100''),
      (is_positive (load_factor s), ''load_factor must be a finite number above zero''),
      (is_positive (load_wait s), ''load_wait must be a finite number above zero''),
      (1 \<le> log_limit s, ''log_limit must be at least 1''),
      (is_positive (keep_days s), ''keep_days must be a finite number above zero''),
      (is_positive (backfill_wait s), ''backfill_wait must be a finite number above zero''),
      (is_positive (small_weight s), ''small_weight must be a finite number above zero''),
      (is_zero_or_more (aging s), ''aging must be a finite number, zero or more''),
      (is_zero_or_more (quiet_drain s), ''quiet_drain must be a finite number, zero or more''),
      (is_zero_or_more (quiet_max s), ''quiet_max must be a finite number, zero or more''),
      (1 \<le> timer_quota s, ''timer_quota must be at least 1''),
      (disk_floor_kib s \<noteq> Some 0, ''disk_floor must be off or more than 0 KiB''),
      (memory_floor_kib s \<noteq> Some 0, ''memory_floor must be off or more than 0 KiB''),
      (opt_all is_percent (idle_floor_pct s), ''idle_floor must be at least 0 and below 100''),
      (is_finite (reconcile_interval_s s) \<and> f_le (lit 1 1) (reconcile_interval_s s),
        ''reconcile_interval must be a finite number, one second or more''),
      (is_positive (lease_ttl_s s), ''lease_ttl must be a finite number above zero''),
      (is_finite (claim_ttl_s s) \<and> f_le CLAIM_TTL_MIN_S (claim_ttl_s s),
        ''claim_ttl must be a finite number, 60 seconds or more''),
      (run_role s \<in> set RUN_ROLES, ''run_role must be one of worker, supervisor, controller, owner''),
      (1 \<le> max_waiting s, ''max_waiting must be at least 1'')]"

definition validate_settings :: "work_settings \<Rightarrow> unit result" where
  "validate_settings s = ensure_all (settings_checks s)"

definition normalize_stored :: "work_settings \<Rightarrow> work_settings \<times> bool" where
  "normalize_stored s =
     (if is_finite (claim_ttl_s s) \<and> f_lt f_zero (claim_ttl_s s) \<and> f_lt (claim_ttl_s s) CLAIM_TTL_MIN_S
      then (s\<lparr>claim_ttl_s := CLAIM_TTL_MIN_S\<rparr>, True) else (s, False))"

text \<open>The macro \<open>set_field!\<close>: an absent value changes nothing; a value is parsed, stored and listed as a change.\<close>

type_synonym apply_state = "work_settings \<times> string list"

definition set_field :: "string option \<Rightarrow> string \<Rightarrow> (string \<Rightarrow> 'v result) \<Rightarrow> ('v \<Rightarrow> work_settings \<Rightarrow> work_settings)
    \<Rightarrow> apply_state \<Rightarrow> apply_state result" where
  "set_field value key parse put st =
     (case value of
        None \<Rightarrow> Inr st
      | Some raw \<Rightarrow> (case parse raw of
          Inl e \<Rightarrow> Inl (flag_error key e)
        | Inr v \<Rightarrow> Inr (put v (fst st), snd st @ [key @ '' '' @ raw])))"

definition set_fields :: "settings_patch \<Rightarrow> (apply_state \<Rightarrow> apply_state result) list" where
  "set_fields p =
     [set_field (p_cpu_budget p) ''cpu_budget'' parse_cpu_budget (\<lambda>v s. s\<lparr>cpu_budget := v\<rparr>),
      set_field (p_capacity p) ''capacity'' parse_capacity (\<lambda>v s. s\<lparr>capacity := v\<rparr>),
      set_field (p_memory_budget p) ''memory_budget'' parse_memory_budget (\<lambda>v s. s\<lparr>memory_budget := v\<rparr>),
      set_field (p_idle_min p) ''idle_min'' parse_idle_min (\<lambda>v s. s\<lparr>idle_min := v\<rparr>),
      set_field (p_memory_limit p) ''memory_limit'' parse_memory_limit (\<lambda>v s. s\<lparr>memory_limit := v\<rparr>),
      set_field (p_load_factor p) ''load_factor'' parse_positive (\<lambda>v s. s\<lparr>load_factor := v\<rparr>),
      set_field (p_load_wait p) ''load_wait'' parse_positive (\<lambda>v s. s\<lparr>load_wait := v\<rparr>),
      set_field (p_log_limit p) ''log_limit'' parse_log_limit (\<lambda>v s. s\<lparr>log_limit := v\<rparr>),
      set_field (p_keep_days p) ''keep_days'' parse_positive (\<lambda>v s. s\<lparr>keep_days := v\<rparr>),
      set_field (p_backfill_wait p) ''backfill_wait'' parse_positive (\<lambda>v s. s\<lparr>backfill_wait := v\<rparr>),
      set_field (p_small_weight p) ''small_weight'' parse_positive (\<lambda>v s. s\<lparr>small_weight := v\<rparr>),
      set_field (p_aging p) ''aging'' duration (\<lambda>v s. s\<lparr>aging := v\<rparr>),
      set_field (p_job_qos p) ''job_qos'' parse_job_qos (\<lambda>v s. s\<lparr>job_qos := v\<rparr>),
      set_field (p_quiet_drain p) ''quiet_drain'' duration (\<lambda>v s. s\<lparr>quiet_drain := v\<rparr>),
      set_field (p_quiet_max p) ''quiet_max'' duration (\<lambda>v s. s\<lparr>quiet_max := v\<rparr>),
      set_field (p_self_accept p) ''self_accept'' parse_self_accept (\<lambda>v s. s\<lparr>self_accept := v\<rparr>),
      set_field (p_timer_quota p) ''timer_quota'' parse_timer_quota (\<lambda>v s. s\<lparr>timer_quota := v\<rparr>),
      set_field (p_disk_floor p) ''disk_floor'' parse_size_floor (\<lambda>v s. s\<lparr>disk_floor_kib := v\<rparr>),
      set_field (p_memory_floor p) ''memory_floor'' parse_size_floor (\<lambda>v s. s\<lparr>memory_floor_kib := v\<rparr>),
      set_field (p_idle_floor p) ''idle_floor'' parse_idle_floor (\<lambda>v s. s\<lparr>idle_floor_pct := v\<rparr>),
      set_field (p_reconcile_interval p) ''reconcile_interval'' parse_reconcile_interval (\<lambda>v s. s\<lparr>reconcile_interval_s := v\<rparr>),
      set_field (p_lease_ttl p) ''lease_ttl'' parse_positive (\<lambda>v s. s\<lparr>lease_ttl_s := v\<rparr>),
      set_field (p_claim_ttl p) ''claim_ttl'' parse_claim_ttl (\<lambda>v s. s\<lparr>claim_ttl_s := v\<rparr>),
      set_field (p_run_role p) ''run_role'' parse_run_role (\<lambda>v s. s\<lparr>run_role := v\<rparr>),
      set_field (p_max_waiting p) ''max_waiting'' parse_max_waiting (\<lambda>v s. s\<lparr>max_waiting := v\<rparr>)]"

definition apply_patch :: "work_settings \<Rightarrow> settings_patch \<Rightarrow> (work_settings \<times> string list) result" where
  "apply_patch s p = foldl bind_result (Inr (s, [])) (set_fields p)"

section \<open>Parsed values satisfy the checks\<close>

lemma rnd_at_pos_nonneg: "0 \<le> n \<Longrightarrow> 0 < d \<Longrightarrow> 0 \<le> rnd_at n d b"
  by (simp add: rnd_at_def Let_def rne_nonneg)

lemma round_at_least_one:
  assumes "is_finite (f_round_ties_even y)" "f_lt f_zero (f_round_ties_even y)"
  shows "1 \<le> f_num (f_round_ties_even y) div f_den (f_round_ties_even y)"
proof -
  let ?x = "f_round_ties_even y" and ?n = "rne (f_num y) (f_den y)"
  have fin: "is_finite y" using assms(1) by (auto simp: f_round_ties_even_def f_int_part_def split: if_splits)
  have x: "?x = of_ord (f_neg y) (rnd_at ?n 1 1074)" using fin by (simp add: f_round_ties_even_def f_int_part_def)
  have n0: "0 \<le> ?n" using f_num_den [of y] by (simp add: rne_nonneg)
  have "rnd_at ?n 1 1074 \<noteq> 0" using assms(2) x n0 by (auto simp: f_lt_def f_key_of_ord rnd_at_pos_nonneg split: if_splits)
  then have n1: "1 \<le> ?n" using n0 by (cases "?n = 0") (auto simp: rnd_at_def)
  have one: "rnd_at 1 1 1074 = 1023 * p52" by code_simp
  have "rnd_at (1 * 2 ^ 1074) 1 0 \<le> rnd_at (?n * 2 ^ 1074) 1 0" using n1 by (intro rnd_at_mono) auto
  then have "1023 * p52 \<le> rnd_at ?n 1 1074"
    using n1 one rnd_at_scale [of 1 1 1074] rnd_at_scale [of ?n 1 1074] by simp
  then have o: "1023 * p52 \<le> f_ord ?x" using n0 x by (simp add: rnd_at_pos_nonneg)
  then have s: "1022 \<le> f_shift ?x" using f_mant_bounds [of ?x] by (simp add: f_ord_eq)
  then have m: "2 ^ 52 \<le> f_mant ?x" using uint_nonnegative [of "f_frac ?x"] by (auto simp: f_shift_def f_mant_def)
  show ?thesis
  proof (cases "f_shift ?x \<le> 1074")
    case True
    have "(2::int) ^ (1074 - f_shift ?x) \<le> 2 ^ 52" using s by (intro power_increasing) auto
    then have "f_den ?x \<le> f_num ?x" using m True by (simp add: f_num_def f_den_def)
    then show ?thesis using f_num_den [of ?x] by (simp add: pos_imp_zdiv_pos_iff int_one_le_iff_zero_less)
  next
    case False
    have "1 * 1 \<le> f_mant ?x * 2 ^ (f_shift ?x - 1074)" using m by (intro mult_mono) auto
    then show ?thesis using False by (simp add: f_num_def f_den_def)
  qed
qed

lemma digits_value_nonneg: "list_all is_digit s \<Longrightarrow> 0 \<le> digits_value s"
proof (induction s rule: rev_induct)
  case (snoc c s)
  then show ?case by (simp add: digits_value_snoc is_digit_byte digit_val_byte)
qed (simp add: digits_value_def)

lemma lit_not_nan: "0 \<le> n \<Longrightarrow> 0 < d \<Longrightarrow> \<not> is_nan (lit n d)"
  by (simp add: lit_def Let_def rnd_at_pos_nonneg)

lemma is_nan_with_sign [simp]: "is_nan (with_sign s x) = is_nan x"
  by (simp add: is_nan_def f_ord_def with_sign_def)

lemma parse_f64_digits_not_nan:
  assumes "parse_f64 s = Some x" "s \<noteq> []" "is_digit (hd s)"
  shows "\<not> is_nan x"
proof -
  have d: "ascii_lower (hd s) \<noteq> CHR ''i''" "ascii_lower (hd s) \<noteq> CHR ''n''"
    using assms(3) by (auto simp: is_digit_byte ascii_lower_def byte_def)
  have sg: "parse_sign s = (False, s)" using assms by (cases s) (auto simp: parse_sign_def is_digit_byte byte_def)
  let ?r1 = "dropWhile is_digit s"
  obtain fp r2 where f: "(case ?r1 of c # r' \<Rightarrow> if c = CHR ''.'' then span_digits r' else ([], ?r1) | [] \<Rightarrow> ([], [])) = (fp, r2)"
    by (metis surj_pair)
  then have fp: "list_all is_digit fp"
    by (auto simp: span_digits_def list_all_iff dest: set_takeWhileD split: list.splits if_splits)
  have l: "map ascii_lower s \<noteq> ''inf''" "map ascii_lower s \<noteq> ''infinity''" "map ascii_lower s \<noteq> ''nan''"
    using assms(2) d by (cases s; auto)+
  obtain e where "x = with_sign False (dec_value (digits_value (takeWhile is_digit s @ fp)) e)"
    using assms(1) l unfolding parse_f64_def sg Let_def prod.case span_digits_def f by (auto simp: f [unfolded span_digits_def] split: if_splits)
  moreover have "0 \<le> digits_value (takeWhile is_digit s @ fp)"
    using fp by (intro digits_value_nonneg) (auto simp: list_all_iff dest: set_takeWhileD)
  ultimately show ?thesis by (simp add: dec_value_def lit_not_nan)
qed

lemma number_len_digit:
  assumes "number_len body = Some n"
  shows "take n body \<noteq> []" "is_digit (hd (take n body))"
proof -
  have c: "count_digits body \<noteq> 0" "count_digits body \<le> n"
    using assms by (auto simp: number_len_def Let_def split: if_splits option.splits)
  then show "take n body \<noteq> []" by (cases n) (auto simp: count_digits_def)
  then have "hd (take n body) = hd body" by (cases body; cases n) auto
  then show "is_digit (hd (take n body))" using c(1) by (cases body) (auto simp: count_digits_def split: if_splits)
qed

lemma f_mul_scale_not_nan:
  assumes "\<not> is_nan a" "is_finite b" "f_ord b \<noteq> 0"
  shows "\<not> is_nan (f_mul a b)"
proof -
  have "\<not> is_nan b" "\<not> is_inf b" using assms(2) by (auto simp: is_finite_def is_nan_def is_inf_def)
  moreover have "0 \<le> f_mant a * f_mant b" using f_mant_bounds by simp
  ultimately show ?thesis using assms by (auto simp: f_mul_def Let_def rnd_at_pos_nonneg)
qed

lemma scales_finite:
  "list_all (\<lambda>x. is_finite x \<and> f_ord x \<noteq> 0) [lit 1 1, lit 1024 1, f_mul (lit 1024 1) (lit 1024 1),
     f_mul (f_mul (lit 1024 1) (lit 1024 1)) (lit 1024 1)]"
  by code_simp

lemma size_scale_finite: "size_scale c = Some x \<Longrightarrow> is_finite x \<and> f_ord x \<noteq> 0"
  using scales_finite by (auto simp: size_scale_def Let_def split: if_splits)

lemma size_value_rounded:
  assumes "size_value text = Some kib"
  obtains y where "kib = f_round_ties_even y" "\<not> is_nan kib"
proof -
  obtain n x c scale where v: "number_len (py_strip text) = Some n" "parse_f64 (take n (py_strip text)) = Some x"
      "size_scale c = Some scale" "kib = f_round_ties_even (f_mul x scale)"
    using assms by (auto simp: size_value_def Let_def split: option.splits list.splits if_splits)
  have "\<not> is_nan x" using parse_f64_digits_not_nan [OF v(2)] number_len_digit [OF v(1)] by blast
  then have "\<not> is_nan (f_mul x scale)" using f_mul_scale_not_nan size_scale_finite [OF v(3)] by blast
  then have "\<not> is_nan kib" using f_num_den [of "f_mul x scale"]
    unfolding v(4) f_round_ties_even_def f_int_part_def by (simp add: rnd_at_pos_nonneg rne_nonneg)
  then show ?thesis using that v(4) by blast
qed

lemma size_kib_Inr:
  assumes "size_kib text otherwise = Inr k"
  shows "1 \<le> k"
proof -
  obtain kib where k: "size_value text = Some kib" "\<not> f_le kib f_zero" "\<not> f_le (lit 9000000000000000000 1) kib" "k = f_to_int 0 u64_max kib"
    using assms by (auto simp: size_kib_def split: option.splits if_splits)
  obtain y where y: "kib = f_round_ties_even y" "\<not> is_nan kib" using size_value_rounded [OF k(1)] .
  have p: "f_lt f_zero kib" using k(2) y(2) by (simp add: f_not_le)
  then have n: "\<not> f_neg kib" using f_ord_nonneg [of kib] unfolding f_lt_def f_zero_simps f_key_def [of kib] by (cases "f_neg kib") auto
  consider "is_inf kib" | "is_finite kib" using nan_inf_finite y(2) by blast
  then show ?thesis
  proof cases
    case 1
    then show ?thesis using k(4) y(2) n by (simp add: f_to_int_def)
  next
    case 2
    then have "1 \<le> f_num kib div f_den kib" using round_at_least_one [of y] p y(1) by simp
    then show ?thesis using k(4) y(2) n 2 by (simp add: f_to_int_def Let_def is_finite_def is_inf_def)
  qed
qed

lemma duration_Inr: "duration text = Inr v \<Longrightarrow> is_zero_or_more v"
  by (auto simp: duration_def is_zero_or_more_def split: option.splits if_splits)

lemma parse_positive_Inr: "parse_positive text = Inr v \<Longrightarrow> is_positive v"
  using duration_Inr by (fastforce simp: parse_positive_def bind_result_Inr_iff is_positive_def is_zero_or_more_def f_eq_def
    f_le_def f_lt_def split: if_splits)

lemma percent_Inr: "percent text = Inr v \<Longrightarrow> is_percent v"
  using duration_Inr by (fastforce simp: percent_def bind_result_Inr_iff is_percent_def is_zero_or_more_def split: if_splits)

lemma claim_ttl_Inr: "parse_claim_ttl text = Inr v \<Longrightarrow> is_finite v \<and> f_le CLAIM_TTL_MIN_S v"
  using duration_Inr by (fastforce simp: parse_claim_ttl_def bind_result_Inr_iff is_zero_or_more_def split: if_splits)

lemma reconcile_interval_Inr: "parse_reconcile_interval text = Inr v \<Longrightarrow> is_finite v \<and> f_le (lit 1 1) v"
  by (auto simp: parse_reconcile_interval_def split: option.splits if_splits)

lemma count_Inr:
  "parse_log_limit text = Inr v \<Longrightarrow> 1 \<le> v"
  "parse_timer_quota text = Inr v \<Longrightarrow> 1 \<le> v"
  by (auto simp: parse_log_limit_def parse_timer_quota_def counting_def bind_result_Inr_iff split: option.splits if_splits)

lemma option_Inr:
  "parse_cpu_budget text = Inr b \<Longrightarrow> opt_all is_positive b"
  "parse_capacity text = Inr b \<Longrightarrow> opt_all is_positive b"
  "parse_idle_floor text = Inr b \<Longrightarrow> opt_all is_percent b"
  by (auto simp: parse_cpu_budget_def parse_capacity_def parse_idle_floor_def bind_result_Inr_iff opt_all_def
    parse_positive_Inr percent_Inr split: if_splits)

lemma size_Inr:
  "parse_size_floor text = Inr k \<Longrightarrow> k \<noteq> Some 0"
  "parse_memory_budget text = Inr m \<Longrightarrow> m \<noteq> Kib 0"
  by (auto simp: parse_size_floor_def parse_memory_budget_def bind_result_Inr_iff split: if_splits dest: size_kib_Inr)

lemma run_role_Inr: "parse_run_role text = Inr r \<Longrightarrow> r \<in> set RUN_ROLES"
  by (simp add: parse_run_role_def split: if_splits)

lemmas parsed_ok = duration_Inr parse_positive_Inr percent_Inr claim_ttl_Inr reconcile_interval_Inr count_Inr option_Inr
  size_Inr run_role_Inr

section \<open>Patches keep the settings valid\<close>

definition settings_ok :: "work_settings \<Rightarrow> bool" where
  "settings_ok s = list_all fst (settings_checks s)"

lemma ensure_all_Inr: "ensure_all cs = Inr () \<longleftrightarrow> list_all fst cs"
  by (induction cs rule: ensure_all.induct) auto

lemma validate_settings_iff: "validate_settings s = Inr () \<longleftrightarrow> settings_ok s"
  by (simp add: validate_settings_def settings_ok_def ensure_all_Inr)

definition keeps_ok :: "(apply_state \<Rightarrow> apply_state result) \<Rightarrow> bool" where
  "keeps_ok f = (\<forall>st st'. f st = Inr st' \<longrightarrow> settings_ok (fst st) \<longrightarrow> settings_ok (fst st'))"

lemma set_field_keeps:
  "(\<And>raw v s. parse raw = Inr v \<Longrightarrow> settings_ok s \<Longrightarrow> settings_ok (put v s)) \<Longrightarrow> keeps_ok (set_field value key parse put)"
  by (auto simp: keeps_ok_def set_field_def split: option.splits sum.splits)

lemma set_fields_keep: "list_all keeps_ok (set_fields p)"
  unfolding set_fields_def list.pred_inject
  by (intro conjI TrueI set_field_keeps)
    (auto simp: settings_ok_def settings_checks_def parsed_ok parse_idle_min_def parse_max_waiting_def)

lemma foldl_bind_keeps:
  "list_all keeps_ok fs \<Longrightarrow> foldl bind_result r fs = Inr st' \<Longrightarrow> (\<And>st. r = Inr st \<Longrightarrow> settings_ok (fst st)) \<Longrightarrow> settings_ok (fst st')"
proof (induction fs arbitrary: r)
  case (Cons f fs)
  have "settings_ok (fst st)" if "bind_result r f = Inr st" for st
    using that Cons.prems(1,3) unfolding bind_result_Inr_iff list.pred_inject keeps_ok_def by blast
  then show ?case using Cons.IH [of "bind_result r f"] Cons.prems(1,2) by simp
qed simp

lemma default_ok: "settings_ok settings_default"
  by code_simp

lemma normalize_stored_ok: "settings_ok s \<Longrightarrow> normalize_stored s = (s, False)"
  by (auto simp: normalize_stored_def settings_ok_def settings_checks_def f_lt_def f_le_def)

text \<open>
  C34: the check of stored settings accepts the defaults and whatever a patch makes of settings it accepts: every parser
  enforces the rule of its field, whatever the text, rounding and overflow included. Accepted settings are read back
  unchanged.
\<close>

theorem apply_keeps_valid:
  assumes "validate_settings s = Inr ()" "apply_patch s p = Inr (s', changes)"
  shows "validate_settings s' = Inr () \<and> normalize_stored s' = (s', False)"
proof -
  have "settings_ok (fst (s', changes))"
    by (rule foldl_bind_keeps [OF set_fields_keep assms(2) [unfolded apply_patch_def]])
      (use assms(1) in \<open>auto simp: validate_settings_iff\<close>)
  then show ?thesis by (simp add: validate_settings_iff normalize_stored_ok)
qed

definition sample_patch :: settings_patch where
  "sample_patch = patch_default\<lparr>p_load_wait := Some ''90.5'', p_memory_budget := Some '' 1.5 GiB'', p_claim_ttl := Some ''60''\<rparr>"

lemma sample_patch_applied:
  "case apply_patch settings_default sample_patch of
     Inr (s, changes) \<Rightarrow> memory_budget s = Kib 1572864 \<and> length changes = 3 | Inl e \<Rightarrow> False"
  by code_simp

theorem apply_keeps_valid_witness:
  "\<exists>s' changes. apply_patch settings_default sample_patch = Inr (s', changes) \<and> memory_budget s' = Kib 1572864
     \<and> validate_settings s' = Inr ()"
proof -
  obtain s' changes where a: "apply_patch settings_default sample_patch = Inr (s', changes)" "memory_budget s' = Kib 1572864"
    using sample_patch_applied by (auto split: sum.splits)
  moreover have "validate_settings settings_default = Inr ()" using default_ok by (simp add: validate_settings_iff)
  ultimately show ?thesis using apply_keeps_valid by blast
qed

end
