(* ===== verification/Store.thy ===== *)
theory Store
  imports Cards Crypto Policy Task Settings
begin

text \<open>
  The tables of the store (\<open>crates/agora-store/src/lib.rs\<close> and its migrations) and the SQL the operations use
  on them. A table is the list of its rows in insertion order; a row is a record with the columns of the
  schema. An operation runs in one transaction: it returns the new database, or an error and the database is
  unchanged. Values that the code stores as JSON text are kept as the value itself.
\<close>

section \<open>Errors\<close>

datatype store_error =
    Sql string
  | Transition transition_error
  | NotFound string
  | BadState string
  | Crypto crypto_error
  | Invalid string
  | Refused string
  | NotMember string

type_synonym 'a tx = "store_error + 'a"

section \<open>Tables\<close>

record event_row =
  e_ts :: int
  e_actor :: string
  e_kind :: string
  e_subject :: string
  e_data :: json

record identity_row =
  i_pubkey :: string
  i_label :: string
  i_role :: string
  i_revoked :: bool
  i_first_seen :: int
  i_system :: bool

record nonce_row =
  n_actor :: string
  n_nonce :: string
  n_ts :: int

record channel_row =
  ch_id :: string
  ch_kind :: string
  ch_name :: string
  ch_parent :: "string option"
  ch_epoch :: int
  ch_created :: int

record member_row =
  m_channel :: string
  m_pubkey :: string
  m_role :: string

record key_row =
  k_channel :: string
  k_epoch :: int
  k_member :: string
  k_wrapped :: string
  k_wrapper :: "string option"

record rotation_row =
  r_channel :: string
  r_since :: int
  r_reason :: string

record message_row =
  ms_id :: string
  ms_seq :: int
  ms_channel :: string
  ms_thread_of :: "string option"
  ms_sender :: string
  ms_ts :: int
  ms_encrypted :: bool
  ms_epoch :: int
  ms_body :: string
  ms_sig :: string

record attachment_row =
  at_message :: string
  at_hash :: string
  at_name :: string
  at_mime :: string

record blob_row =
  b_hash :: string
  b_size :: int
  b_bytes :: string
  b_spilled :: bool

record upload_row =
  u_uploader :: string
  u_hash :: string
  u_size :: int
  u_ts :: int

record cursor_row =
  cu_reader :: string
  cu_channel :: string
  cu_acked :: int

record card_row =
  c_id :: string
  c_title :: string
  c_lane :: string
  c_state :: string
  c_owner :: "string option"
  c_created :: int
  c_updated :: int
  c_priority :: int
  c_value :: f64
  c_size :: f64
  c_team :: string
  c_needs_owner :: bool
  c_owner_action :: string

record evidence_row =
  ev_card :: string
  ev_ref :: string
  ev_by :: string

record approval_row =
  ap_card :: string
  ap_by :: string

record dep_row =
  d_card :: string
  d_after :: string

record link_row =
  l_card :: string
  l_rel :: string
  l_target :: string
  l_created :: int
  l_by :: string

record policy_row =
  p_team :: string
  p_lane :: string
  p_policy :: team_policy
  p_updated :: int
  p_by :: string

record notice_row =
  no_seq :: int
  no_ts :: int
  no_target :: string
  no_kind :: string
  no_subject :: string
  no_text :: string

record reaction_row =
  re_kind :: string
  re_target :: string
  re_by :: string
  re_emoji :: string
  re_ts :: int
  re_sig :: string

record sprint_row =
  sp_id :: string
  sp_name :: string
  sp_goal :: string
  sp_starts :: int
  sp_ends :: int
  sp_state :: string

record sprint_card_row =
  sc_sprint :: string
  sc_card :: string

record knowledge_row =
  kn_id :: string
  kn_author :: string
  kn_ts :: int
  kn_title :: string
  kn_body :: string
  kn_tags :: string
  kn_supersedes :: "string option"
  kn_sig :: string

record status_row =
  st_pk :: string
  st_harness :: string
  st_state :: string
  st_folder :: string
  st_matter :: string
  st_ts :: int

record scope_row =
  s_id :: string
  s_kind :: string
  s_parent :: "string option"
  s_task :: string
  s_agent :: "string option"
  s_created :: int
  s_updated :: int

record work_row =
  w_seq :: int
  w_id :: string
  w_title :: string
  w_kind :: string
  w_scope :: "string option"
  w_author :: string
  w_queued :: int
  w_after :: "string list"
  w_size :: f64
  w_value :: f64
  w_files :: "string list"
  w_command :: "string list option"
  w_cwd :: "string option"
  w_weight :: f64
  w_state :: string
  w_agent :: "string option"
  w_accepted :: "string option"
  w_claimed :: "int option"
  w_requested :: "int option"
  w_started :: "int option"
  w_ended :: "int option"
  w_supervisor_pid :: "int option"
  w_supervisor_start :: "int option"
  w_pid :: "int option"
  w_status :: "int option"
  w_log :: "string option"
  w_qos :: "string option"
  w_cpu :: "f64 option"
  w_rss :: "int option"
  w_rss_peak :: "int option"
  w_cpu_time :: "f64 option"
  w_sampled :: "int option"
  w_note :: string
  w_sig_full :: "string option"
  w_sig_head :: "string option"
  w_sig_prog :: "string option"
  w_sig_tool :: "string option"
  w_prediction :: "json option"
  w_card :: "string option"
  w_origin :: "string option"
  w_exclusive :: bool
  w_quiet_until :: "int option"
  w_cancel_requested :: bool

record history_row =
  jh_task :: string
  jh_sig_full :: "string option"
  jh_sig_head :: "string option"
  jh_sig_prog :: "string option"
  jh_sig_tool :: "string option"
  jh_weight :: f64
  jh_status :: "int option"
  jh_started :: int
  jh_ended :: int
  jh_cpu_time :: "f64 option"
  jh_rss_peak :: "int option"
  jh_requested :: "int option"

record pool_row =
  po_name :: string
  po_capacity :: f64
  po_unit :: string
  po_note :: string
  po_created :: int
  po_created_by :: string

record lease_row =
  le_id :: string
  le_kind :: string
  le_resource :: string
  le_amount :: f64
  le_holder :: string
  le_card :: "string option"
  le_task :: "string option"
  le_created :: int
  le_expires :: "int option"
  le_heartbeat :: int
  le_expected_end :: "int option"
  le_released :: "int option"
  le_note :: string

record mark_row =
  mk_key :: string
  mk_last :: int
  mk_count :: int

text \<open>
  Values of \<open>AUTOINCREMENT\<close> columns are never reused: \<open>db_notice_seq\<close> is the last number given to a notice. Tasks
  are never deleted, so the next number of a task is one more than the number of tasks.
\<close>

record db =
  db_events :: "event_row list"
  db_identities :: "identity_row list"
  db_nonces :: "nonce_row list"
  db_channels :: "channel_row list"
  db_members :: "member_row list"
  db_keys :: "key_row list"
  db_rotation :: "rotation_row list"
  db_messages :: "message_row list"
  db_attachments :: "attachment_row list"
  db_blobs :: "blob_row list"
  db_uploads :: "upload_row list"
  db_cursors :: "cursor_row list"
  db_cards :: "card_row list"
  db_evidence :: "evidence_row list"
  db_approvals :: "approval_row list"
  db_deps :: "dep_row list"
  db_links :: "link_row list"
  db_policies :: "policy_row list"
  db_notices :: "notice_row list"
  db_notice_seq :: int
  db_reactions :: "reaction_row list"
  db_sprints :: "sprint_row list"
  db_sprint_cards :: "sprint_card_row list"
  db_knowledge :: "knowledge_row list"
  db_statuses :: "status_row list"
  db_scopes :: "scope_row list"
  db_work :: "work_row list"
  db_history :: "history_row list"
  db_pools :: "pool_row list"
  db_leases :: "lease_row list"
  db_marks :: "mark_row list"
  db_settings :: "work_settings option"
  db_state :: "(string \<times> string) list"

definition empty_db :: db where
  "empty_db = \<lparr>db_events = [], db_identities = [], db_nonces = [], db_channels = [], db_members = [], db_keys = [],
     db_rotation = [], db_messages = [], db_attachments = [], db_blobs = [], db_uploads = [], db_cursors = [], db_cards = [], db_evidence = [], db_approvals = [], db_deps = [], db_links = [],
     db_policies = [], db_notices = [], db_notice_seq = 0, db_reactions = [], db_sprints = [], db_sprint_cards = [],
     db_knowledge = [], db_statuses = [], db_scopes = [], db_work = [], db_history = [], db_pools = [], db_leases = [], db_marks = [],
     db_settings = None, db_state = []\<rparr>"

section \<open>SQL on a table\<close>

definition update_where :: "('r \<Rightarrow> bool) \<Rightarrow> ('r \<Rightarrow> 'r) \<Rightarrow> 'r list \<Rightarrow> 'r list" where
  "update_where p f t = map (\<lambda>r. if p r then f r else r) t"

definition delete_where :: "('r \<Rightarrow> bool) \<Rightarrow> 'r list \<Rightarrow> 'r list" where
  "delete_where p t = filter (\<lambda>r. \<not> p r) t"

text \<open>\<open>INSERT OR IGNORE\<close> under a primary key; the flag says whether a row was added.\<close>

definition insert_ignore :: "('r \<Rightarrow> 'k) \<Rightarrow> 'r \<Rightarrow> 'r list \<Rightarrow> 'r list \<times> bool" where
  "insert_ignore key r t = (if key r \<in> set (map key t) then (t, False) else (t @ [r], True))"

text \<open>A plain \<open>INSERT\<close> fails when the primary key is taken.\<close>

definition insert_row :: "('r \<Rightarrow> 'k) \<Rightarrow> 'r \<Rightarrow> 'r list \<Rightarrow> 'r list tx" where
  "insert_row key r t = (if key r \<in> set (map key t) then Inl (Sql ''UNIQUE constraint failed'') else Inr (t @ [r]))"

lemma set_update_where: "set (update_where p f t) = (\<lambda>r. if p r then f r else r) ` set t"
  by (simp add: update_where_def)

lemma map_update_where: "(\<And>r. key (f r) = key r) \<Longrightarrow> map key (update_where p f t) = map key t"
  by (simp add: update_where_def)

lemma length_update_where [simp]: "length (update_where p f t) = length t"
  by (simp add: update_where_def)

lemma update_where_Nil [simp]: "update_where p f [] = []"
  by (simp add: update_where_def)

lemma set_delete_where [simp]: "set (delete_where p t) = {r \<in> set t. \<not> p r}"
  by (auto simp: delete_where_def)

lemma distinct_delete_where: "distinct (map key t) \<Longrightarrow> distinct (map key (delete_where p t))"
  by (simp add: delete_where_def distinct_map_filter)

lemma insert_ignore_distinct: "distinct (map key t) \<Longrightarrow> distinct (map key (fst (insert_ignore key r t)))"
  by (simp add: insert_ignore_def)

lemma insert_ignore_set: "set (fst (insert_ignore key r t)) = set t \<union> (if snd (insert_ignore key r t) then {r} else {})"
  by (simp add: insert_ignore_def)

lemma insert_row_Inr: "insert_row key r t = Inr t' \<longleftrightarrow> key r \<notin> set (map key t) \<and> t' = t @ [r]"
  by (auto simp: insert_row_def)

lemma find_update_where:
  assumes "\<And>r. q (f r) = q r"
  shows "find q (update_where p f t) = map_option (\<lambda>r. if p r then f r else r) (find q t)"
  using assms by (induction t) (auto simp: update_where_def)

text \<open>A key finds the one row that carries it.\<close>

lemma find_key:
  assumes "distinct (map key t)" "r \<in> set t"
  shows "find (\<lambda>x. key x = key r) t = Some r"
  using assms by (induction t) (auto simp: image_iff)

lemma find_key_Some:
  assumes "distinct (map key t)"
  shows "find (\<lambda>x. key x = k) t = Some r \<longleftrightarrow> r \<in> set t \<and> key r = k"
  using assms find_key [of key t r] by (auto simp: find_Some_iff)

section \<open>Events\<close>

definition jint :: "int \<Rightarrow> json" where
  "jint n = JNum (if 0 \<le> n then PosInt n else NegInt n)"

definition append_event :: "int \<Rightarrow> string \<Rightarrow> string \<Rightarrow> string \<Rightarrow> json \<Rightarrow> db \<Rightarrow> db" where
  "append_event now actor kind subject data d =
     d \<lparr>db_events := db_events d @ [\<lparr>e_ts = now, e_actor = actor, e_kind = kind, e_subject = subject, e_data = data\<rparr>]\<rparr>"

definition event_count :: "db \<Rightarrow> int" where
  "event_count d = int (length (db_events d))"

lemma append_event_simps [simp]:
  "db_identities (append_event now a k s j d) = db_identities d"
  "db_nonces (append_event now a k s j d) = db_nonces d"
  "db_channels (append_event now a k s j d) = db_channels d"
  "db_members (append_event now a k s j d) = db_members d"
  "db_keys (append_event now a k s j d) = db_keys d"
  "db_rotation (append_event now a k s j d) = db_rotation d"
  "db_messages (append_event now a k s j d) = db_messages d"
  "db_attachments (append_event now a k s j d) = db_attachments d"
  "db_blobs (append_event now a k s j d) = db_blobs d"
  "db_uploads (append_event now a k s j d) = db_uploads d"
  "db_cursors (append_event now a k s j d) = db_cursors d"
  "db_cards (append_event now a k s j d) = db_cards d"
  "db_evidence (append_event now a k s j d) = db_evidence d"
  "db_approvals (append_event now a k s j d) = db_approvals d"
  "db_deps (append_event now a k s j d) = db_deps d"
  "db_links (append_event now a k s j d) = db_links d"
  "db_policies (append_event now a k s j d) = db_policies d"
  "db_notices (append_event now a k s j d) = db_notices d"
  "db_notice_seq (append_event now a k s j d) = db_notice_seq d"
  "db_reactions (append_event now a k s j d) = db_reactions d"
  "db_sprints (append_event now a k s j d) = db_sprints d"
  "db_sprint_cards (append_event now a k s j d) = db_sprint_cards d"
  "db_knowledge (append_event now a k s j d) = db_knowledge d"
  "db_statuses (append_event now a k s j d) = db_statuses d"
  "db_scopes (append_event now a k s j d) = db_scopes d"
  "db_work (append_event now a k s j d) = db_work d"
  "db_history (append_event now a k s j d) = db_history d"
  "db_pools (append_event now a k s j d) = db_pools d"
  "db_leases (append_event now a k s j d) = db_leases d"
  "db_marks (append_event now a k s j d) = db_marks d"
  "db_settings (append_event now a k s j d) = db_settings d"
  "db_state (append_event now a k s j d) = db_state d"
  "db_events (append_event now a k s j d) =
     db_events d @ [\<lparr>e_ts = now, e_actor = a, e_kind = k, e_subject = s, e_data = j\<rparr>]"
  by (simp_all add: append_event_def)

section \<open>Reading JSON arguments\<close>

definition jget :: "string \<Rightarrow> json \<Rightarrow> json option" where
  "jget k v = (case v of JObj ps \<Rightarrow> map_of ps k | _ \<Rightarrow> None)"

definition jas_str :: "json \<Rightarrow> string option" where
  "jas_str v = (case v of JStr s \<Rightarrow> Some s | _ \<Rightarrow> None)"

section \<open>Channel reads shared by several components\<close>

definition is_encrypted :: "db \<Rightarrow> string \<Rightarrow> bool" where
  "is_encrypted d channel = list_ex (\<lambda>k. k_channel k = channel) (db_keys d)"

definition is_member :: "db \<Rightarrow> string \<Rightarrow> string \<Rightarrow> bool" where
  "is_member d channel pk = list_ex (\<lambda>m. m_channel m = channel \<and> m_pubkey m = pk) (db_members d)"

end
