(* ===== verification/Identity.thy ===== *)
theory Identity
  imports Store
begin

text \<open>
  Identities, roles and the signed operation (\<open>crates/agora-store/src/identity.rs\<close>), and the daemon's own
  identity (\<open>system.rs\<close>). Every state change is authorized against the database it changes: the envelope is
  checked, the signature verified, the role read from the identities table and the nonce consumed. The locale
  \<open>signed_operation\<close> states what an operation of the store owes to \<open>authorize\<close>; its lemmas hold for each of them.
\<close>

section \<open>Transactions\<close>

definition ensure :: "bool \<Rightarrow> store_error \<Rightarrow> unit tx" where
  "ensure c e = (if c then Inr () else Inl e)"

definition ok_or :: "'a option \<Rightarrow> store_error \<Rightarrow> 'a tx" where
  "ok_or x e = (case x of Some a \<Rightarrow> Inr a | None \<Rightarrow> Inl e)"

named_theorems tx_simps "success of the steps of a transaction"

lemma ensure_Inr [tx_simps]: "ensure c e = Inr u \<longleftrightarrow> c"
  by (simp add: ensure_def)

lemma ok_or_Inr [tx_simps]: "ok_or x e = Inr a \<longleftrightarrow> x = Some a"
  by (simp add: ok_or_def split: option.split)

declare bind_result_Inr_iff [tx_simps]

section \<open>Keys as text\<close>

definition hex_val :: "char \<Rightarrow> int" where
  "hex_val c = (if is_digit c then digit_val c else int (of_char c) - 87)"

definition is_hex :: "char \<Rightarrow> bool" where
  "is_hex c = (is_digit c \<or> 97 \<le> (of_char c :: nat) \<and> (of_char c :: nat) \<le> 102)"

definition hex :: "string \<Rightarrow> string" where
  "hex b = concat (map (\<lambda>c. hex_pad 2 (byte c)) b)"

fun unhex_pairs :: "string \<Rightarrow> string" where
  "unhex_pairs (a # b # s) = char_of (nat (hex_val a * 16 + hex_val b)) # unhex_pairs s"
| "unhex_pairs _ = []"

definition unhex32 :: "string \<Rightarrow> string option" where
  "unhex32 s = (if length s \<noteq> 64 \<or> \<not> list_all is_hex s then None else Some (unhex_pairs s))"

lemma hex_codes [code]:
  "is_hex c = (is_digit c \<or> 97 \<le> byte c \<and> byte c \<le> 102)"
  "hex_val c = (if is_digit c then digit_val c else byte c - 87)"
  by (auto simp: is_hex_def hex_val_def byte_def)

lemma unhex_pairs_code [code]:
  "unhex_pairs (a # b # s) = int_char (hex_val a * 16 + hex_val b) # unhex_pairs s"
  "unhex_pairs [] = []" "unhex_pairs [a] = []"
  by (simp_all add: int_char_def)

section \<open>Operations and their authorization\<close>

definition MAX_SKEW_MS :: int where "MAX_SKEW_MS = 300000"

definition check_clock :: "int \<Rightarrow> int \<Rightarrow> unit tx" where
  "check_clock now ts = ensure (\<not> MAX_SKEW_MS < \<bar>now - ts\<bar>) (Invalid ''timestamp outside allowed clock skew'')"

definition need :: "role \<Rightarrow> role \<Rightarrow> unit tx" where
  "need role least = ensure (\<not> role < least) (Transition (Forbidden role))"

record signed_op =
  o_kind :: string
  o_subject :: string
  o_arg :: string
  o_ts :: int
  o_nonce :: string
  o_actor :: string
  o_sig :: string

definition signing_bytes :: "signed_op \<Rightarrow> string" where
  "signing_bytes op =
     canonical ''op/v1'' [o_kind op, o_subject op, o_arg op, le_bytes 8 (o_ts op), o_nonce op, o_actor op]"

definition actor_hex :: "signed_op \<Rightarrow> string" where
  "actor_hex op = hex (o_actor op)"

definition identity_of :: "db \<Rightarrow> string \<Rightarrow> identity_row option" where
  "identity_of d pk = find (\<lambda>i. i_pubkey i = pk) (db_identities d)"

definition active_role :: "db \<Rightarrow> string \<Rightarrow> role tx" where
  "active_role d pk =
     (case identity_of d pk of
        None \<Rightarrow> Inl (Invalid ''unknown identity'')
      | Some i \<Rightarrow>
          if i_revoked i then Inl (Invalid ''identity revoked'')
          else ok_or (role_parse (i_role i)) (Invalid ''corrupt role in database''))"

definition is_system :: "db \<Rightarrow> string \<Rightarrow> bool" where
  "is_system d pk = (case identity_of d pk of None \<Rightarrow> False | Some i \<Rightarrow> i_system i)"

definition consume_nonce :: "int \<Rightarrow> string \<Rightarrow> string \<Rightarrow> int \<Rightarrow> db \<Rightarrow> db tx" where
  "consume_nonce now actor nonce ts d =
     (let kept = delete_where (\<lambda>n. n_ts n < sat_i64 (now - 2 * MAX_SKEW_MS)) (db_nonces d) in
      case insert_ignore (\<lambda>n. (n_actor n, n_nonce n)) \<lparr>n_actor = actor, n_nonce = nonce, n_ts = ts\<rparr> kept of
        (t, fresh) \<Rightarrow> if fresh then Inr (d \<lparr>db_nonces := t\<rparr>) else Inl (Invalid ''replayed operation''))"

definition check_envelope :: "int \<Rightarrow> signed_op \<Rightarrow> string \<Rightarrow> unit tx" where
  "check_envelope now op kind =
     bind_result (ensure (o_kind op = kind) (Invalid ''wrong operation kind'')) (\<lambda>_.
     bind_result (ensure (o_nonce op \<noteq> [] \<and> int (length (o_nonce op)) \<le> 128) (Invalid ''nonce must be 1..=128 bytes'')) (\<lambda>_.
     bind_result (ensure (int (length (o_subject op)) \<le> 256) (Invalid ''subject longer than 256 bytes'')) (\<lambda>_.
     bind_result (ensure (int (length (o_arg op)) \<le> 65536) (Invalid ''arg longer than 64 KiB'')) (\<lambda>_.
     check_clock now (o_ts op)))))"

definition verify_op :: "primitives \<Rightarrow> signed_op \<Rightarrow> unit tx" where
  "verify_op P op =
     (case verify P (o_actor op) (signing_bytes op) (o_sig op) of Inl e \<Rightarrow> Inl (Crypto e) | Inr u \<Rightarrow> Inr u)"

definition authorize :: "primitives \<Rightarrow> int \<Rightarrow> signed_op \<Rightarrow> string \<Rightarrow> db \<Rightarrow> (role \<times> db) tx" where
  "authorize P now op kind d =
     bind_result (check_envelope now op kind) (\<lambda>_.
     bind_result (verify_op P op) (\<lambda>_.
     bind_result (ensure (\<not> is_system d (o_actor op)) (Transition (Forbidden Observer))) (\<lambda>_.
     bind_result (active_role d (o_actor op)) (\<lambda>role.
     bind_result (consume_nonce now (o_actor op) (o_nonce op) (o_ts op) d) (\<lambda>d'.
     Inr (role, d'))))))"

section \<open>Identities\<close>

datatype identity_status = Unknown | Active role | Revoked

definition identity_status_of :: "db \<Rightarrow> string \<Rightarrow> identity_status tx" where
  "identity_status_of d pk =
     (case identity_of d pk of
        None \<Rightarrow> Inr Unknown
      | Some i \<Rightarrow>
          if i_revoked i then Inr Revoked
          else ok_or (map_option Active (role_parse (i_role i))) (Invalid ''corrupt role in database''))"

definition owner_exists :: "db \<Rightarrow> bool" where
  "owner_exists d = list_ex (\<lambda>i. i_role i = ''owner'' \<and> \<not> i_revoked i) (db_identities d)"

definition register_identity :: "int \<Rightarrow> string \<Rightarrow> string \<Rightarrow> db \<Rightarrow> db" where
  "register_identity now pk label d =
     d \<lparr>db_identities := fst (insert_ignore i_pubkey
       \<lparr>i_pubkey = pk, i_label = label, i_role = ''worker'', i_revoked = False, i_first_seen = now, i_system = False\<rparr>
       (db_identities d))\<rparr>"

definition bootstrap_owner :: "int \<Rightarrow> string \<Rightarrow> db \<Rightarrow> db tx" where
  "bootstrap_owner now pk d =
     (if list_ex (\<lambda>i. i_role i = ''owner'') (db_identities d) then Inl (Invalid ''an owner already exists'')
      else
        let rows = (if list_ex (\<lambda>i. i_pubkey i = pk) (db_identities d)
                    then update_where (\<lambda>i. i_pubkey i = pk) (\<lambda>i. i \<lparr>i_role := ''owner'', i_revoked := False\<rparr>) (db_identities d)
                    else db_identities d @ [\<lparr>i_pubkey = pk, i_label = ''owner'', i_role = role_as_str Owner,
                      i_revoked = False, i_first_seen = now, i_system = False\<rparr>])
        in Inr (append_event now (hex pk) ''identity.owner'' (hex pk) (JObj []) (d \<lparr>db_identities := rows\<rparr>)))"

definition role_of :: "db \<Rightarrow> string \<Rightarrow> role tx" where
  "role_of d pk = active_role d pk"

definition refuse_system_target :: "db \<Rightarrow> string \<Rightarrow> unit tx" where
  "refuse_system_target d target =
     ensure (\<not> is_system d target) (Refused ''the system identity cannot be granted roles or revoked by an agent'')"

definition is_last_owner :: "db \<Rightarrow> string \<Rightarrow> bool" where
  "is_last_owner d pk =
     (length (filter (\<lambda>i. i_role i = ''owner'' \<and> \<not> i_revoked i \<and> i_pubkey i \<noteq> pk) (db_identities d)) = 0)"

definition grant_role :: "primitives \<Rightarrow> int \<Rightarrow> signed_op \<Rightarrow> db \<Rightarrow> db tx" where
  "grant_role P now op d0 =
     bind_result (authorize P now op ''role.grant'' d0) (\<lambda>(actor_role, d).
     bind_result (need actor_role Controller) (\<lambda>_.
     bind_result (ok_or (unhex32 (o_subject op)) (Invalid ''subject must be a 64-char hex key'')) (\<lambda>target.
     bind_result (refuse_system_target d target) (\<lambda>_.
     bind_result (ok_or (role_parse (o_arg op)) (Invalid ''unknown role'')) (\<lambda>new.
     bind_result (active_role d target) (\<lambda>target_role.
     bind_result (if Controller \<le> target_role then need actor_role Owner else Inr ()) (\<lambda>_.
     bind_result (if Supervisor < new then need actor_role Owner else Inr ()) (\<lambda>_.
     bind_result (ensure (\<not> (target_role = Owner \<and> new \<noteq> Owner \<and> is_last_owner d target))
       (Invalid ''cannot remove the last owner'')) (\<lambda>_.
     Inr (append_event now (actor_hex op) ''role.granted'' (hex target) (JObj [(''role'', JStr (role_as_str new))])
       (d \<lparr>db_identities := update_where (\<lambda>i. i_pubkey i = target) (\<lambda>i. i \<lparr>i_role := role_as_str new\<rparr>)
         (db_identities d)\<rparr>)))))))))))"

text \<open>Each encrypted channel that loses a member gets a rotation row, unless it has one.\<close>

definition channels_of :: "db \<Rightarrow> string \<Rightarrow> string list" where
  "channels_of d pk = sort (map m_channel (filter (\<lambda>m. m_pubkey m = pk) (db_members d)))"

definition add_rotation :: "int \<Rightarrow> string \<Rightarrow> rotation_row list \<Rightarrow> string \<Rightarrow> rotation_row list" where
  "add_rotation now reason t channel =
     fst (insert_ignore r_channel \<lparr>r_channel = channel, r_since = now, r_reason = reason\<rparr> t)"

definition revoke_identity :: "primitives \<Rightarrow> int \<Rightarrow> signed_op \<Rightarrow> db \<Rightarrow> db tx" where
  "revoke_identity P now op d0 =
     bind_result (authorize P now op ''identity.revoke'' d0) (\<lambda>(actor_role, d).
     bind_result (need actor_role Controller) (\<lambda>_.
     bind_result (ok_or (unhex32 (o_subject op)) (Invalid ''subject must be a 64-char hex key'')) (\<lambda>target.
     bind_result (refuse_system_target d target) (\<lambda>_.
     bind_result (active_role d target) (\<lambda>target_role.
     bind_result (if Controller \<le> target_role then need actor_role Owner else Inr ()) (\<lambda>_.
     bind_result (ensure (\<not> (target_role = Owner \<and> is_last_owner d target)) (Invalid ''cannot remove the last owner'')) (\<lambda>_.
     let channels = channels_of d target;
         rotation = filter (is_encrypted d) channels
     in Inr (append_event now (actor_hex op) ''identity.revoked'' (hex target)
          (JObj [(''channels'', jint (int (length channels))), (''rotation'', JArr (map JStr rotation))])
          (d \<lparr>db_rotation := foldl (add_rotation now (''revoked '' @ hex target)) (db_rotation d) rotation,
              db_members := delete_where (\<lambda>m. m_pubkey m = target) (db_members d),
              db_identities := update_where (\<lambda>i. i_pubkey i = target) (\<lambda>i. i \<lparr>i_revoked := True\<rparr>)
                (db_identities d)\<rparr>)))))))))"

section \<open>The system identity\<close>

definition SYSTEM_KINDS :: "string list" where
  "SYSTEM_KINDS = [''job.start'', ''job.finish'', ''job.note'', ''card.job_sync'', ''timer.fire'', ''reconcile.expire'',
     ''reconcile.notice'', ''reconcile.reclaim'', ''reconcile.blocker'', ''reconcile.admission'', ''reconcile.quiet_close'',
     ''reconcile.claim_expire'']"

text \<open>The upsert of the system row: insert, or update on a conflict of the key.\<close>

definition upsert_system :: "int \<Rightarrow> string \<Rightarrow> identity_row list \<Rightarrow> identity_row list" where
  "upsert_system now pk rows =
     (if list_ex (\<lambda>i. i_pubkey i = pk) rows
      then update_where (\<lambda>i. i_pubkey i = pk)
        (\<lambda>i. i \<lparr>i_role := ''observer'', i_revoked := False, i_system := True\<rparr>) rows
      else rows @ [\<lparr>i_pubkey = pk, i_label = ''system'', i_role = ''observer'', i_revoked = False,
        i_first_seen = now, i_system = True\<rparr>])"

definition replace_system :: "int \<Rightarrow> string \<Rightarrow> identity_row list \<Rightarrow> identity_row list" where
  "replace_system now pk rows =
     upsert_system now pk (update_where (\<lambda>i. i_system i \<and> i_pubkey i \<noteq> pk) (\<lambda>i. i \<lparr>i_revoked := True\<rparr>) rows)"

definition register_system_identity :: "int \<Rightarrow> string \<Rightarrow> db \<Rightarrow> db tx" where
  "register_system_identity now pk d =
     (let write = Inr (append_event now (hex pk) ''identity.system'' (hex pk) (JObj [])
        (d \<lparr>db_identities := replace_system now pk (db_identities d)\<rparr>))
      in case identity_of d pk of
           None \<Rightarrow> write
         | Some i \<Rightarrow>
             if i_system i \<and> \<not> i_revoked i \<and> i_role i = ''observer'' then Inr d
             else if \<not> i_system i then Inl (Invalid ''the system key is already registered as a regular identity'')
             else write)"

definition is_current_system :: "db \<Rightarrow> string \<Rightarrow> bool" where
  "is_current_system d pk = list_ex (\<lambda>i. i_pubkey i = pk \<and> i_system i \<and> \<not> i_revoked i) (db_identities d)"

definition system_identity :: "db \<Rightarrow> string option" where
  "system_identity d =
     (case sort_by (\<lambda>a b. cmp (i_first_seen b) (i_first_seen a)) (filter (\<lambda>i. i_system i \<and> \<not> i_revoked i) (db_identities d)) of
        [] \<Rightarrow> None
      | i # _ \<Rightarrow> if length (i_pubkey i) = 32 then Some (i_pubkey i) else None)"

definition stored_role_or_observer :: "db \<Rightarrow> string \<Rightarrow> role tx" where
  "stored_role_or_observer d pk =
     (case identity_of d pk of
        None \<Rightarrow> Inr Observer
      | Some i \<Rightarrow> ok_or (role_parse (i_role i)) (Invalid ''corrupt role in database''))"

definition authorize_system :: "primitives \<Rightarrow> int \<Rightarrow> signed_op \<Rightarrow> string \<Rightarrow> db \<Rightarrow> db tx" where
  "authorize_system P now op kind d =
     bind_result (check_envelope now op kind) (\<lambda>_.
     bind_result (ensure (kind \<in> set SYSTEM_KINDS) (Transition (Forbidden Observer))) (\<lambda>_.
     bind_result (verify_op P op) (\<lambda>_.
     if is_current_system d (o_actor op) then consume_nonce now (o_actor op) (o_nonce op) (o_ts op) d
     else bind_result (stored_role_or_observer d (o_actor op)) (\<lambda>role. Inl (Transition (Forbidden role))))))"

section \<open>Keys as text\<close>

lemma of_char_of_nat: "0 \<le> n \<Longrightarrow> n < 256 \<Longrightarrow> of_char (char_of (nat n) :: char) = nat n"
  by (simp add: nat_less_iff)

lemma hex_digit_props:
  assumes "0 \<le> n" "n < 16"
  shows "hex_val (hex_digit n) = n" "is_hex (hex_digit n)"
proof -
  have c: "of_char (hex_digit n) = (if n < 10 then nat (48 + n) else nat (87 + n))"
    using assms of_char_of_nat [of "48 + n"] of_char_of_nat [of "87 + n"] by (simp add: hex_digit_def)
  show "hex_val (hex_digit n) = n"
    using assms by (cases "n < 10") (simp_all add: hex_val_def is_digit_def c digit_val_def nat_le_iff le_nat_iff)
  show "is_hex (hex_digit n)"
    using assms by (cases "n < 10") (simp_all add: is_hex_def is_digit_def c nat_le_iff le_nat_iff)
qed

lemma hex_val_props:
  assumes "is_hex c"
  shows "0 \<le> hex_val c" "hex_val c < 16" "hex_digit (hex_val c) = c"
proof -
  have "0 \<le> hex_val c \<and> hex_val c < 16 \<and> hex_digit (hex_val c) = c"
  proof (cases "is_digit c")
    case True
    then show ?thesis
      by (auto simp: hex_val_def is_digit_def digit_val_def hex_digit_def)
  next
    case False
    then have "97 \<le> (of_char c :: nat)" "(of_char c :: nat) \<le> 102" using assms by (simp_all add: is_hex_def)
    then show ?thesis using False by (simp add: hex_val_def hex_digit_def)
  qed
  then show "0 \<le> hex_val c" "hex_val c < 16" "hex_digit (hex_val c) = c" by simp_all
qed

lemma byte_range: "0 \<le> byte c" "byte c < 256"
proof -
  have "(of_char c :: nat) < 256" by (metis of_char_mod_256 mod_less_divisor zero_less_numeral)
  then show "0 \<le> byte c" "byte c < 256" by (simp_all add: byte_def)
qed

lemma hex_Cons: "hex (c # b) = [hex_digit (byte c div 16 mod 16), hex_digit (byte c mod 16)] @ hex b"
  by (simp add: hex_def numeral_2_eq_2)

lemma char_of_byte: "char_of (nat (byte c)) = c"
  by (simp add: byte_def)

lemma unhex_pairs_hex: "unhex_pairs (hex b) = b"
proof (induction b)
  case (Cons c b)
  have "hex_val (hex_digit (byte c div 16 mod 16)) = byte c div 16 mod 16" "hex_val (hex_digit (byte c mod 16)) = byte c mod 16"
    by (intro hex_digit_props; simp)+
  moreover have "byte c div 16 mod 16 = byte c div 16" using byte_range [of c] by (intro mod_pos_pos_trivial) simp_all
  ultimately show ?case using Cons char_of_byte by (simp add: hex_Cons)
qed (simp add: hex_def)

lemma hex_chars: "list_all is_hex (hex b) \<and> length (hex b) = 2 * length b"
proof (induction b)
  case (Cons c b)
  have "is_hex (hex_digit (byte c div 16 mod 16))" "is_hex (hex_digit (byte c mod 16))"
    by (intro hex_digit_props; simp)+
  then show ?case using Cons by (simp add: hex_Cons)
qed (simp add: hex_def)

lemma hex_unhex_pairs: "even (length s) \<Longrightarrow> list_all is_hex s \<Longrightarrow> hex (unhex_pairs s) = s \<and> 2 * length (unhex_pairs s) = length s"
proof (induction s rule: unhex_pairs.induct)
  case (1 a b s)
  let ?n = "hex_val a * 16 + hex_val b"
  have a: "0 \<le> hex_val a" "hex_val a < 16" "hex_digit (hex_val a) = a" and b: "0 \<le> hex_val b" "hex_val b < 16" "hex_digit (hex_val b) = b"
    using 1 hex_val_props by simp_all
  have "byte (char_of (nat ?n)) = ?n" unfolding byte_def using a b by (subst of_char_of_nat) simp_all
  moreover have "?n div 16 = hex_val a" "?n mod 16 = hex_val b" using a b by simp_all
  ultimately have "hex (char_of (nat ?n) # unhex_pairs s) = a # b # hex (unhex_pairs s)" using a b by (simp add: hex_Cons)
  then show ?case using 1 by simp
qed (simp_all add: hex_def)

lemma hex_inj [simp]: "hex a = hex b \<longleftrightarrow> a = b"
  by (metis unhex_pairs_hex)

lemma unhex32_iff_hex: "unhex32 s = Some k \<longleftrightarrow> length k = 32 \<and> s = hex k"
proof
  assume u: "unhex32 s = Some k"
  then have s: "length s = 64" "list_all is_hex s" "k = unhex_pairs s" by (auto simp: unhex32_def split: if_splits)
  then show "length k = 32 \<and> s = hex k" using hex_unhex_pairs [of s] by simp
next
  assume "length k = 32 \<and> s = hex k"
  then show "unhex32 s = Some k" using hex_chars [of k] unhex_pairs_hex [of k] by (simp add: unhex32_def)
qed


section \<open>What authorization establishes\<close>

definition nonce_row_of :: "signed_op \<Rightarrow> nonce_row" where
  "nonce_row_of op = \<lparr>n_actor = o_actor op, n_nonce = o_nonce op, n_ts = o_ts op\<rparr>"

text \<open>The nonces that survive the garbage collection of time \<open>now\<close>.\<close>

definition live_nonces :: "int \<Rightarrow> db \<Rightarrow> nonce_row list" where
  "live_nonces now d = delete_where (\<lambda>n. n_ts n < sat_i64 (now - 2 * MAX_SKEW_MS)) (db_nonces d)"

lemma consume_nonce_Inr:
  "consume_nonce now a n ts d = Inr d' \<longleftrightarrow>
     (a, n) \<notin> (\<lambda>r. (n_actor r, n_nonce r)) ` set (live_nonces now d)
     \<and> d' = d \<lparr>db_nonces := live_nonces now d @ [\<lparr>n_actor = a, n_nonce = n, n_ts = ts\<rparr>]\<rparr>"
  by (auto simp: consume_nonce_def Let_def insert_ignore_def live_nonces_def)

lemma authorize_Inr [tx_simps]:
  "authorize P now op kind d = Inr (role, d') \<longleftrightarrow>
     check_envelope now op kind = Inr () \<and> verify_op P op = Inr () \<and> \<not> is_system d (o_actor op)
     \<and> active_role d (o_actor op) = Inr role \<and> consume_nonce now (o_actor op) (o_nonce op) (o_ts op) d = Inr d'"
  by (auto simp: authorize_def tx_simps)

lemma check_envelope_Inr:
  "check_envelope now op kind = Inr () \<longleftrightarrow>
     o_kind op = kind \<and> o_nonce op \<noteq> [] \<and> length (o_nonce op) \<le> 128 \<and> length (o_subject op) \<le> 256
     \<and> length (o_arg op) \<le> 65536 \<and> \<bar>now - o_ts op\<bar> \<le> MAX_SKEW_MS"
  by (auto simp: check_envelope_def check_clock_def tx_simps)

lemma need_Inr [tx_simps]: "need role least = Inr u \<longleftrightarrow> least \<le> role"
  by (auto simp: need_def tx_simps)

lemma consume_nonce_frame:
  "consume_nonce now a n ts d = Inr d' \<Longrightarrow> \<exists>ns. d' = d \<lparr>db_nonces := ns\<rparr>"
  by (auto simp: consume_nonce_Inr)

lemma authorize_frame: "authorize P now op kind d = Inr (role, d') \<Longrightarrow> \<exists>ns. d' = d \<lparr>db_nonces := ns\<rparr>"
  using consume_nonce_frame by (auto simp: authorize_Inr)

lemma live_nonces_iff:
  assumes "in_i64 (n_ts n)" "now - 2 * MAX_SKEW_MS \<le> n_ts n"
  shows "n \<in> set (live_nonces now d) \<longleftrightarrow> n \<in> set (db_nonces d)"
  using assms by (auto simp: live_nonces_def sat_i64_def in_i64_def)

section \<open>The contract of a signed operation\<close>

locale signed_operation =
  fixes P :: primitives and kind :: string
    and run :: "int \<Rightarrow> signed_op \<Rightarrow> db \<Rightarrow> 'b tx"
    and post :: "'b \<Rightarrow> db"
  assumes authorized: "run now op d = Inr r \<Longrightarrow>
    \<exists>role da. authorize P now op kind d = Inr (role, da) \<and> db_nonces (post r) = db_nonces da"
begin

text \<open>An accepted operation came in a valid envelope, signed by an active agent.\<close>

lemma accepted:
  assumes "run now op d = Inr r"
  shows "o_kind op = kind" "\<bar>now - o_ts op\<bar> \<le> MAX_SKEW_MS" "verify_op P op = Inr ()"
    "\<not> is_system d (o_actor op)" "\<exists>role. active_role d (o_actor op) = Inr role"
  using authorized [OF assms] by (auto simp: authorize_Inr check_envelope_Inr)

lemma records_nonce: "run now op d = Inr r \<Longrightarrow> nonce_row_of op \<in> set (db_nonces (post r))"
  using authorized by (fastforce simp: authorize_Inr consume_nonce_Inr nonce_row_of_def)

text \<open>A nonce on file is not accepted again, with the same timestamp.\<close>

lemma refuses_used:
  assumes used: "nonce_row_of op \<in> set (db_nonces d)" and ts: "in_i64 (o_ts op)"
  shows "\<exists>e. run now op d = Inl e"
proof (cases "run now op d")
  case (Inr r)
  obtain role da where a: "authorize P now op kind d = Inr (role, da)" using authorized [OF Inr] by blast
  then have "now - 2 * MAX_SKEW_MS \<le> n_ts (nonce_row_of op)"
    by (auto simp: authorize_Inr check_envelope_Inr nonce_row_of_def MAX_SKEW_MS_def)
  then have "nonce_row_of op \<in> set (live_nonces now d)" using used ts live_nonces_iff [of "nonce_row_of op"]
    by (simp add: nonce_row_of_def)
  then have False using a by (force simp: authorize_Inr consume_nonce_Inr nonce_row_of_def)
  then show ?thesis ..
qed blast

text \<open>The nonces of other operations stay on file until they are too old for any clock check.\<close>

lemma keeps_nonces:
  assumes "run now op d = Inr r" "n \<in> set (db_nonces d)" "in_i64 (n_ts n)" "now - 2 * MAX_SKEW_MS \<le> n_ts n"
  shows "n \<in> set (db_nonces (post r))"
proof -
  obtain role da where "authorize P now op kind d = Inr (role, da)" "db_nonces (post r) = db_nonces da"
    using authorized [OF assms(1)] by blast
  then show ?thesis using live_nonces_iff assms by (auto simp: authorize_Inr consume_nonce_Inr)
qed

end


section \<open>The identities table\<close>

text \<open>
  One row per key, every stored role is a role, a system identity is an observer, and at most one system identity
  is active.
\<close>

definition row_ok :: "identity_row \<Rightarrow> bool" where
  "row_ok i = ((\<exists>r. i_role i = role_as_str r) \<and> (i_system i \<longrightarrow> i_role i = role_as_str Observer))"

definition one_system :: "identity_row set \<Rightarrow> bool" where
  "one_system S =
     (\<forall>i \<in> S. \<forall>j \<in> S. i_system i \<and> \<not> i_revoked i \<and> i_system j \<and> \<not> i_revoked j \<longrightarrow> i_pubkey i = i_pubkey j)"

definition identities_ok :: "db \<Rightarrow> bool" where
  "identities_ok d =
     (distinct (map i_pubkey (db_identities d)) \<and> (\<forall>i \<in> set (db_identities d). row_ok i)
      \<and> one_system (set (db_identities d)))"

lemma one_systemD:
  "one_system S \<Longrightarrow> i \<in> S \<Longrightarrow> j \<in> S \<Longrightarrow> i_system i \<Longrightarrow> \<not> i_revoked i \<Longrightarrow> i_system j \<Longrightarrow> \<not> i_revoked j \<Longrightarrow>
     i_pubkey i = i_pubkey j"
  unfolding one_system_def by blast

lemma one_system_insert:
  assumes "one_system S" "i_system r \<longrightarrow> (\<forall>i \<in> S. \<not> (i_system i \<and> \<not> i_revoked i))"
  shows "one_system (insert r S)"
  unfolding one_system_def
proof (intro ballI impI)
  fix i j assume "i \<in> insert r S" "j \<in> insert r S" "i_system i \<and> \<not> i_revoked i \<and> i_system j \<and> \<not> i_revoked j"
  then show "i_pubkey i = i_pubkey j" using assms(2) one_systemD [OF assms(1), of i j] by blast
qed

lemma one_system_image:
  assumes "one_system S" "\<And>i. i \<in> S \<Longrightarrow> i_pubkey (g i) = i_pubkey i"
    and "\<And>i. i \<in> S \<Longrightarrow> i_system (g i) \<Longrightarrow> \<not> i_revoked (g i) \<Longrightarrow> i_system i \<and> \<not> i_revoked i"
  shows "one_system (g ` S)"
  unfolding one_system_def
proof (intro ballI impI)
  fix a b assume "a \<in> g ` S" "b \<in> g ` S" and act: "i_system a \<and> \<not> i_revoked a \<and> i_system b \<and> \<not> i_revoked b"
  then obtain i j where ij: "i \<in> S" "a = g i" "j \<in> S" "b = g j" by blast
  then have "i_pubkey i = i_pubkey j" using act assms(3) [of i] assms(3) [of j] by (intro one_systemD [OF assms(1)]) auto
  then show "i_pubkey a = i_pubkey b" using ij assms(2) by simp
qed

text \<open>An active agent with the owner role.\<close>

definition agent_owner :: "db \<Rightarrow> bool" where
  "agent_owner d = (\<exists>i \<in> set (db_identities d). i_role i = role_as_str Owner \<and> \<not> i_revoked i \<and> \<not> i_system i)"

lemma identity_of_Some:
  assumes "identities_ok d"
  shows "identity_of d pk = Some i \<longleftrightarrow> i \<in> set (db_identities d) \<and> i_pubkey i = pk"
  using find_key_Some [of i_pubkey "db_identities d" pk i] assms by (simp add: identity_of_def identities_ok_def)

lemma same_row:
  assumes "identities_ok d" "i \<in> set (db_identities d)" "j \<in> set (db_identities d)" "i_pubkey i = i_pubkey j"
  shows "i = j"
  using assms inj_onD [of i_pubkey "set (db_identities d)" i j] by (simp add: identities_ok_def distinct_map)

lemma active_role_Inr:
  assumes "identities_ok d"
  shows "active_role d pk = Inr r \<longleftrightarrow>
    (\<exists>i \<in> set (db_identities d). i_pubkey i = pk \<and> \<not> i_revoked i \<and> i_role i = role_as_str r)"
proof
  assume a: "active_role d pk = Inr r"
  then obtain i where i: "identity_of d pk = Some i" by (cases "identity_of d pk") (auto simp: active_role_def)
  then have "\<not> i_revoked i \<and> i_role i = role_as_str r"
    using a by (auto simp: active_role_def ok_or_Inr role_parse_Some_iff split: if_splits)
  then show "\<exists>i \<in> set (db_identities d). i_pubkey i = pk \<and> \<not> i_revoked i \<and> i_role i = role_as_str r"
    using i identity_of_Some [OF assms] by blast
next
  assume "\<exists>i \<in> set (db_identities d). i_pubkey i = pk \<and> \<not> i_revoked i \<and> i_role i = role_as_str r"
  then obtain i where i: "identity_of d pk = Some i" "\<not> i_revoked i" "i_role i = role_as_str r"
    using identity_of_Some [OF assms] by blast
  then show "active_role d pk = Inr r" by (simp add: active_role_def ok_or_def)
qed

lemma is_system_iff:
  assumes "identities_ok d"
  shows "is_system d pk \<longleftrightarrow> (\<exists>i \<in> set (db_identities d). i_pubkey i = pk \<and> i_system i)"
proof (cases "identity_of d pk")
  case None
  then have "\<not> is_system d pk" "\<forall>i \<in> set (db_identities d). i_pubkey i \<noteq> pk"
    by (simp_all add: is_system_def) (simp add: identity_of_def find_None_iff)
  then show ?thesis by blast
next
  case (Some i)
  then have "i \<in> set (db_identities d)" "i_pubkey i = pk" using identity_of_Some [OF assms] by auto
  then show ?thesis using Some same_row [OF assms] by (auto simp: is_system_def)
qed

lemma role_text: "''owner'' = role_as_str Owner" "''worker'' = role_as_str Worker" "''observer'' = role_as_str Observer"
  by (simp_all add: role_as_str_def)

lemma identities_ok_add:
  assumes "identities_ok d" "i_pubkey r \<notin> i_pubkey ` set (db_identities d)" "row_ok r"
    and "i_system r \<longrightarrow> (\<forall>i \<in> set (db_identities d). \<not> (i_system i \<and> \<not> i_revoked i))"
  shows "identities_ok (d \<lparr>db_identities := db_identities d @ [r]\<rparr>)"
  using assms one_system_insert by (simp add: identities_ok_def)

text \<open>Changing rows in place keeps the keys.\<close>

lemma identities_ok_update:
  assumes ok: "identities_ok d" and keys: "\<And>i. i_pubkey (f i) = i_pubkey i"
    and rows: "\<And>i. i \<in> set (db_identities d) \<Longrightarrow> p i \<Longrightarrow> row_ok (f i)"
    and sys: "\<And>i. i \<in> set (db_identities d) \<Longrightarrow> p i \<Longrightarrow> i_system (f i) \<Longrightarrow> \<not> i_revoked (f i) \<Longrightarrow>
      i_system i \<and> \<not> i_revoked i"
  shows "identities_ok (d \<lparr>db_identities := update_where p f (db_identities d)\<rparr>)"
proof -
  let ?g = "\<lambda>i. if p i then f i else i" and ?S = "set (db_identities d)"
  have "one_system (?g ` ?S)"
    by (rule one_system_image) (use ok keys sys in \<open>auto simp: identities_ok_def split: if_splits\<close>)
  moreover have "\<forall>i \<in> ?g ` ?S. row_ok i" using rows ok unfolding identities_ok_def by auto
  moreover have "map i_pubkey (update_where p f (db_identities d)) = map i_pubkey (db_identities d)"
    using keys by (rule map_update_where)
  moreover have e: "db_identities (d \<lparr>db_identities := rows\<rparr>) = rows" for rows by simp
  ultimately show ?thesis using ok by (simp only: identities_ok_def e set_update_where simp_thms)
qed

lemma register_identity_ok:
  assumes ok: "identities_ok d"
  shows "identities_ok (register_identity now pk label d)" "agent_owner d \<Longrightarrow> agent_owner (register_identity now pk label d)"
proof -
  let ?r = "\<lparr>i_pubkey = pk, i_label = label, i_role = ''worker'', i_revoked = False, i_first_seen = now, i_system = False\<rparr>"
  have "row_ok ?r" by (auto simp: row_ok_def role_text)
  then show "identities_ok (register_identity now pk label d)"
    using ok identities_ok_add [OF ok, of ?r] by (auto simp: register_identity_def insert_ignore_def)
  show "agent_owner (register_identity now pk label d)" if "agent_owner d"
    using that by (auto simp: agent_owner_def register_identity_def insert_ignore_def)
qed

lemma identities_ok_append [simp]: "identities_ok (append_event now a k s j d) = identities_ok d"
  by (simp add: identities_ok_def)

lemma agent_owner_append [simp]: "agent_owner (append_event now a k s j d) = agent_owner d"
  by (simp add: agent_owner_def)

lemma identities_ok_nonces [simp]: "identities_ok (d \<lparr>db_nonces := ns\<rparr>) = identities_ok d"
  by (simp add: identities_ok_def)

lemma agent_owner_nonces [simp]: "agent_owner (d \<lparr>db_nonces := ns\<rparr>) = agent_owner d"
  by (simp add: agent_owner_def)

lemma bootstrap_owner_ok:
  assumes ok: "identities_ok d" and b: "bootstrap_owner now pk d = Inr d'" and agent: "\<not> is_system d pk"
  shows "identities_ok d'" "agent_owner d'" "\<not> agent_owner d"
proof -
  let ?f = "\<lambda>i. i \<lparr>i_role := ''owner'', i_revoked := False\<rparr>"
  let ?r = "\<lparr>i_pubkey = pk, i_label = ''owner'', i_role = role_as_str Owner, i_revoked = False, i_first_seen = now, i_system = False\<rparr>"
  let ?rows = "if list_ex (\<lambda>i. i_pubkey i = pk) (db_identities d)
    then update_where (\<lambda>i. i_pubkey i = pk) ?f (db_identities d) else db_identities d @ [?r]"
  have none: "\<forall>i \<in> set (db_identities d). i_role i \<noteq> ''owner''"
    and d': "d' = append_event now (hex pk) ''identity.owner'' (hex pk) (JObj []) (d \<lparr>db_identities := ?rows\<rparr>)"
    using b by (auto simp: bootstrap_owner_def list_ex_iff Let_def split: if_splits)
  then show "\<not> agent_owner d" by (auto simp: agent_owner_def role_text)
  have ns: "\<not> i_system i" if "i \<in> set (db_identities d)" "i_pubkey i = pk" for i
    using agent is_system_iff [OF ok] that by blast
  have "identities_ok (d \<lparr>db_identities := ?rows\<rparr>) \<and> agent_owner (d \<lparr>db_identities := ?rows\<rparr>)"
  proof (cases "list_ex (\<lambda>i. i_pubkey i = pk) (db_identities d)")
    case True
    then obtain i where i: "i \<in> set (db_identities d)" "i_pubkey i = pk" by (auto simp: list_ex_iff)
    have "identities_ok (d \<lparr>db_identities := update_where (\<lambda>i. i_pubkey i = pk) ?f (db_identities d)\<rparr>)"
      by (rule identities_ok_update [OF ok]) (use ns in \<open>auto simp: row_ok_def role_text\<close>)
    moreover have "agent_owner (d \<lparr>db_identities := update_where (\<lambda>i. i_pubkey i = pk) ?f (db_identities d)\<rparr>)"
      unfolding agent_owner_def by (rule bexI [of _ "?f i"]) (use ns i in \<open>auto simp: set_update_where role_text\<close>)
    ultimately show ?thesis using True by simp
  next
    case False
    have "row_ok ?r" by (auto simp: row_ok_def)
    then show ?thesis using False identities_ok_add [OF ok, of ?r] by (auto simp: agent_owner_def list_ex_iff)
  qed
  then show "identities_ok d'" "agent_owner d'" unfolding d' by simp_all
qed


lemma identities_okI:
  assumes "distinct (map i_pubkey rows)" "\<forall>i \<in> set rows. row_ok i"
    and "\<forall>i \<in> set rows. i_system i \<and> \<not> i_revoked i \<longrightarrow> i_pubkey i = pk"
  shows "identities_ok (d \<lparr>db_identities := rows\<rparr>)"
  using assms by (simp add: identities_ok_def) (simp add: one_system_def)

lemma replace_system_props:
  assumes d: "distinct (map i_pubkey rows)" and ok: "\<forall>i \<in> set rows. row_ok i"
  shows "distinct (map i_pubkey (replace_system now pk rows))" "\<forall>i \<in> set (replace_system now pk rows). row_ok i"
    "\<forall>i \<in> set (replace_system now pk rows). i_system i \<and> \<not> i_revoked i \<longrightarrow> i_pubkey i = pk"
    "\<exists>i \<in> set (replace_system now pk rows). i_pubkey i = pk \<and> i_system i \<and> \<not> i_revoked i"
    "\<And>i. i \<in> set rows \<Longrightarrow> \<not> i_system i \<Longrightarrow> i_pubkey i \<noteq> pk \<Longrightarrow> i \<in> set (replace_system now pk rows)"
proof -
  let ?h = "\<lambda>i. i \<lparr>i_role := ''observer'', i_revoked := False, i_system := True\<rparr>"
  let ?new = "\<lparr>i_pubkey = pk, i_label = ''system'', i_role = ''observer'', i_revoked = False, i_first_seen = now, i_system = True\<rparr>"
  define rs where "rs = update_where (\<lambda>i. i_system i \<and> i_pubkey i \<noteq> pk) (\<lambda>i. i \<lparr>i_revoked := True\<rparr>) rows"
  have rs: "replace_system now pk rows = upsert_system now pk rs" by (simp add: replace_system_def rs_def)
  have keys: "map i_pubkey rs = map i_pubkey rows" unfolding rs_def by (rule map_update_where) simp
  have old: "row_ok i \<and> (i_system i \<and> \<not> i_revoked i \<longrightarrow> i_pubkey i = pk)" if "i \<in> set rs" for i
    using that ok by (auto simp: rs_def set_update_where row_ok_def split: if_splits)
  have keep: "i \<in> set rs" if "i \<in> set rows" "\<not> i_system i" for i
    using that by (auto simp: rs_def set_update_where image_iff intro!: bexI [of _ i])
  have "distinct (map i_pubkey (upsert_system now pk rs)) \<and> (\<forall>i \<in> set (upsert_system now pk rs).
      row_ok i \<and> (i_system i \<and> \<not> i_revoked i \<longrightarrow> i_pubkey i = pk))
    \<and> (\<exists>i \<in> set (upsert_system now pk rs). i_pubkey i = pk \<and> i_system i \<and> \<not> i_revoked i)
    \<and> (\<forall>i \<in> set rs. i_pubkey i \<noteq> pk \<longrightarrow> i \<in> set (upsert_system now pk rs))"
  proof (cases "list_ex (\<lambda>i. i_pubkey i = pk) rs")
    case True
    then obtain i where i: "i \<in> set rs" "i_pubkey i = pk" by (auto simp: list_ex_iff)
    have e: "upsert_system now pk rs = update_where (\<lambda>i. i_pubkey i = pk) ?h rs" using True by (simp add: upsert_system_def)
    have "map i_pubkey (update_where (\<lambda>i. i_pubkey i = pk) ?h rs) = map i_pubkey rs" by (rule map_update_where) simp
    moreover have "\<forall>i \<in> set (update_where (\<lambda>i. i_pubkey i = pk) ?h rs). row_ok i \<and> (i_system i \<and> \<not> i_revoked i \<longrightarrow> i_pubkey i = pk)"
      using old by (auto simp: set_update_where row_ok_def role_text)
    moreover have "?h i \<in> set (update_where (\<lambda>i. i_pubkey i = pk) ?h rs)" using i by (auto simp: set_update_where)
    then have "\<exists>i \<in> set (update_where (\<lambda>i. i_pubkey i = pk) ?h rs). i_pubkey i = pk \<and> i_system i \<and> \<not> i_revoked i"
      by (rule bexI [rotated]) (simp add: i)
    moreover have "\<forall>i \<in> set rs. i_pubkey i \<noteq> pk \<longrightarrow> i \<in> set (update_where (\<lambda>i. i_pubkey i = pk) ?h rs)"
      by (auto simp: set_update_where)
    ultimately show ?thesis unfolding e using d keys by simp
  next
    case False
    then have "upsert_system now pk rs = rs @ [?new]" "pk \<notin> set (map i_pubkey rs)"
      by (auto simp: upsert_system_def list_ex_iff)
    moreover have "row_ok ?new" by (auto simp: row_ok_def role_text)
    ultimately show ?thesis using old d keys by simp
  qed
  note this [folded rs] then show "distinct (map i_pubkey (replace_system now pk rows))" "\<forall>i \<in> set (replace_system now pk rows). row_ok i"
    "\<forall>i \<in> set (replace_system now pk rows). i_system i \<and> \<not> i_revoked i \<longrightarrow> i_pubkey i = pk"
    "\<exists>i \<in> set (replace_system now pk rows). i_pubkey i = pk \<and> i_system i \<and> \<not> i_revoked i"
    "\<And>i. i \<in> set rows \<Longrightarrow> \<not> i_system i \<Longrightarrow> i_pubkey i \<noteq> pk \<Longrightarrow> i \<in> set (replace_system now pk rows)"
    using keep by blast+
qed

lemma register_system_ok:
  assumes ok: "identities_ok d" and r: "register_system_identity now pk d = Inr d'"
  shows "identities_ok d' \<and> (agent_owner d \<longrightarrow> agent_owner d') \<and> is_current_system d' pk"
proof (cases "\<exists>i. identity_of d pk = Some i \<and> i_system i \<and> \<not> i_revoked i \<and> i_role i = ''observer''")
  case True
  then obtain i where i: "i \<in> set (db_identities d)" "i_pubkey i = pk" "i_system i" "\<not> i_revoked i"
    using identity_of_Some [OF ok] by blast
  moreover have "d' = d" using r True by (auto simp: register_system_identity_def)
  ultimately show ?thesis using ok by (auto simp: is_current_system_def list_ex_iff)
next
  case False
  have sys: "i_system i" if "i \<in> set (db_identities d)" "i_pubkey i = pk" for i
    using that r False identity_of_Some [OF ok, of pk i] by (auto simp: register_system_identity_def split: if_splits)
  have d': "db_identities d' = replace_system now pk (db_identities d)"
    using r False by (auto simp: register_system_identity_def Let_def split: option.splits if_splits)
  have "distinct (map i_pubkey (db_identities d))" "\<forall>i \<in> set (db_identities d). row_ok i" using ok by (simp_all add: identities_ok_def)
  note R = replace_system_props [OF this, where now = now and pk = pk]
  have "identities_ok d'" unfolding identities_ok_def d' one_system_def using R(1-3) by simp
  moreover have "agent_owner d'" if "agent_owner d"
    using that R(5) sys unfolding agent_owner_def d' by blast
  moreover have "is_current_system d' pk" unfolding is_current_system_def d' list_ex_iff using R(4) by blast
  ultimately show ?thesis by blast
qed


text \<open>What a successful grant or revocation has checked.\<close>

lemma need_if_Inr [tx_simps]: "(if c then need r m else Inr ()) = Inr u \<longleftrightarrow> (c \<longrightarrow> m \<le> r)"
  by (simp add: need_Inr)

lemma authorize_identities: "authorize P now op kind d = Inr (role, da) \<Longrightarrow> db_identities da = db_identities d"
  using authorize_frame by fastforce

lemma active_role_cong: "db_identities d = db_identities d' \<Longrightarrow> active_role d pk = active_role d' pk"
  by (simp add: active_role_def identity_of_def)

lemma is_system_cong: "db_identities d = db_identities d' \<Longrightarrow> is_system d pk = is_system d' pk"
  by (simp add: is_system_def identity_of_def)

lemma is_last_owner_cong: "db_identities d = db_identities d' \<Longrightarrow> is_last_owner d pk = is_last_owner d' pk"
  by (simp add: is_last_owner_def)

lemma grant_role_Inr:
  assumes "grant_role P now op d = Inr d'"
  obtains actor_role target new target_role da where
    "authorize P now op ''role.grant'' d = Inr (actor_role, da)" "unhex32 (o_subject op) = Some target"
    "role_parse (o_arg op) = Some new" "active_role d target = Inr target_role" "Controller \<le> actor_role"
    "\<not> is_system d target" "Controller \<le> target_role \<longrightarrow> actor_role = Owner" "Supervisor < new \<longrightarrow> actor_role = Owner"
    "target_role = Owner \<and> new \<noteq> Owner \<longrightarrow> \<not> is_last_owner d target"
    "db_nonces d' = db_nonces da"
    "db_identities d' = update_where (\<lambda>i. i_pubkey i = target) (\<lambda>i. i \<lparr>i_role := role_as_str new\<rparr>) (db_identities d)"
proof -
  obtain actor_role da where a: "authorize P now op ''role.grant'' d = Inr (actor_role, da)"
    using assms by (auto simp: grant_role_def bind_result_Inr_iff)
  note e = authorize_identities [OF a]
  note c = active_role_cong [OF e] is_system_cong [OF e] is_last_owner_cong [OF e]
  obtain target new target_role where t: "unhex32 (o_subject op) = Some target" "role_parse (o_arg op) = Some new"
    "active_role da target = Inr target_role" "Controller \<le> actor_role" "\<not> is_system da target"
    "Controller \<le> target_role \<longrightarrow> Owner \<le> actor_role" "Supervisor < new \<longrightarrow> Owner \<le> actor_role"
    "target_role = Owner \<and> new \<noteq> Owner \<longrightarrow> \<not> is_last_owner da target"
    "d' = append_event now (actor_hex op) ''role.granted'' (hex target) (JObj [(''role'', JStr (role_as_str new))])
       (da \<lparr>db_identities := update_where (\<lambda>i. i_pubkey i = target) (\<lambda>i. i \<lparr>i_role := role_as_str new\<rparr>) (db_identities da)\<rparr>)"
    using assms unfolding grant_role_def a
    by (simp only: bind_result_simps prod.case bind_result_Inr_iff need_if_Inr need_Inr ok_or_Inr ensure_Inr
        refuse_system_target_def ex_simps) auto
  show thesis
    by (rule that [OF a t(1,2) _ t(4)]) (use t c e in \<open>auto simp: order_antisym_conv\<close>)
qed


lemma identities_ok_set: "identities_ok d' = identities_ok d" if "db_identities d' = db_identities d"
  using that by (simp add: identities_ok_def)

lemma not_last_owner:
  assumes "identities_ok d" "\<not> is_last_owner d pk"
  obtains j where "j \<in> set (db_identities d)" "i_role j = role_as_str Owner" "\<not> i_revoked j" "\<not> i_system j" "i_pubkey j \<noteq> pk"
proof -
  obtain j where j: "j \<in> set (db_identities d)" "i_role j = role_as_str Owner" "\<not> i_revoked j" "i_pubkey j \<noteq> pk"
    using assms(2) by (auto simp: is_last_owner_def filter_empty_conv role_text)
  then have "\<not> i_system j" using assms(1) by (auto simp: identities_ok_def row_ok_def)
  then show thesis using that j by blast
qed

text \<open>The agents that keep their row, and the owner among them, after a change of the row of \<open>target\<close>.\<close>

lemma agent_owner_update:
  assumes "j \<in> set (db_identities d)" "i_role j = role_as_str Owner" "\<not> i_revoked j" "\<not> i_system j" "i_pubkey j \<noteq> target"
    and "db_identities d' = update_where (\<lambda>i. i_pubkey i = target) f (db_identities d)"
  shows "agent_owner d'"
  unfolding agent_owner_def assms(6) by (rule bexI [of _ j]) (use assms in \<open>auto simp: set_update_where image_iff intro!: bexI [of _ j]\<close>)

lemma grant_role_ok:
  assumes ok: "identities_ok d" and g: "grant_role P now op d = Inr d'"
  shows "identities_ok d'" "agent_owner d \<Longrightarrow> agent_owner d'"
proof -
  obtain actor_role target new target_role da where
    t: "active_role d target = Inr target_role" "\<not> is_system d target"
      "target_role = Owner \<and> new \<noteq> Owner \<longrightarrow> \<not> is_last_owner d target"
    and rows: "db_identities d' = update_where (\<lambda>i. i_pubkey i = target) (\<lambda>i. i \<lparr>i_role := role_as_str new\<rparr>) (db_identities d)"
    using g by (rule grant_role_Inr)
  have ns: "\<not> i_system i" if "i \<in> set (db_identities d)" "i_pubkey i = target" for i
    using t(2) is_system_iff [OF ok] that by blast
  have "identities_ok (d \<lparr>db_identities := db_identities d'\<rparr>)"
    unfolding rows by (rule identities_ok_update [OF ok]) (use ns in \<open>auto simp: row_ok_def\<close>)
  then show "identities_ok d'" using identities_ok_set [of d' "d \<lparr>db_identities := db_identities d'\<rparr>"] by simp
  show "agent_owner d'" if own: "agent_owner d"
  proof -
    obtain j where j: "j \<in> set (db_identities d)" "i_role j = role_as_str Owner" "\<not> i_revoked j" "\<not> i_system j"
      using own by (auto simp: agent_owner_def)
    consider "i_pubkey j \<noteq> target" | "i_pubkey j = target" "new = Owner" | "i_pubkey j = target" "new \<noteq> Owner" by blast
    then show ?thesis
    proof cases
      case 1 then show ?thesis using agent_owner_update [OF j _ rows] by blast
    next
      case 2
      then show ?thesis unfolding agent_owner_def rows
        by (intro bexI [of _ "j \<lparr>i_role := role_as_str new\<rparr>"]) (use j in \<open>auto simp: set_update_where\<close>)
    next
      case 3
      then have "target_role = Owner" using t(1) active_role_Inr [OF ok] same_row [OF ok] j role_as_str_inj by metis
      then obtain k where "k \<in> set (db_identities d)" "i_role k = role_as_str Owner" "\<not> i_revoked k" "\<not> i_system k" "i_pubkey k \<noteq> target"
        using not_last_owner [OF ok] t(3) 3 by blast
      then show ?thesis using agent_owner_update [OF _ _ _ _ _ rows] by blast
    qed
  qed
qed

lemma revoke_identity_Inr:
  assumes "revoke_identity P now op d = Inr d'"
  obtains actor_role target target_role da where
    "authorize P now op ''identity.revoke'' d = Inr (actor_role, da)" "unhex32 (o_subject op) = Some target"
    "active_role d target = Inr target_role" "Controller \<le> actor_role" "\<not> is_system d target"
    "Controller \<le> target_role \<longrightarrow> actor_role = Owner" "target_role = Owner \<longrightarrow> \<not> is_last_owner d target"
    "db_nonces d' = db_nonces da"
    "db_identities d' = update_where (\<lambda>i. i_pubkey i = target) (\<lambda>i. i \<lparr>i_revoked := True\<rparr>) (db_identities d)"
    "db_members d' = delete_where (\<lambda>m. m_pubkey m = target) (db_members d)"
    "db_rotation d' = foldl (add_rotation now (''revoked '' @ hex target)) (db_rotation d)
       (filter (is_encrypted d) (channels_of d target))"
    "db_channels d' = db_channels d" "db_keys d' = db_keys d"
proof -
  obtain actor_role da where a: "authorize P now op ''identity.revoke'' d = Inr (actor_role, da)"
    using assms by (auto simp: revoke_identity_def bind_result_Inr_iff)
  obtain ns where da: "da = d \<lparr>db_nonces := ns\<rparr>" using authorize_frame [OF a] by blast
  note e = authorize_identities [OF a]
  note c = active_role_cong [OF e] is_system_cong [OF e] is_last_owner_cong [OF e]
  obtain target target_role where t: "unhex32 (o_subject op) = Some target"
    "active_role da target = Inr target_role" "Controller \<le> actor_role" "\<not> is_system da target"
    "Controller \<le> target_role \<longrightarrow> Owner \<le> actor_role" "target_role = Owner \<longrightarrow> \<not> is_last_owner da target"
    "d' = append_event now (actor_hex op) ''identity.revoked'' (hex target)
          (JObj [(''channels'', jint (int (length (channels_of da target)))),
            (''rotation'', JArr (map JStr (filter (is_encrypted da) (channels_of da target))))])
          (da \<lparr>db_rotation := foldl (add_rotation now (''revoked '' @ hex target)) (db_rotation da)
                (filter (is_encrypted da) (channels_of da target)),
              db_members := delete_where (\<lambda>m. m_pubkey m = target) (db_members da),
              db_identities := update_where (\<lambda>i. i_pubkey i = target) (\<lambda>i. i \<lparr>i_revoked := True\<rparr>) (db_identities da)\<rparr>)"
    using assms unfolding revoke_identity_def a Let_def
    by (simp only: bind_result_simps prod.case bind_result_Inr_iff need_if_Inr need_Inr ok_or_Inr ensure_Inr
        refuse_system_target_def ex_simps) auto
  have enc: "is_encrypted da = is_encrypted d" "channels_of da target = channels_of d target"
    by (auto simp: da is_encrypted_def channels_of_def fun_eq_iff)
  show thesis
    by (rule that [OF a t(1) _ t(3)]) (use t(2,4-7) c enc in \<open>auto simp: da order_antisym_conv\<close>)
qed

lemma revoke_identity_ok:
  assumes ok: "identities_ok d" and g: "revoke_identity P now op d = Inr d'"
  shows "identities_ok d'" "agent_owner d \<Longrightarrow> agent_owner d'"
proof -
  obtain actor_role target target_role da where
    t: "active_role d target = Inr target_role" "\<not> is_system d target" "target_role = Owner \<longrightarrow> \<not> is_last_owner d target"
    and rows: "db_identities d' = update_where (\<lambda>i. i_pubkey i = target) (\<lambda>i. i \<lparr>i_revoked := True\<rparr>) (db_identities d)"
    using g by (rule revoke_identity_Inr)
  have "identities_ok (d \<lparr>db_identities := db_identities d'\<rparr>)"
    unfolding rows by (rule identities_ok_update [OF ok]) (use ok in \<open>auto simp: row_ok_def identities_ok_def\<close>)
  then show "identities_ok d'" using identities_ok_set [of d' "d \<lparr>db_identities := db_identities d'\<rparr>"] by simp
  show "agent_owner d'" if own: "agent_owner d"
  proof -
    obtain j where j: "j \<in> set (db_identities d)" "i_role j = role_as_str Owner" "\<not> i_revoked j" "\<not> i_system j"
      using own by (auto simp: agent_owner_def)
    show ?thesis
    proof (cases "i_pubkey j = target")
      case True
      then have "target_role = Owner" using t(1) active_role_Inr [OF ok] same_row [OF ok] j role_as_str_inj by metis
      then obtain k where "k \<in> set (db_identities d)" "i_role k = role_as_str Owner" "\<not> i_revoked k" "\<not> i_system k" "i_pubkey k \<noteq> target"
        using not_last_owner [OF ok] t(3) by blast
      then show ?thesis using agent_owner_update [OF _ _ _ _ _ rows] by blast
    next
      case False
      then show ?thesis using agent_owner_update [OF j _ rows] by blast
    qed
  qed
qed


section \<open>Properties\<close>

interpretation grant: signed_operation P "''role.grant''" "grant_role P" "\<lambda>d. d" for P
proof
  fix now op d d'
  assume "grant_role P now op d = Inr d'"
  then show "\<exists>role da. authorize P now op ''role.grant'' d = Inr (role, da) \<and> db_nonces d' = db_nonces da"
    by (rule grant_role_Inr) blast
qed

interpretation revoke: signed_operation P "''identity.revoke''" "revoke_identity P" "\<lambda>d. d" for P
proof
  fix now op d d'
  assume "revoke_identity P now op d = Inr d'"
  then show "\<exists>role da. authorize P now op ''identity.revoke'' d = Inr (role, da) \<and> db_nonces d' = db_nonces da"
    by (rule revoke_identity_Inr) blast
qed

lemma identity_of_update:
  assumes "\<And>i. i_pubkey (f i) = i_pubkey i" "db_identities d' = update_where (\<lambda>i. i_pubkey i = target) f (db_identities d)"
  shows "identity_of d' pk = (if pk = target then map_option f (identity_of d pk) else identity_of d pk)"
proof -
  have "identity_of d' pk = map_option (\<lambda>i. if i_pubkey i = target then f i else i) (identity_of d pk)"
    unfolding identity_of_def assms(2) by (rule find_update_where) (simp add: assms(1))
  moreover have "i_pubkey i = pk" if "identity_of d pk = Some i" for i
    using that by (auto simp: identity_of_def find_Some_iff)
  ultimately show ?thesis by (cases "identity_of d pk") auto
qed

text \<open>
  C17: granting a role never exceeds the granter: the actor is an active agent of at least controller rank, the new
  role and the target's old role are at most its own, roles above supervisor are handed out and taken only by
  an owner, and only the target's row changes.
\<close>

theorem grant_role_authority:
  assumes "identities_ok d" "grant_role P now op d = Inr d'"
  shows "\<exists>actor_role target target_role new.
      active_role d (o_actor op) = Inr actor_role \<and> \<not> is_system d (o_actor op) \<and> Controller \<le> actor_role
      \<and> unhex32 (o_subject op) = Some target \<and> active_role d target = Inr target_role \<and> role_parse (o_arg op) = Some new
      \<and> new \<le> actor_role \<and> target_role \<le> actor_role \<and> (actor_role = Owner \<or> new \<le> Supervisor \<and> target_role \<le> Supervisor)
      \<and> active_role d' target = Inr new
      \<and> (\<forall>pk. identity_of d' pk = (if pk = target then map_option (\<lambda>i. i \<lparr>i_role := role_as_str new\<rparr>) (identity_of d pk) else identity_of d pk))"
proof -
  obtain actor_role target new target_role da where
    t: "authorize P now op ''role.grant'' d = Inr (actor_role, da)" "unhex32 (o_subject op) = Some target"
    "role_parse (o_arg op) = Some new" "active_role d target = Inr target_role" "Controller \<le> actor_role"
    "Controller \<le> target_role \<longrightarrow> actor_role = Owner" "Supervisor < new \<longrightarrow> actor_role = Owner"
    and rows: "db_identities d' = update_where (\<lambda>i. i_pubkey i = target) (\<lambda>i. i \<lparr>i_role := role_as_str new\<rparr>) (db_identities d)"
    using assms(2) by (rule grant_role_Inr)
  have id: "identity_of d' pk = (if pk = target then map_option (\<lambda>i. i \<lparr>i_role := role_as_str new\<rparr>) (identity_of d pk) else identity_of d pk)" for pk
    by (rule identity_of_update [OF _ rows]) simp
  have "active_role d' target = Inr new"
    using t(4) id [of target] by (auto simp: active_role_def ok_or_def split: option.splits if_splits)
  moreover have "new \<le> actor_role" "target_role \<le> actor_role"
    using t(5-7) by (cases actor_role; cases new; cases target_role; simp add: less_role_def less_eq_role_def)+
  moreover have "actor_role = Owner \<or> new \<le> Supervisor \<and> target_role \<le> Supervisor"
    using t(6,7) by (cases target_role; cases new; simp add: less_role_def less_eq_role_def)
  moreover have "active_role d (o_actor op) = Inr actor_role" "\<not> is_system d (o_actor op)" using t(1) by (simp_all add: authorize_Inr)
  ultimately show ?thesis using t id by blast
qed


text \<open>Sample keys and operations: the toy signature is 64 letters.\<close>

definition sample_key :: "char \<Rightarrow> string" where
  "sample_key c = replicate 32 c"

definition sample_op :: "string \<Rightarrow> string \<Rightarrow> string \<Rightarrow> int \<Rightarrow> string \<Rightarrow> string \<Rightarrow> signed_op" where
  "sample_op kind subject arg ts nonce actor =
     \<lparr>o_kind = kind, o_subject = subject, o_arg = arg, o_ts = ts, o_nonce = nonce, o_actor = actor,
      o_sig = replicate 64 CHR ''s''\<rparr>"

definition sample_owner_db :: db where
  "sample_owner_db =
     (case bootstrap_owner 1000 (sample_key CHR ''o'') (register_identity 1000 (sample_key CHR ''w'') ''w'' empty_db) of
        Inr d \<Rightarrow> d | Inl _ \<Rightarrow> empty_db)"

lemma identities_ok_empty: "identities_ok empty_db"
  by (simp add: identities_ok_def empty_db_def one_system_def)

lemma sample_owner_db_ok: "identities_ok sample_owner_db \<and> agent_owner sample_owner_db"
proof -
  let ?d = "register_identity 1000 (sample_key CHR ''w'') ''w'' empty_db"
  have d: "identities_ok ?d" by (rule register_identity_ok [OF identities_ok_empty])
  have "\<not> is_system ?d (sample_key CHR ''o'') \<and> \<not> isl (bootstrap_owner 1000 (sample_key CHR ''o'') ?d)" by code_simp
  then obtain d' where "bootstrap_owner 1000 (sample_key CHR ''o'') ?d = Inr d'" "\<not> is_system ?d (sample_key CHR ''o'')"
    by (metis isl_def sum.exhaust)
  then show ?thesis using bootstrap_owner_ok [OF d] by (simp add: sample_owner_db_def)
qed

theorem grant_role_authority_witness:
  "\<exists>d'. grant_role toy_primitives 2000
      (sample_op ''role.grant'' (hex (sample_key CHR ''w'')) ''supervisor'' 2000 ''n1'' (sample_key CHR ''o'')) sample_owner_db = Inr d'
    \<and> active_role d' (sample_key CHR ''w'') = Inr Supervisor"
proof -
  let ?op = "sample_op ''role.grant'' (hex (sample_key CHR ''w'')) ''supervisor'' 2000 ''n1'' (sample_key CHR ''o'')"
  have "\<not> isl (grant_role toy_primitives 2000 ?op sample_owner_db)" by code_simp
  then obtain d' where g: "grant_role toy_primitives 2000 ?op sample_owner_db = Inr d'" by (metis isl_def sum.exhaust)
  have k: "unhex32 (o_subject ?op) = Some (sample_key CHR ''w'')" "role_parse (o_arg ?op) = Some Supervisor" by code_simp+
  from grant_role_authority [OF conjunct1 [OF sample_owner_db_ok] g] have "active_role d' (sample_key CHR ''w'') = Inr Supervisor"
    using k by auto
  then show ?thesis using g by blast
qed

text \<open>
  C24: bootstrapping does not refuse the key of the system identity. The owner role then belongs to an identity
  that every agent authorization refuses, and no other key can be bootstrapped.
\<close>

theorem bootstrap_accepts_system_key:
  "\<exists>d1 d2. register_system_identity now pk empty_db = Inr d1 \<and> bootstrap_owner now pk d1 = Inr d2 \<and> owner_exists d2
     \<and> (\<forall>t other. bootstrap_owner t other d2 = Inl (Invalid ''an owner already exists''))
     \<and> (\<forall>P t op kind. \<exists>e. authorize P t (op \<lparr>o_actor := pk\<rparr>) kind d2 = Inl e)"
proof -
  define sys where "sys = \<lparr>i_pubkey = pk, i_label = ''system'', i_role = ''observer'', i_revoked = False, i_first_seen = now, i_system = True\<rparr>"
  obtain d1 where d1: "register_system_identity now pk empty_db = Inr d1" "db_identities d1 = [sys]"
    by (simp add: register_system_identity_def identity_of_def empty_db_def replace_system_def upsert_system_def sys_def Let_def)
  obtain d2 where d2: "bootstrap_owner now pk d1 = Inr d2" "db_identities d2 = [sys \<lparr>i_role := ''owner''\<rparr>]"
    by (simp add: bootstrap_owner_def d1(2) Let_def update_where_def sys_def)
  have "is_system d2 pk" by (simp add: is_system_def identity_of_def d2(2)) (simp add: sys_def)
  then have "\<exists>e. authorize P t (op \<lparr>o_actor := pk\<rparr>) kind d2 = Inl e" for P t op kind
    by (cases "authorize P t (op \<lparr>o_actor := pk\<rparr>) kind d2") (auto simp: authorize_Inr)
  moreover have "owner_exists d2" by (simp add: owner_exists_def d2(2)) (simp add: sys_def)
  moreover have "bootstrap_owner t other d2 = Inl (Invalid ''an owner already exists'')" for t other
    by (simp add: bootstrap_owner_def d2(2))
  ultimately show ?thesis using d1 d2 by blast
qed

end
