(* ===== verification/Channels.thy ===== *)
theory Channels
  imports Identity
begin

text \<open>
  Channels, membership and key epochs (\<open>crates/agora-store/src/channels.rs\<close>). A channel is encrypted once it has
  wrapped keys; every change of membership that takes a reader away either rotates the key at once or records
  that a rotation is pending. The invariant \<open>channels_ok\<close> relates the members of an encrypted channel to the
  holders of its current key.
\<close>

section \<open>Definitions\<close>

definition CHANNEL_KINDS :: "string list" where
  "CHANNEL_KINDS = [''dm'', ''group'', ''thread'', ''squad'', ''team'']"

definition WRAPPED_KEY_LEN :: nat where "WRAPPED_KEY_LEN = 72"

definition keys_digest :: "primitives \<Rightarrow> int \<Rightarrow> (string \<times> string) list \<Rightarrow> string" where
  "keys_digest P epoch keys =
     (let sorted = sort_by (\<lambda>a b. then_with (cmp (fst a) (fst b)) (cmp (snd a) (snd b))) keys in
      pr_hash P (canonical ''keys/v1'' (le_bytes 8 epoch # concat (map (\<lambda>(pk, w). [pk, w]) sorted))))"

definition parse_arg :: "(string \<Rightarrow> json option) \<Rightarrow> string \<Rightarrow> json tx" where
  "parse_arg from_str arg = ok_or (from_str arg) (Invalid ''arg must be JSON'')"

definition parse_pk :: "json \<Rightarrow> string tx" where
  "parse_pk v =
     ok_or (Option.bind (Option.bind (jget ''pk'' v) jas_str) unhex32) (Invalid ''member pk must be 64 lowercase hex'')"

definition parse_member :: "json \<Rightarrow> (string \<times> string) tx" where
  "parse_member v =
     bind_result (parse_pk v) (\<lambda>pk.
       case Option.bind (jget ''role'' v) jas_str of
         Some r \<Rightarrow> if r = ''admin'' \<or> r = ''member'' then Inr (pk, r) else Inl (Invalid ''member role must be admin or member'')
       | None \<Rightarrow> Inl (Invalid ''member role must be admin or member''))"

definition check_keys_field :: "json \<Rightarrow> string option \<Rightarrow> unit tx" where
  "check_keys_field arg expected =
     (case (expected, jget ''keys'' arg) of
        (None, None) \<Rightarrow> Inr ()
      | (None, Some _) \<Rightarrow> Inl (Invalid ''keys digest without keys'')
      | (Some digest, Some v) \<Rightarrow> if jas_str v = Some digest then Inr () else Inl (Invalid ''keys digest mismatch'')
      | (Some _, None) \<Rightarrow> Inl (Invalid ''keys digest mismatch''))"

definition current_epoch :: "db \<Rightarrow> string \<Rightarrow> int tx" where
  "current_epoch d channel =
     ok_or (map_option ch_epoch (find (\<lambda>c. ch_id c = channel) (db_channels d))) (NotFound channel)"

definition rotation_pending :: "db \<Rightarrow> string \<Rightarrow> bool" where
  "rotation_pending d channel = list_ex (\<lambda>r. r_channel r = channel) (db_rotation d)"

definition is_channel_admin :: "db \<Rightarrow> string \<Rightarrow> string \<Rightarrow> bool" where
  "is_channel_admin d channel pk =
     list_ex (\<lambda>m. m_channel m = channel \<and> m_pubkey m = pk \<and> m_role m = ''admin'') (db_members d)"

definition others_of :: "db \<Rightarrow> string \<Rightarrow> string \<Rightarrow> nat \<times> nat" where
  "others_of d channel pk =
     (let rows = filter (\<lambda>m. m_channel m = channel \<and> m_pubkey m \<noteq> pk) (db_members d)
      in (length rows, length (filter (\<lambda>m. m_role m = ''admin'') rows)))"

definition member_set :: "db \<Rightarrow> string \<Rightarrow> string list" where
  "member_set d channel = map m_pubkey (filter (\<lambda>m. m_channel m = channel) (db_members d))"

text \<open>The keys a key list covers: each 72 bytes long, each member once.\<close>

fun key_set :: "(string \<times> string) list \<Rightarrow> string list \<Rightarrow> string list tx" where
  "key_set [] acc = Inr acc"
| "key_set ((pk, wrapped) # keys) acc =
     (if length wrapped \<noteq> WRAPPED_KEY_LEN then Inl (Invalid ''wrapped key must be 72 bytes'')
      else if pk \<in> set acc then Inl (Invalid ''duplicate key pubkey'')
      else key_set keys (acc @ [pk]))"

definition check_cover :: "(string \<times> string) list \<Rightarrow> string set \<Rightarrow> string \<Rightarrow> unit tx" where
  "check_cover keys pks mismatch = bind_result (key_set keys []) (\<lambda>ks. ensure (set ks = pks) (Invalid mismatch))"

definition key_id :: "key_row \<Rightarrow> string \<times> int \<times> string" where
  "key_id k = (k_channel k, k_epoch k, k_member k)"

definition insert_key :: "string \<Rightarrow> int \<Rightarrow> string \<Rightarrow> string \<Rightarrow> string \<Rightarrow> key_row list \<Rightarrow> key_row list tx" where
  "insert_key channel epoch member wrapped wrapper t =
     insert_row key_id \<lparr>k_channel = channel, k_epoch = epoch, k_member = member, k_wrapped = wrapped, k_wrapper = Some wrapper\<rparr> t"

fun insert_keys :: "string \<Rightarrow> int \<Rightarrow> string \<Rightarrow> (string \<times> string) list \<Rightarrow> key_row list \<Rightarrow> key_row list tx" where
  "insert_keys channel epoch wrapper [] t = Inr t"
| "insert_keys channel epoch wrapper ((pk, wrapped) # keys) t =
     bind_result (insert_key channel epoch pk wrapped wrapper t) (insert_keys channel epoch wrapper keys)"

definition member_id :: "member_row \<Rightarrow> string \<times> string" where
  "member_id m = (m_channel m, m_pubkey m)"

fun insert_members :: "string \<Rightarrow> (string \<times> string) list \<Rightarrow> member_row list \<Rightarrow> member_row list tx" where
  "insert_members channel [] t = Inr t"
| "insert_members channel ((pk, role) # ms) t =
     bind_result (insert_row member_id \<lparr>m_channel = channel, m_pubkey = pk, m_role = role\<rparr> t) (insert_members channel ms)"

fun read_members :: "db \<Rightarrow> json list \<Rightarrow> (string \<times> string) list \<Rightarrow> (string \<times> string) list tx" where
  "read_members d [] acc = Inr acc"
| "read_members d (m # ms) acc =
     bind_result (parse_member m) (\<lambda>(pk, role).
     bind_result (active_role d pk) (\<lambda>_.
     if pk \<in> fst ` set acc then Inl (Invalid ''duplicate member'') else read_members d ms (acc @ [(pk, role)])))"

definition listed_members :: "db \<Rightarrow> json \<Rightarrow> (string \<times> string) list tx" where
  "listed_members d arg =
     (case jget ''members'' arg of
        None \<Rightarrow> Inr []
      | Some (JArr l) \<Rightarrow> read_members d l []
      | Some _ \<Rightarrow> Inl (Invalid ''members must be an array''))"

text \<open>A map from keys to roles, iterated in key order; the creator is always an admin.\<close>

definition with_creator :: "string \<Rightarrow> (string \<times> string) list \<Rightarrow> (string \<times> string) list" where
  "with_creator actor ms =
     sort_by (\<lambda>a b. cmp (fst a) (fst b)) ((actor, ''admin'') # filter (\<lambda>m. fst m \<noteq> actor) ms)"

definition read_parent :: "db \<Rightarrow> role \<Rightarrow> string \<Rightarrow> json \<Rightarrow> string option tx" where
  "read_parent d role actor arg =
     (case jget ''parent'' arg of
        None \<Rightarrow> Inr None
      | Some JNull \<Rightarrow> Inr None
      | Some (JStr p) \<Rightarrow>
          if role < Supervisor \<and> \<not> is_member d p actor then Inl (NotMember p)
          else bind_result (current_epoch d p) (\<lambda>_. Inr (Some p))
      | Some _ \<Rightarrow> Inl (Invalid ''parent must be null or a channel id''))"

definition create_channel ::
  "primitives \<Rightarrow> (string \<Rightarrow> json option) \<Rightarrow> int \<Rightarrow> signed_op \<Rightarrow> (string \<times> string) list \<Rightarrow> db \<Rightarrow> db tx" where
  "create_channel P from_str now op keys d0 =
     bind_result (authorize P now op ''channel.create'' d0) (\<lambda>(role, d).
     bind_result (need role Worker) (\<lambda>_.
     bind_result (ensure (o_subject op \<noteq> []) (Invalid ''channel id must not be empty'')) (\<lambda>_.
     bind_result (parse_arg from_str (o_arg op)) (\<lambda>arg.
     bind_result (ok_or (Option.bind (Option.bind (jget ''kind'' arg) jas_str) (\<lambda>k. if k \<in> set CHANNEL_KINDS then Some k else None))
       (Invalid ''channel kind must be dm, group, thread, squad or team'')) (\<lambda>kind.
     bind_result (case jget ''name'' arg of None \<Rightarrow> Inr [] | Some v \<Rightarrow> ok_or (jas_str v) (Invalid ''channel name must be a string'')) (\<lambda>name.
     bind_result (read_parent d role (o_actor op) arg) (\<lambda>parent.
     bind_result (listed_members d arg) (\<lambda>listed.
     let members = with_creator (o_actor op) listed; encrypted = (keys \<noteq> []) in
     bind_result (if encrypted then check_cover keys (fst ` set members) ''keys must cover exactly the member set'' else Inr ()) (\<lambda>_.
     bind_result (check_keys_field arg (if encrypted then Some (keys_digest P 0 keys) else None)) (\<lambda>_.
     bind_result (ensure (\<not> list_ex (\<lambda>c. ch_id c = o_subject op) (db_channels d)) (Invalid ''channel already exists'')) (\<lambda>_.
     bind_result (insert_members (o_subject op) members (db_members d)) (\<lambda>ms.
     bind_result (insert_keys (o_subject op) 0 (o_actor op) keys (db_keys d)) (\<lambda>ks.
     Inr (append_event now (actor_hex op) ''channel.created'' (o_subject op)
       (JObj [(''kind'', JStr kind), (''name'', JStr name), (''parent'', (case parent of None \<Rightarrow> JNull | Some p \<Rightarrow> JStr p)),
              (''members'', jint (int (length members))), (''encrypted'', JBool encrypted)])
       (d \<lparr>db_channels := db_channels d @ [\<lparr>ch_id = o_subject op, ch_kind = kind, ch_name = name, ch_parent = parent,
             ch_epoch = 0, ch_created = now\<rparr>],
           db_members := ms, db_keys := ks\<rparr>)))))))))))))))"

text \<open>The wrapped key that comes with a new member: required exactly when the channel is encrypted.\<close>

definition new_member_key ::
  "primitives \<Rightarrow> json \<Rightarrow> string \<Rightarrow> int \<Rightarrow> string \<Rightarrow> string option \<Rightarrow> string \<Rightarrow> db \<Rightarrow> key_row list tx" where
  "new_member_key P arg channel epoch target wrapped actor d =
     (case (is_encrypted d channel, wrapped) of
        (True, Some w) \<Rightarrow>
          if length w = WRAPPED_KEY_LEN then
            bind_result (check_keys_field arg (Some (keys_digest P epoch [(target, w)]))) (\<lambda>_.
              insert_key channel epoch target w actor (db_keys d))
          else Inl (Invalid ''encrypted channel needs a 72-byte wrapped key'')
      | (True, None) \<Rightarrow> Inl (Invalid ''encrypted channel needs a 72-byte wrapped key'')
      | (False, None) \<Rightarrow> bind_result (check_keys_field arg None) (\<lambda>_. Inr (db_keys d))
      | (False, Some _) \<Rightarrow> Inl (Invalid ''unencrypted channel takes no wrapped key''))"

definition add_member ::
  "primitives \<Rightarrow> (string \<Rightarrow> json option) \<Rightarrow> int \<Rightarrow> signed_op \<Rightarrow> string option \<Rightarrow> db \<Rightarrow> db tx" where
  "add_member P from_str now op wrapped d0 =
     bind_result (authorize P now op ''channel.add'' d0) (\<lambda>(role, d).
     bind_result (need role Worker) (\<lambda>_.
     let channel = o_subject op in
     bind_result (parse_arg from_str (o_arg op)) (\<lambda>arg.
     bind_result (parse_member arg) (\<lambda>(target, member_role).
     bind_result (ensure (\<not> (role < Supervisor \<and> \<not> is_channel_admin d channel (o_actor op))) (Transition (Forbidden role))) (\<lambda>_.
     bind_result (current_epoch d channel) (\<lambda>epoch.
     bind_result (active_role d target) (\<lambda>_.
     bind_result (ensure (\<not> is_member d channel target) (Invalid ''already a member'')) (\<lambda>_.
     bind_result (new_member_key P arg channel epoch target wrapped (o_actor op) d) (\<lambda>ks.
     bind_result (insert_row member_id \<lparr>m_channel = channel, m_pubkey = target, m_role = member_role\<rparr> (db_members d)) (\<lambda>ms.
     Inr (append_event now (actor_hex op) ''channel.member_added'' channel
       (JObj [(''member'', JStr (hex target)), (''role'', JStr member_role), (''epoch'', jint epoch)])
       (d \<lparr>db_keys := ks, db_members := ms\<rparr>))))))))))))"

text \<open>A full rotation: the keys cover exactly the members, the epoch advances, a pending rotation is settled.\<close>

definition set_epoch :: "string \<Rightarrow> int \<Rightarrow> channel_row list \<Rightarrow> channel_row list" where
  "set_epoch channel epoch t = update_where (\<lambda>c. ch_id c = channel) (\<lambda>c. c \<lparr>ch_epoch := epoch\<rparr>) t"

definition rotate_to ::
  "primitives \<Rightarrow> json \<Rightarrow> string \<Rightarrow> string \<Rightarrow> int \<Rightarrow> (string \<times> string) list \<Rightarrow> string \<Rightarrow> db \<Rightarrow> db tx" where
  "rotate_to P arg actor channel new_epoch keys mismatch d =
     bind_result (check_cover keys (set (member_set d channel)) mismatch) (\<lambda>_.
     bind_result (check_keys_field arg (Some (keys_digest P new_epoch keys))) (\<lambda>_.
     bind_result (insert_keys channel new_epoch actor keys (db_keys d)) (\<lambda>t.
     Inr (d \<lparr>db_channels := set_epoch channel new_epoch (db_channels d), db_keys := t,
         db_rotation := delete_where (\<lambda>r. r_channel r = channel) (db_rotation d)\<rparr>))))"

text \<open>The rows of a removal: the membership goes, and the channel is rotated, or flagged when the member left by itself.\<close>

definition drop_member ::
  "primitives \<Rightarrow> int \<Rightarrow> json \<Rightarrow> signed_op \<Rightarrow> (string \<times> string) list \<Rightarrow> string \<Rightarrow> int \<Rightarrow> db \<Rightarrow> (db \<times> int) tx" where
  "drop_member P now arg op keys target epoch d =
     (let channel = o_subject op;
          d1 = d \<lparr>db_members := delete_where (\<lambda>m. m_channel m = channel \<and> m_pubkey m = target) (db_members d)\<rparr>
      in if \<not> is_encrypted d channel then
           bind_result (ensure (keys = []) (Invalid ''unencrypted channel takes no keys'')) (\<lambda>_.
           bind_result (check_keys_field arg None) (\<lambda>_. Inr (d1, epoch)))
         else if target = o_actor op then
           Inr (d1 \<lparr>db_rotation := add_rotation now (''left '' @ hex target) (db_rotation d1) channel\<rparr>, epoch)
         else bind_result (rotate_to P arg (o_actor op) channel (epoch + 1) keys ''keys must cover exactly the remaining members'' d1)
           (\<lambda>d2. Inr (d2, epoch + 1)))"

definition remove_member ::
  "primitives \<Rightarrow> (string \<Rightarrow> json option) \<Rightarrow> int \<Rightarrow> signed_op \<Rightarrow> (string \<times> string) list \<Rightarrow> db \<Rightarrow> db tx" where
  "remove_member P from_str now op keys d0 =
     bind_result (authorize P now op ''channel.remove'' d0) (\<lambda>(role, d).
     let channel = o_subject op in
     bind_result (parse_arg from_str (o_arg op)) (\<lambda>arg.
     bind_result (parse_pk arg) (\<lambda>target.
     bind_result (ensure (target = o_actor op \<or> Supervisor \<le> role \<or> Worker \<le> role \<and> is_channel_admin d channel (o_actor op))
       (Transition (Forbidden role))) (\<lambda>_.
     bind_result (if is_member d channel target then Inr ()
       else bind_result (if Supervisor \<le> role then bind_result (current_epoch d channel) (\<lambda>_. Inr ()) else Inr ())
         (\<lambda>_. Inl (NotMember channel))) (\<lambda>_.
     bind_result (current_epoch d channel) (\<lambda>epoch.
     bind_result (if is_channel_admin d channel target then
         (case others_of d channel target of (other_members, other_admins) \<Rightarrow>
           ensure (\<not> (other_admins = 0 \<and> 0 < other_members)) (Invalid ''cannot remove the last channel admin''))
       else Inr ()) (\<lambda>_.
     let encrypted = is_encrypted d channel; self_leave = (target = o_actor op) in
     bind_result (ensure (\<not> (encrypted \<and> self_leave \<and> (keys \<noteq> [] \<or> jget ''keys'' arg \<noteq> None)))
       (Invalid ''self-leave takes no keys'')) (\<lambda>_.
     bind_result (drop_member P now arg op keys target epoch d) (\<lambda>(d3, new_epoch).
     Inr (append_event now (actor_hex op) ''channel.member_removed'' channel
       (JObj [(''member'', JStr (hex target)), (''epoch'', jint new_epoch)]) d3))))))))))"

definition set_channel_role ::
  "primitives \<Rightarrow> (string \<Rightarrow> json option) \<Rightarrow> int \<Rightarrow> signed_op \<Rightarrow> db \<Rightarrow> db tx" where
  "set_channel_role P from_str now op d0 =
     bind_result (authorize P now op ''channel.role'' d0) (\<lambda>(role, d).
     bind_result (need role Worker) (\<lambda>_.
     let channel = o_subject op in
     bind_result (parse_arg from_str (o_arg op)) (\<lambda>arg.
     bind_result (parse_member arg) (\<lambda>(target, new_role).
     bind_result (ensure (\<not> (role < Supervisor \<and> \<not> is_channel_admin d channel (o_actor op))) (Transition (Forbidden role))) (\<lambda>_.
     bind_result (current_epoch d channel) (\<lambda>_.
     bind_result (ok_or (map_option m_role (find (\<lambda>m. m_channel m = channel \<and> m_pubkey m = target) (db_members d))) (NotMember channel)) (\<lambda>old_role.
     if old_role = new_role then Inr d
     else bind_result (ensure (\<not> (old_role = ''admin'' \<and> snd (others_of d channel target) = 0))
         (Invalid ''cannot demote the last channel admin'')) (\<lambda>_.
       Inr (append_event now (actor_hex op) ''channel.role_changed'' channel
         (JObj [(''member'', JStr (hex target)), (''role'', JStr new_role)])
         (d \<lparr>db_members := update_where (\<lambda>m. m_channel m = channel \<and> m_pubkey m = target) (\<lambda>m. m \<lparr>m_role := new_role\<rparr>)
           (db_members d)\<rparr>))))))))))"

definition rotate_channel_key ::
  "primitives \<Rightarrow> (string \<Rightarrow> json option) \<Rightarrow> int \<Rightarrow> signed_op \<Rightarrow> (string \<times> string) list \<Rightarrow> db \<Rightarrow> (db \<times> int) tx" where
  "rotate_channel_key P from_str now op keys d0 =
     bind_result (authorize P now op ''channel.rotate'' d0) (\<lambda>(role, d).
     bind_result (need role Worker) (\<lambda>_.
     let channel = o_subject op in
     bind_result (parse_arg from_str (o_arg op)) (\<lambda>arg.
     bind_result (ensure (\<not> (role < Supervisor \<and> \<not> is_channel_admin d channel (o_actor op))) (Transition (Forbidden role))) (\<lambda>_.
     bind_result (current_epoch d channel) (\<lambda>epoch.
     bind_result (ensure (is_encrypted d channel) (Invalid ''channel is not encrypted'')) (\<lambda>_.
     bind_result (rotate_to P arg (o_actor op) channel (epoch + 1) keys ''keys must cover exactly the member set'' d) (\<lambda>d2.
     Inr (append_event now (actor_hex op) ''channel.rotated'' channel (JObj [(''epoch'', jint (epoch + 1))]) d2, epoch + 1))))))))"

section \<open>Reads\<close>

record channel_info_t =
  ci_id :: string
  ci_kind :: string
  ci_name :: string
  ci_parent :: "string option"
  ci_epoch :: int
  ci_encrypted :: bool
  ci_rotation_pending :: bool
  ci_my_role :: "string option"

definition info_row :: "db \<Rightarrow> string \<Rightarrow> channel_row \<Rightarrow> channel_info_t" where
  "info_row d reader c =
     \<lparr>ci_id = ch_id c, ci_kind = ch_kind c, ci_name = ch_name c, ci_parent = ch_parent c, ci_epoch = ch_epoch c,
      ci_encrypted = is_encrypted d (ch_id c), ci_rotation_pending = rotation_pending d (ch_id c),
      ci_my_role = map_option m_role (find (\<lambda>m. m_channel m = ch_id c \<and> m_pubkey m = reader) (db_members d))\<rparr>"

definition list_channels :: "db \<Rightarrow> string \<Rightarrow> channel_info_t list tx" where
  "list_channels d reader =
     bind_result (active_role d reader) (\<lambda>_.
     Inr (map (info_row d reader)
       (sort_by (\<lambda>a b. cmp (ch_id a) (ch_id b)) (filter (\<lambda>c. is_member d (ch_id c) reader) (db_channels d)))))"

definition all_channels :: "db \<Rightarrow> string \<Rightarrow> channel_info_t list tx" where
  "all_channels d reader =
     bind_result (active_role d reader) (\<lambda>role.
     bind_result (need role Supervisor) (\<lambda>_.
     Inr (map (info_row d reader) (sort_by (\<lambda>a b. cmp (ch_id a) (ch_id b)) (db_channels d)))))"

definition channel_members :: "db \<Rightarrow> string \<Rightarrow> (string \<times> string) list tx" where
  "channel_members d channel =
     bind_result (current_epoch d channel) (\<lambda>_.
     Inr (map (\<lambda>m. (m_pubkey m, m_role m))
       (sort_by (\<lambda>a b. cmp (m_pubkey a) (m_pubkey b)) (filter (\<lambda>m. m_channel m = channel) (db_members d)))))"

definition channel_info :: "db \<Rightarrow> string \<Rightarrow> string \<Rightarrow> (channel_info_t \<times> (string \<times> string) list) tx" where
  "channel_info d reader channel =
     bind_result (active_role d reader) (\<lambda>reader_role.
     bind_result (if is_member d channel reader then Inr ()
       else if reader_role < Supervisor then Inl (NotMember channel)
       else bind_result (current_epoch d channel) (\<lambda>_. Inr ())) (\<lambda>_.
     bind_result (ok_or (map_option (info_row d reader) (find (\<lambda>c. ch_id c = channel) (db_channels d))) (Sql ''Query returned no rows'')) (\<lambda>info.
     bind_result (channel_members d channel) (\<lambda>members.
     Inr (info, members)))))"

definition wrapped_key :: "db \<Rightarrow> string \<Rightarrow> string \<Rightarrow> int \<Rightarrow> string option" where
  "wrapped_key d channel member epoch =
     map_option k_wrapped (find (\<lambda>k. k_channel k = channel \<and> k_epoch k = epoch \<and> k_member k = member) (db_keys d))"

definition member_key :: "db \<Rightarrow> string \<Rightarrow> string \<Rightarrow> int option \<Rightarrow> (int \<times> string \<times> string) tx" where
  "member_key d reader channel epoch0 =
     bind_result (active_role d reader) (\<lambda>_.
     bind_result (ensure (is_member d channel reader) (NotMember channel)) (\<lambda>_.
     bind_result (case epoch0 of Some e \<Rightarrow> Inr e | None \<Rightarrow> current_epoch d channel) (\<lambda>epoch.
     (case find (\<lambda>k. k_channel k = channel \<and> k_epoch k = epoch \<and> k_member k = reader) (db_keys d) of
        None \<Rightarrow> Inl (NotFound ''channel key'')
      | Some k \<Rightarrow>
          (case k_wrapper k of
             None \<Rightarrow> Inl (NotFound ''channel key'')
           | Some wrapper \<Rightarrow>
               if length wrapper = 32 then Inr (epoch, wrapper, k_wrapped k) else Inl (Sql ''wrapper is not 32 bytes''))))))"

section \<open>Members and key holders\<close>

definition members_of :: "member_row list \<Rightarrow> string \<Rightarrow> string set" where
  "members_of t x = m_pubkey ` {m \<in> set t. m_channel m = x}"

definition holders_of :: "key_row list \<Rightarrow> string \<Rightarrow> int \<Rightarrow> string set" where
  "holders_of t x e = k_member ` {k \<in> set t. k_channel k = x \<and> k_epoch k = e}"

lemma members_of_simps:
  "members_of (t @ [m]) x = members_of t x \<union> (if m_channel m = x then {m_pubkey m} else {})"
  "is_member d x pk \<longleftrightarrow> pk \<in> members_of (db_members d) x"
  "set (member_set d x) = members_of (db_members d) x"
  by (auto simp: members_of_def is_member_def list_ex_iff member_set_def)

lemma holders_of_snoc:
  "holders_of (t @ [k]) x e = holders_of t x e \<union> (if k_channel k = x \<and> k_epoch k = e then {k_member k} else {})"
  by (auto simp: holders_of_def)

lemma insert_keys_Inr:
  "insert_keys ch e w keys t = Inr t' \<Longrightarrow>
     holders_of t' x e' = holders_of t x e' \<union> (if x = ch \<and> e' = e then fst ` set keys else {})
     \<and> (\<forall>k \<in> set t'. k \<in> set t \<or> k_channel k = ch \<and> k_epoch k = e)
     \<and> (\<exists>zs. t' = t @ zs \<and> length zs = length keys)"
proof (induction keys arbitrary: t)
  case (Cons a keys)
  obtain pk wr where a: "a = (pk, wr)" by force
  let ?k = "\<lparr>k_channel = ch, k_epoch = e, k_member = pk, k_wrapped = wr, k_wrapper = Some w\<rparr>"
  have t': "insert_keys ch e w keys (t @ [?k]) = Inr t'"
    using Cons.prems by (auto simp: a insert_key_def bind_result_Inr_iff insert_row_Inr)
  note ih = Cons.IH [OF t']
  then obtain zs where "t' = t @ ?k # zs" "length zs = length keys" by auto
  then have "\<exists>zs. t' = t @ zs \<and> length zs = length (a # keys)" by (intro exI [of _ "?k # zs"]) simp
  then show ?case using ih by (auto simp: holders_of_snoc a)
qed simp

lemma insert_members_Inr:
  "insert_members ch ms t = Inr t' \<Longrightarrow>
     members_of t' x = members_of t x \<union> (if x = ch then fst ` set ms else {})
     \<and> (\<forall>m \<in> set t'. m \<in> set t \<or> m_channel m = ch \<and> m_pubkey m \<in> fst ` set ms)"
proof (induction ms arbitrary: t)
  case (Cons a ms)
  obtain pk r where a: "a = (pk, r)" by force
  let ?m = "\<lparr>m_channel = ch, m_pubkey = pk, m_role = r\<rparr>"
  have "insert_members ch ms (t @ [?m]) = Inr t'"
    using Cons.prems by (auto simp: a bind_result_Inr_iff insert_row_Inr)
  from Cons.IH [OF this] show ?case by (auto simp: members_of_simps a)
qed simp

lemma key_set_Inr: "key_set keys acc = Inr ks \<Longrightarrow> set ks = set acc \<union> fst ` set keys"
  by (induction keys acc rule: key_set.induct) (auto split: if_splits)

lemma read_members_Inr:
  "read_members d l acc = Inr ms \<Longrightarrow> fst ` set ms \<subseteq> fst ` set acc \<union> {pk. \<exists>r. active_role d pk = Inr r}"
proof (induction l arbitrary: acc)
  case (Cons m l)
  obtain pk role r where "active_role d pk = Inr r" and rest: "read_members d l (acc @ [(pk, role)]) = Inr ms"
    using Cons.prems by (auto simp: bind_result_Inr_iff split: if_splits)
  then show ?case using Cons.IH [OF rest] by auto
qed simp

lemma listed_members_Inr: "listed_members d arg = Inr ms \<Longrightarrow> fst ` set ms \<subseteq> {pk. \<exists>r. active_role d pk = Inr r}"
  using read_members_Inr [of d _ "[]" ms] by (auto simp: listed_members_def split: option.splits json.splits)

lemma check_cover_Inr: "check_cover keys pks msg = Inr u \<Longrightarrow> fst ` set keys = pks"
  using key_set_Inr [of keys "[]"] by (auto simp: check_cover_def bind_result_Inr_iff ensure_Inr)

lemma with_creator_set: "fst ` set (with_creator a ms) = insert a (fst ` set ms)"
  by (auto simp: with_creator_def image_iff)

section \<open>The invariant\<close>

text \<open>
  A registered key that is not a revoked agent.  A system key is let through: a new system key revokes the old one and
  leaves its memberships alone.
\<close>

definition active_in :: "identity_row list \<Rightarrow> string \<Rightarrow> bool" where
  "active_in rows pk = (\<exists>i \<in> set rows. i_pubkey i = pk \<and> (i_revoked i \<longrightarrow> i_system i))"

abbreviation active_pk :: "db \<Rightarrow> string \<Rightarrow> bool" where
  "active_pk d \<equiv> active_in (db_identities d)"

text \<open>Who can read the current epoch of an encrypted channel: every member, and nobody else unless a rotation is pending.\<close>

definition channel_ok :: "db \<Rightarrow> string \<Rightarrow> int \<Rightarrow> bool" where
  "channel_ok d x e =
     (is_encrypted d x \<longrightarrow> members_of (db_members d) x \<subseteq> holders_of (db_keys d) x e
        \<and> (\<not> rotation_pending d x \<longrightarrow> holders_of (db_keys d) x e \<subseteq> members_of (db_members d) x))"

text \<open>The tables agree, and the channels for which \<open>q\<close> holds are in order.\<close>

definition channels_ok_where :: "(string \<Rightarrow> bool) \<Rightarrow> db \<Rightarrow> bool" where
  "channels_ok_where q d =
     (distinct (map ch_id (db_channels d))
      \<and> (\<forall>m \<in> set (db_members d). m_channel m \<in> ch_id ` set (db_channels d) \<and> active_pk d (m_pubkey m))
      \<and> (\<forall>k \<in> set (db_keys d). \<exists>c \<in> set (db_channels d). ch_id c = k_channel k \<and> k_epoch k \<le> ch_epoch c)
      \<and> (\<forall>c \<in> set (db_channels d). q (ch_id c) \<longrightarrow> channel_ok d (ch_id c) (ch_epoch c)))"

abbreviation channels_ok :: "db \<Rightarrow> bool" where
  "channels_ok \<equiv> channels_ok_where (\<lambda>_. True)"

lemma channels_okD:
  assumes "channels_ok_where q d"
  shows "distinct (map ch_id (db_channels d))"
    "\<And>m. m \<in> set (db_members d) \<Longrightarrow> m_channel m \<in> ch_id ` set (db_channels d)"
    "\<And>m. m \<in> set (db_members d) \<Longrightarrow> active_pk d (m_pubkey m)"
    "\<And>k. k \<in> set (db_keys d) \<Longrightarrow> \<exists>c \<in> set (db_channels d). ch_id c = k_channel k \<and> k_epoch k \<le> ch_epoch c"
    "\<And>c. c \<in> set (db_channels d) \<Longrightarrow> q (ch_id c) \<Longrightarrow> channel_ok d (ch_id c) (ch_epoch c)"
  using assms unfolding channels_ok_where_def by blast+

lemma same_channel:
  assumes "channels_ok_where q d" "c \<in> set (db_channels d)" "c' \<in> set (db_channels d)" "ch_id c = ch_id c'"
  shows "c = c'"
  using channels_okD(1) [OF assms(1)] assms(2-4) inj_onD [of ch_id "set (db_channels d)" c c'] by (simp add: distinct_map)

lemma channel_ok_cong:
  assumes "members_of (db_members d') x = members_of (db_members d) x" "holders_of (db_keys d') x e = holders_of (db_keys d) x e"
    and "is_encrypted d' x = is_encrypted d x" "rotation_pending d' x = rotation_pending d x"
  shows "channel_ok d' x e = channel_ok d x e"
  using assms by (simp add: channel_ok_def)

lemma unknown_channel:
  assumes "channels_ok_where q d" "x \<notin> ch_id ` set (db_channels d)"
  shows "members_of (db_members d) x = {}" "holders_of (db_keys d) x e = {}" "\<not> is_encrypted d x"
  using channels_okD(2) [OF assms(1)] channels_okD(4) [OF assms(1)] assms(2)
  by (force simp: members_of_def holders_of_def is_encrypted_def list_ex_iff)+

lemma current_epoch_Inr:
  assumes "distinct (map ch_id (db_channels d))"
  shows "current_epoch d x = Inr e \<longleftrightarrow> (\<exists>c \<in> set (db_channels d). ch_id c = x \<and> ch_epoch c = e)"
proof (cases "find (\<lambda>c. ch_id c = x) (db_channels d)")
  case None
  then have "\<not> (\<exists>c \<in> set (db_channels d). ch_id c = x)" by (auto simp: find_None_iff)
  then show ?thesis using None by (auto simp: current_epoch_def ok_or_def)
next
  case (Some c)
  then have c: "c \<in> set (db_channels d)" "ch_id c = x" using find_key_Some [OF assms] by auto
  have "c' = c" if "c' \<in> set (db_channels d)" "ch_id c' = x" for c'
    using find_key_Some [OF assms, of x c'] Some that by simp
  moreover have "current_epoch d x = Inr (ch_epoch c)" using Some by (simp add: current_epoch_def ok_or_def)
  ultimately show ?thesis using c by (metis Inr_inject)
qed


lemma active_pk_cong: "db_identities d' = db_identities d \<Longrightarrow> active_pk d' = active_pk d"
  by simp

lemma active_role_active: "active_role d pk = Inr r \<Longrightarrow> active_pk d pk"
  by (auto simp: active_role_def active_in_def identity_of_def find_Some_iff split: option.splits if_splits)

section \<open>Rotation\<close>

lemma rotate_to_Inr:
  assumes "rotate_to P arg actor x e keys msg d = Inr d'"
  shows "db_channels d' = set_epoch x e (db_channels d)" "db_members d' = db_members d" "db_identities d' = db_identities d"
    "db_nonces d' = db_nonces d" "\<And>y. rotation_pending d' y \<longleftrightarrow> rotation_pending d y \<and> y \<noteq> x"
    "\<And>y e'. holders_of (db_keys d') y e' = holders_of (db_keys d) y e' \<union> (if y = x \<and> e' = e then members_of (db_members d) x else {})"
    "\<And>k. k \<in> set (db_keys d') \<Longrightarrow> k \<in> set (db_keys d) \<or> k_channel k = x \<and> k_epoch k = e"
    "\<And>y. y \<noteq> x \<Longrightarrow> is_encrypted d' y = is_encrypted d y"
proof -
  obtain t where ks: "check_cover keys (set (member_set d x)) msg = Inr ()"
    and t: "insert_keys x e actor keys (db_keys d) = Inr t"
    and d': "d' = d \<lparr>db_channels := set_epoch x e (db_channels d), db_keys := t,
         db_rotation := delete_where (\<lambda>r. r_channel r = x) (db_rotation d)\<rparr>"
    using assms by (auto simp: rotate_to_def bind_result_Inr_iff)
  note I = insert_keys_Inr [OF t]
  have m: "fst ` set keys = members_of (db_members d) x" using check_cover_Inr [OF ks] by (simp add: members_of_simps)
  show "db_channels d' = set_epoch x e (db_channels d)" "db_members d' = db_members d" "db_identities d' = db_identities d"
    "db_nonces d' = db_nonces d" by (simp_all add: d')
  show "rotation_pending d' y \<longleftrightarrow> rotation_pending d y \<and> y \<noteq> x" for y by (auto simp: rotation_pending_def d' list_ex_iff)
  show "holders_of (db_keys d') y e' = holders_of (db_keys d) y e' \<union> (if y = x \<and> e' = e then members_of (db_members d) x else {})" for y e'
    using I m by (simp add: d')
  show old: "k \<in> set (db_keys d) \<or> k_channel k = x \<and> k_epoch k = e" if "k \<in> set (db_keys d')" for k using I that by (simp add: d')
  obtain zs where zs: "t = db_keys d @ zs" using I by blast
  show "is_encrypted d' y = is_encrypted d y" if "y \<noteq> x" for y
    using old that zs by (auto simp: is_encrypted_def list_ex_iff d')
qed

lemma set_epoch_props:
  "map ch_id (set_epoch x e t) = map ch_id t"
  "c \<in> set (set_epoch x e t) \<longleftrightarrow> (c \<in> set t \<and> ch_id c \<noteq> x) \<or> (\<exists>c0 \<in> set t. ch_id c0 = x \<and> c = c0 \<lparr>ch_epoch := e\<rparr>)"
  by (auto simp: set_epoch_def map_update_where set_update_where image_iff)

lemma no_future_keys:
  assumes ok: "channels_ok_where q d" and e: "current_epoch d x = Inr e"
  shows "holders_of (db_keys d) x (e + 1) = {}"
proof -
  obtain c where c: "c \<in> set (db_channels d)" "ch_id c = x" "ch_epoch c = e"
    using e unfolding current_epoch_Inr [OF channels_okD(1) [OF ok]] by blast
  have "k_epoch k \<le> e" if k: "k \<in> set (db_keys d)" "k_channel k = x" for k
  proof -
    obtain c' where c': "c' \<in> set (db_channels d)" "ch_id c' = x" "k_epoch k \<le> ch_epoch c'"
      using channels_okD(4) [OF ok k(1)] k(2) by blast
    then have "c' = c" using same_channel [OF ok c'(1) c(1)] c(2) by simp
    then show ?thesis using c c' by simp
  qed
  then show ?thesis by (fastforce simp: holders_of_def)
qed

lemma rotate_to_ok:
  assumes ok: "channels_ok_where (\<lambda>y. y \<noteq> x) d" and e: "current_epoch d x = Inr e"
    and r: "rotate_to P arg actor x (e + 1) keys msg d = Inr d'"
  shows "channels_ok d'"
proof -
  note D = channels_okD [OF ok] and R = rotate_to_Inr [OF r]
  note old = no_future_keys [OF ok e]
  have ids: "ch_id ` set (db_channels d') = ch_id ` set (db_channels d)"
    unfolding R(1) by (metis set_epoch_props(1) set_map)
  have keys: "\<exists>c \<in> set (db_channels d'). ch_id c = k_channel k \<and> k_epoch k \<le> ch_epoch c" if k: "k \<in> set (db_keys d')" for k
  proof (cases "k \<in> set (db_keys d)")
    case True
    then obtain c where c: "c \<in> set (db_channels d)" "ch_id c = k_channel k" "k_epoch k \<le> ch_epoch c" using D(4) by blast
    show ?thesis
    proof (cases "ch_id c = x")
      case True
      then have "ch_epoch c = e" using current_epoch_Inr [OF D(1)] e same_channel [OF ok] c(1) by metis
      then show ?thesis using c True unfolding R(1) by (intro bexI [of _ "c \<lparr>ch_epoch := e + 1\<rparr>"]) (auto simp: set_epoch_props)
    next
      case False
      then show ?thesis using c unfolding R(1) by (intro bexI [of _ c]) (auto simp: set_epoch_props)
    qed
  next
    case False
    then have k: "k_channel k = x" "k_epoch k = e + 1" using R(7) k by auto
    obtain c where "c \<in> set (db_channels d)" "ch_id c = x" using current_epoch_Inr [OF D(1)] e by blast
    then show ?thesis using k unfolding R(1) by (intro bexI [of _ "c \<lparr>ch_epoch := e + 1\<rparr>"]) (auto simp: set_epoch_props)
  qed
  have chan: "channel_ok d' (ch_id c) (ch_epoch c)" if c: "c \<in> set (db_channels d')" for c
  proof (cases "ch_id c = x")
    case True
    have "c \<in> set (set_epoch x (e + 1) (db_channels d))" using c R(1) by simp
    then obtain c0 where "c = c0 \<lparr>ch_epoch := e + 1\<rparr>" using True set_epoch_props(2) by blast
    then have ep: "ch_epoch c = e + 1" by simp
    have "holders_of (db_keys d') x (e + 1) = members_of (db_members d') x" using old R(2) R(6) [of x "e + 1"] by simp
    then show ?thesis unfolding channel_ok_def True ep by blast
  next
    case False
    then have "c \<in> set (db_channels d)" using c R(1) set_epoch_props(2) [of c x "e + 1" "db_channels d"] by auto
    then have "channel_ok d (ch_id c) (ch_epoch c)" using D(5) False by blast
    then show ?thesis using channel_ok_cong [of d' "ch_id c" d "ch_epoch c"] R(2,5,6,8) False by simp
  qed
  show ?thesis
    unfolding channels_ok_where_def using D(1-3) keys chan ids R(1-3) active_pk_cong [OF R(3)] by (simp add: set_epoch_props(1))
qed


section \<open>Operations keep the invariant\<close>

text \<open>A change of the rows of one channel.\<close>

lemma channels_ok_change:
  assumes ok: "channels_ok_where q d"
    and frame: "db_channels d' = db_channels d" "db_identities d' = db_identities d"
    and other: "\<And>y. y \<noteq> x \<Longrightarrow> members_of (db_members d') y = members_of (db_members d) y"
      "\<And>y e. y \<noteq> x \<Longrightarrow> holders_of (db_keys d') y e = holders_of (db_keys d) y e"
      "\<And>y. y \<noteq> x \<Longrightarrow> is_encrypted d' y = is_encrypted d y" "\<And>y. y \<noteq> x \<Longrightarrow> rotation_pending d' y = rotation_pending d y"
    and mem: "\<And>m. m \<in> set (db_members d') \<Longrightarrow>
      (\<exists>m0 \<in> set (db_members d). m_channel m0 = m_channel m \<and> m_pubkey m0 = m_pubkey m)
      \<or> m_channel m \<in> ch_id ` set (db_channels d) \<and> active_pk d (m_pubkey m)"
    and keys: "\<And>k. k \<in> set (db_keys d') \<Longrightarrow>
      k \<in> set (db_keys d) \<or> (\<exists>c \<in> set (db_channels d). ch_id c = k_channel k \<and> k_epoch k \<le> ch_epoch c)"
    and here: "\<And>c. c \<in> set (db_channels d) \<Longrightarrow> ch_id c = x \<Longrightarrow> q' x \<Longrightarrow> channel_ok d' x (ch_epoch c)"
    and q: "\<And>y. y \<noteq> x \<Longrightarrow> q' y \<Longrightarrow> q y"
  shows "channels_ok_where q' d'"
proof -
  note D = channels_okD [OF ok]
  have m: "m_channel m \<in> ch_id ` set (db_channels d) \<and> active_pk d (m_pubkey m)" if "m \<in> set (db_members d')" for m
    using mem [OF that] D(2,3) by metis
  have c: "channel_ok d' (ch_id c) (ch_epoch c)" if "c \<in> set (db_channels d)" "q' (ch_id c)" for c
  proof (cases "ch_id c = x")
    case True
    then show ?thesis using here that by simp
  next
    case False
    then show ?thesis using D(5) [OF that(1)] q that(2) other channel_ok_cong [of d' "ch_id c" d "ch_epoch c"] by simp
  qed
  show ?thesis
    unfolding channels_ok_where_def frame(1) active_pk_cong [OF frame(2)] using D(1) D(4) keys m c by blast
qed

lemma channels_ok_frame:
  assumes "db_channels d' = db_channels d" "db_identities d' = db_identities d" "db_members d' = db_members d"
    "db_keys d' = db_keys d" "db_rotation d' = db_rotation d"
  shows "channels_ok_where q d' = channels_ok_where q d"
  using assms by (simp add: channels_ok_where_def channel_ok_def is_encrypted_def rotation_pending_def)

lemma channels_ok_append [simp]: "channels_ok_where q (append_event now a k s j d) = channels_ok_where q d"
  by (rule channels_ok_frame) simp_all

lemma channels_ok_authorize:
  "authorize P now op kind d = Inr (role, da) \<Longrightarrow> channels_ok_where q da = channels_ok_where q d"
  by (rule channels_ok_frame) (use authorize_frame in fastforce)+

lemma new_member_key_Inr:
  assumes "new_member_key P arg x e target wrapped actor d = Inr ks"
  shows "(\<exists>w. is_encrypted d x \<and> insert_key x e target w actor (db_keys d) = Inr ks) \<or> \<not> is_encrypted d x \<and> ks = db_keys d"
  using assms by (auto simp: new_member_key_def bind_result_Inr_iff split: bool.splits option.splits if_splits)

lemma add_member_Inr:
  assumes "add_member P from_str now op wrapped d = Inr d'"
  obtains role da arg target mrole epoch r ks ms where
    "authorize P now op ''channel.add'' d = Inr (role, da)" "current_epoch da (o_subject op) = Inr epoch"
    "active_role da target = Inr r" "new_member_key P arg (o_subject op) epoch target wrapped (o_actor op) da = Inr ks"
    "insert_row member_id \<lparr>m_channel = o_subject op, m_pubkey = target, m_role = mrole\<rparr> (db_members da) = Inr ms"
    "d' = append_event now (actor_hex op) ''channel.member_added'' (o_subject op)
      (JObj [(''member'', JStr (hex target)), (''role'', JStr mrole), (''epoch'', jint epoch)]) (da \<lparr>db_keys := ks, db_members := ms\<rparr>)"
  using assms unfolding add_member_def Let_def by (auto simp: bind_result_Inr_iff)

lemma add_member_ok:
  assumes ok: "channels_ok d" and a: "add_member P from_str now op wrapped d = Inr d'"
  shows "channels_ok d'"
proof -
  obtain role da arg target mrole epoch r ks ms where
    au: "authorize P now op ''channel.add'' d = Inr (role, da)" and ep: "current_epoch da (o_subject op) = Inr epoch"
    and act: "active_role da target = Inr r"
    and nk: "new_member_key P arg (o_subject op) epoch target wrapped (o_actor op) da = Inr ks"
    and ms: "insert_row member_id \<lparr>m_channel = o_subject op, m_pubkey = target, m_role = mrole\<rparr> (db_members da) = Inr ms"
    and d': "d' = append_event now (actor_hex op) ''channel.member_added'' (o_subject op)
      (JObj [(''member'', JStr (hex target)), (''role'', JStr mrole), (''epoch'', jint epoch)]) (da \<lparr>db_keys := ks, db_members := ms\<rparr>)"
    using a by (rule add_member_Inr)
  note ks = new_member_key_Inr [OF nk]
  let ?x = "o_subject op" and ?d = "da \<lparr>db_keys := ks, db_members := ms\<rparr>"
  have oka: "channels_ok da" using channels_ok_authorize [OF au] ok by simp
  note D = channels_okD [OF oka]
  obtain c0 where c0: "c0 \<in> set (db_channels da)" "ch_id c0 = ?x" "ch_epoch c0 = epoch"
    using ep current_epoch_Inr [OF D(1)] by blast
  have xin: "?x \<in> ch_id ` set (db_channels da)" using c0 by (metis imageI)
  have ms': "ms = db_members da @ [\<lparr>m_channel = ?x, m_pubkey = target, m_role = mrole\<rparr>]" using ms by (simp add: insert_row_Inr)
  have mem: "members_of ms y = members_of (db_members da) y \<union> (if ?x = y then {target} else {})" for y
    by (simp add: ms' members_of_simps)
  have hold: "holders_of ks y e = holders_of (db_keys da) y e \<union> (if y = ?x \<and> e = epoch \<and> is_encrypted da ?x then {target} else {})" for y e
    using ks by (auto simp: insert_key_def insert_row_Inr holders_of_snoc)
  have enc: "is_encrypted ?d y = is_encrypted da y" for y
    using ks by (auto simp: is_encrypted_def list_ex_iff insert_key_def insert_row_Inr) blast+
  have "channels_ok ?d"
  proof (rule channels_ok_change [OF oka, where x = ?x])
    fix m assume "m \<in> set (db_members ?d)"
    then have "m_channel m \<in> ch_id ` set (db_channels da) \<and> active_pk da (m_pubkey m)"
      using D(2,3) xin active_role_active [OF act] by (auto simp: ms')
    then show "(\<exists>m0 \<in> set (db_members da). m_channel m0 = m_channel m \<and> m_pubkey m0 = m_pubkey m)
      \<or> m_channel m \<in> ch_id ` set (db_channels da) \<and> active_pk da (m_pubkey m)" ..
  next
    fix k assume "k \<in> set (db_keys ?d)"
    then show "k \<in> set (db_keys da) \<or> (\<exists>c \<in> set (db_channels da). ch_id c = k_channel k \<and> k_epoch k \<le> ch_epoch c)"
      using ks c0 by (auto simp: insert_key_def insert_row_Inr intro!: bexI [of _ c0])
  next
    fix c assume c: "c \<in> set (db_channels da)" "ch_id c = ?x"
    then have "c = c0" using same_channel [OF oka c(1) c0(1)] c0 by simp
    then have e: "ch_epoch c = epoch" using c0 by simp
    have "channel_ok da ?x epoch" using D(5) [OF c0(1)] c0 by simp
    then show "channel_ok ?d ?x (ch_epoch c)"
      unfolding channel_ok_def enc e using mem [of ?x] hold [of ?x epoch] by (auto simp: rotation_pending_def)
  qed (simp_all add: mem hold enc rotation_pending_def)
  then show ?thesis by (simp add: d')
qed


lemma create_channel_Inr:
  assumes "create_channel P from_str now op keys d = Inr d'"
  obtains role da listed ms ks c0 j where
    "authorize P now op ''channel.create'' d = Inr (role, da)"
    "\<forall>pk \<in> fst ` set listed. \<exists>r. active_role da pk = Inr r"
    "keys \<noteq> [] \<longrightarrow> fst ` set keys = fst ` set (with_creator (o_actor op) listed)"
    "o_subject op \<notin> ch_id ` set (db_channels da)"
    "insert_members (o_subject op) (with_creator (o_actor op) listed) (db_members da) = Inr ms"
    "insert_keys (o_subject op) 0 (o_actor op) keys (db_keys da) = Inr ks"
    "ch_id c0 = o_subject op" "ch_epoch c0 = 0"
    "d' = append_event now (actor_hex op) ''channel.created'' (o_subject op) j
       (da \<lparr>db_channels := db_channels da @ [c0], db_members := ms, db_keys := ks\<rparr>)"
proof -
  obtain role da arg kind name parent listed ms ks where
    f: "authorize P now op ''channel.create'' d = Inr (role, da)"
      "listed_members da arg = Inr listed"
      "(if keys \<noteq> [] then check_cover keys (fst ` set (with_creator (o_actor op) listed)) ''keys must cover exactly the member set'' else Inr ()) = Inr ()"
      "\<not> list_ex (\<lambda>c. ch_id c = o_subject op) (db_channels da)"
      "insert_members (o_subject op) (with_creator (o_actor op) listed) (db_members da) = Inr ms"
      "insert_keys (o_subject op) 0 (o_actor op) keys (db_keys da) = Inr ks"
    and d': "d' = append_event now (actor_hex op) ''channel.created'' (o_subject op)
       (JObj [(''kind'', JStr kind), (''name'', JStr name), (''parent'', (case parent of None \<Rightarrow> JNull | Some p \<Rightarrow> JStr p)),
              (''members'', jint (int (length (with_creator (o_actor op) listed)))), (''encrypted'', JBool (keys \<noteq> []))])
       (da \<lparr>db_channels := db_channels da @ [\<lparr>ch_id = o_subject op, ch_kind = kind, ch_name = name, ch_parent = parent,
             ch_epoch = 0, ch_created = now\<rparr>], db_members := ms, db_keys := ks\<rparr>)"
    using assms unfolding create_channel_def Let_def by (auto simp: bind_result_Inr_iff ensure_Inr)
  have "\<forall>pk \<in> fst ` set listed. \<exists>r. active_role da pk = Inr r"
    using listed_members_Inr [OF f(2)] by blast
  moreover have "keys \<noteq> [] \<longrightarrow> fst ` set keys = fst ` set (with_creator (o_actor op) listed)"
    using f(3) check_cover_Inr by (simp split: if_splits)
  moreover have "o_subject op \<notin> ch_id ` set (db_channels da)" using f(4) by (auto simp: list_ex_iff)
  ultimately show thesis using that [OF f(1) _ _ _ f(5,6) _ _ d'] by simp
qed


lemma create_channel_ok:
  assumes ok: "channels_ok d" and c: "create_channel P from_str now op keys d = Inr d'"
  shows "channels_ok d'"
proof -
  obtain role da listed ms ks c0 j where
    au: "authorize P now op ''channel.create'' d = Inr (role, da)"
    and act: "\<forall>pk \<in> fst ` set listed. \<exists>r. active_role da pk = Inr r"
    and cover: "keys \<noteq> [] \<longrightarrow> fst ` set keys = fst ` set (with_creator (o_actor op) listed)"
    and new: "o_subject op \<notin> ch_id ` set (db_channels da)"
    and ms: "insert_members (o_subject op) (with_creator (o_actor op) listed) (db_members da) = Inr ms"
    and ks: "insert_keys (o_subject op) 0 (o_actor op) keys (db_keys da) = Inr ks"
    and c0: "ch_id c0 = o_subject op" "ch_epoch c0 = 0"
    and d': "d' = append_event now (actor_hex op) ''channel.created'' (o_subject op) j
       (da \<lparr>db_channels := db_channels da @ [c0], db_members := ms, db_keys := ks\<rparr>)"
    using c by (rule create_channel_Inr)
  let ?x = "o_subject op" and ?d = "da \<lparr>db_channels := db_channels da @ [c0], db_members := ms, db_keys := ks\<rparr>"
  have oka: "channels_ok da" using channels_ok_authorize [OF au] ok by simp
  note D = channels_okD [OF oka] and U = unknown_channel [OF oka new]
  note M = insert_members_Inr [OF ms] and K = insert_keys_Inr [OF ks]
  have "active_role da (o_actor op) = Inr role"
    using au active_role_cong [OF authorize_identities [OF au]] by (simp add: authorize_Inr)
  then have actives: "\<forall>pk \<in> fst ` set (with_creator (o_actor op) listed). active_pk da pk"
    using act active_role_active unfolding with_creator_set by blast
  obtain zs where zs: "ks = db_keys da @ zs" "length zs = length keys" using K by blast
  have rows: "m_channel m \<in> ch_id ` set (db_channels ?d) \<and> active_pk ?d (m_pubkey m)" if "m \<in> set ms" for m
  proof -
    have "m \<in> set (db_members da) \<or> m_channel m = ?x \<and> m_pubkey m \<in> fst ` set (with_creator (o_actor op) listed)"
      using M that by blast
    then have "m_channel m \<in> insert ?x (ch_id ` set (db_channels da)) \<and> active_pk da (m_pubkey m)"
      using D(2,3) actives by blast
    then show ?thesis using c0(1) active_pk_cong [of ?d da] by simp
  qed
  have keyrows: "\<exists>c \<in> set (db_channels ?d). ch_id c = k_channel k \<and> k_epoch k \<le> ch_epoch c" if "k \<in> set ks" for k
  proof -
    have "k \<in> set (db_keys da) \<or> k_channel k = ?x \<and> k_epoch k = 0" using K that by blast
    then show ?thesis using D(4) [of k] c0 by fastforce
  qed
  have chan: "channel_ok ?d (ch_id c) (ch_epoch c)" if "c \<in> set (db_channels da @ [c0])" for c
  proof (cases "c = c0")
    case True
    have "is_encrypted ?d ?x \<Longrightarrow> keys \<noteq> []" using U(3) zs by (auto simp: is_encrypted_def)
    then show ?thesis using True c0 M K U cover by (auto simp: channel_ok_def)
  next
    case False
    then have "c \<in> set (db_channels da)" using that by simp
    then have cc: "c \<in> set (db_channels da)" "ch_id c \<noteq> ?x" using new by (simp, metis imageI)
    have "\<forall>k \<in> set zs. k \<in> set (db_keys da) \<or> k_channel k = ?x" using K zs by auto
    then have "is_encrypted ?d (ch_id c) = is_encrypted da (ch_id c)"
      using zs cc(2) by (auto simp: is_encrypted_def list_ex_iff)
    then show ?thesis using channel_ok_cong [of ?d "ch_id c" da "ch_epoch c"] D(5) [OF cc(1)] M K cc(2)
      by (simp add: rotation_pending_def)
  qed
  have "channels_ok ?d"
    unfolding channels_ok_where_def using D(1) new c0(1) rows keyrows chan by simp
  then show ?thesis by (simp add: d')
qed

lemma rotate_channel_key_Inr:
  assumes "rotate_channel_key P from_str now op keys d = Inr (d', e')"
  obtains role da arg e d2 where
    "authorize P now op ''channel.rotate'' d = Inr (role, da)" "current_epoch da (o_subject op) = Inr e"
    "rotate_to P arg (o_actor op) (o_subject op) (e + 1) keys ''keys must cover exactly the member set'' da = Inr d2"
    "d' = append_event now (actor_hex op) ''channel.rotated'' (o_subject op) (JObj [(''epoch'', jint (e + 1))]) d2" "e' = e + 1"
  using assms unfolding rotate_channel_key_def Let_def by (auto simp: bind_result_Inr_iff)

lemma channels_ok_weaken: "channels_ok d \<Longrightarrow> channels_ok_where q d"
  by (auto simp: channels_ok_where_def)

lemma rotate_channel_key_ok:
  assumes ok: "channels_ok d" and r: "rotate_channel_key P from_str now op keys d = Inr (d', e')"
  shows "channels_ok d'"
proof -
  obtain role da arg e d2 where au: "authorize P now op ''channel.rotate'' d = Inr (role, da)"
    and e: "current_epoch da (o_subject op) = Inr e"
    and rt: "rotate_to P arg (o_actor op) (o_subject op) (e + 1) keys ''keys must cover exactly the member set'' da = Inr d2"
    and d': "d' = append_event now (actor_hex op) ''channel.rotated'' (o_subject op) (JObj [(''epoch'', jint (e + 1))]) d2"
    using r by (rule rotate_channel_key_Inr)
  have "channels_ok da" using channels_ok_authorize [OF au] ok by simp
  then show ?thesis using rotate_to_ok [OF channels_ok_weaken e rt] by (simp add: d')
qed

lemma set_channel_role_Inr:
  assumes "set_channel_role P from_str now op d = Inr d'"
  obtains role da target new_role j where "authorize P now op ''channel.role'' d = Inr (role, da)"
    "d' = da \<or> d' = append_event now (actor_hex op) ''channel.role_changed'' (o_subject op) j
         (da \<lparr>db_members := update_where (\<lambda>m. m_channel m = o_subject op \<and> m_pubkey m = target) (\<lambda>m. m \<lparr>m_role := new_role\<rparr>)
           (db_members da)\<rparr>)"
  using assms unfolding set_channel_role_def Let_def by (auto simp: bind_result_Inr_iff split: if_splits)

lemma members_of_role: "members_of (update_where p (\<lambda>m. m \<lparr>m_role := r\<rparr>) t) x = members_of t x"
proof (induction t)
  case (Cons m t)
  have "members_of (m # t) x = (if m_channel m = x then {m_pubkey m} else {}) \<union> members_of t x" for m t
    by (auto simp: members_of_def)
  then show ?case using Cons.IH by (simp add: update_where_def)
qed (simp add: update_where_def)

lemma set_channel_role_ok:
  assumes ok: "channels_ok d" and r: "set_channel_role P from_str now op d = Inr d'"
  shows "channels_ok d'"
proof -
  obtain role da target new_role j where au: "authorize P now op ''channel.role'' d = Inr (role, da)"
    and d': "d' = da \<or> d' = append_event now (actor_hex op) ''channel.role_changed'' (o_subject op) j
         (da \<lparr>db_members := update_where (\<lambda>m. m_channel m = o_subject op \<and> m_pubkey m = target) (\<lambda>m. m \<lparr>m_role := new_role\<rparr>)
           (db_members da)\<rparr>)"
    using r by (rule set_channel_role_Inr)
  let ?d = "da \<lparr>db_members := update_where (\<lambda>m. m_channel m = o_subject op \<and> m_pubkey m = target) (\<lambda>m. m \<lparr>m_role := new_role\<rparr>) (db_members da)\<rparr>"
  have oka: "channels_ok da" using channels_ok_authorize [OF au] ok by simp
  have "channels_ok ?d"
  proof (rule channels_ok_change [OF oka, where x = "o_subject op"])
    fix m assume "m \<in> set (db_members ?d)"
    then show "(\<exists>m0 \<in> set (db_members da). m_channel m0 = m_channel m \<and> m_pubkey m0 = m_pubkey m)
      \<or> m_channel m \<in> ch_id ` set (db_channels da) \<and> active_pk da (m_pubkey m)"
      by (auto simp: set_update_where)
  next
    fix c assume c: "c \<in> set (db_channels da)" "ch_id c = o_subject op"
    then show "channel_ok ?d (o_subject op) (ch_epoch c)"
      using channels_okD(5) [OF oka c(1)] channel_ok_cong [of ?d "o_subject op" da "ch_epoch c"]
      by (simp add: members_of_role is_encrypted_def rotation_pending_def)
  qed (simp_all add: members_of_role is_encrypted_def rotation_pending_def)
  then show ?thesis using d' oka by auto
qed


section \<open>Removal\<close>

lemma remove_member_Inr:
  assumes "remove_member P from_str now op keys d = Inr d'"
  obtains role da arg target e d3 e3 where "authorize P now op ''channel.remove'' d = Inr (role, da)"
    "current_epoch da (o_subject op) = Inr e" "drop_member P now arg op keys target e da = Inr (d3, e3)"
    "d' = append_event now (actor_hex op) ''channel.member_removed'' (o_subject op)
       (JObj [(''member'', JStr (hex target)), (''epoch'', jint e3)]) d3"
  using assms unfolding remove_member_def Let_def by (auto simp: bind_result_Inr_iff)

lemma members_of_delete:
  "members_of (delete_where (\<lambda>m. m_channel m = x \<and> m_pubkey m = t) ms) y = members_of ms y - (if y = x then {t} else {})"
  by (auto simp: members_of_def)

lemma rotation_pending_add:
  "rotation_pending (d \<lparr>db_rotation := add_rotation now reason (db_rotation d) x\<rparr>) y \<longleftrightarrow> y = x \<or> rotation_pending d y"
  by (auto simp: rotation_pending_def add_rotation_def insert_ignore_def list_ex_iff)

lemma drop_member_ok:
  assumes ok: "channels_ok d" and e: "current_epoch d (o_subject op) = Inr e"
    and r: "drop_member P now arg op keys target e d = Inr (d', e')"
  shows "channels_ok d'"
proof -
  let ?x = "o_subject op"
  let ?d1 = "d \<lparr>db_members := delete_where (\<lambda>m. m_channel m = ?x \<and> m_pubkey m = target) (db_members d)\<rparr>"
  have mem: "members_of (db_members ?d1) y = members_of (db_members d) y - (if y = ?x then {target} else {})" for y
    using members_of_delete by simp
  have step: "channels_ok_where q d2"
    if d2: "d2 = ?d1 \<lparr>db_rotation := rs\<rparr>" and rot: "\<And>y. y \<noteq> ?x \<Longrightarrow> rotation_pending d2 y = rotation_pending d y"
      and here: "\<And>c. c \<in> set (db_channels d) \<Longrightarrow> ch_id c = ?x \<Longrightarrow> q ?x \<Longrightarrow> channel_ok d2 ?x (ch_epoch c)" for q d2 rs
    by (rule channels_ok_change [OF ok, where x = ?x])
      (use mem d2 rot here in \<open>auto simp: is_encrypted_def\<close>)
  consider "\<not> is_encrypted d ?x" "d' = ?d1"
    | "d' = ?d1 \<lparr>db_rotation := add_rotation now (''left '' @ hex target) (db_rotation ?d1) ?x\<rparr>"
    | "rotate_to P arg (o_actor op) ?x (e + 1) keys ''keys must cover exactly the remaining members'' ?d1 = Inr d'"
    using r unfolding drop_member_def Let_def by (auto simp: bind_result_Inr_iff split: if_splits)
  then show ?thesis
  proof cases
    case 1
    then show ?thesis
      by (intro step [of _ "db_rotation d"]) (auto simp: rotation_pending_def channel_ok_def is_encrypted_def)
  next
    case 2
    have p: "rotation_pending d' y \<longleftrightarrow> y = ?x \<or> rotation_pending d y" for y
      unfolding 2 rotation_pending_add by (simp add: rotation_pending_def)
    have "channel_ok d' ?x (ch_epoch c)" if "c \<in> set (db_channels d)" "ch_id c = ?x" for c
      using channels_okD(5) [OF ok that(1)] that(2) p mem by (auto simp: channel_ok_def is_encrypted_def 2)
    then show ?thesis using p by (intro step [OF 2]) auto
  next
    case 3
    have "channels_ok_where (\<lambda>y. y \<noteq> ?x) ?d1"
      by (intro step [of _ "db_rotation d"]) (auto simp: rotation_pending_def)
    moreover have "current_epoch ?d1 ?x = Inr e" using e by (simp add: current_epoch_def)
    ultimately show ?thesis using 3 by (rule rotate_to_ok)
  qed
qed

lemma remove_member_ok:
  assumes ok: "channels_ok d" and r: "remove_member P from_str now op keys d = Inr d'"
  shows "channels_ok d'"
proof -
  obtain role da arg target e d3 e3 where au: "authorize P now op ''channel.remove'' d = Inr (role, da)"
    and e: "current_epoch da (o_subject op) = Inr e" and dm: "drop_member P now arg op keys target e da = Inr (d3, e3)"
    and d': "d' = append_event now (actor_hex op) ''channel.member_removed'' (o_subject op)
       (JObj [(''member'', JStr (hex target)), (''epoch'', jint e3)]) d3"
    using r by (rule remove_member_Inr)
  have "channels_ok da" using channels_ok_authorize [OF au] ok by simp
  then show ?thesis using drop_member_ok e dm by (simp add: d')
qed

section \<open>Changes of the identities\<close>

lemma channels_ok_identities:
  assumes ok: "channels_ok_where q d" and frame: "db_channels d' = db_channels d" "db_members d' = db_members d"
      "db_keys d' = db_keys d" "db_rotation d' = db_rotation d"
    and act: "\<And>pk. active_pk d pk \<Longrightarrow> active_pk d' pk"
  shows "channels_ok_where q d'"
proof -
  have "channel_ok d' x e = channel_ok d x e" for x e
    by (rule channel_ok_cong) (simp_all add: frame is_encrypted_def rotation_pending_def)
  then show ?thesis using ok act unfolding channels_ok_where_def by (simp add: frame)
qed

lemma active_in_append [simp]: "active_in (rows @ new) pk = (active_in rows pk \<or> active_in new pk)"
  by (auto simp: active_in_def)

lemma active_in_update:
  assumes "\<And>i. i_pubkey (f i) = i_pubkey i" "\<And>i. (i_revoked i \<longrightarrow> i_system i) \<Longrightarrow> (i_revoked (f i) \<longrightarrow> i_system (f i))"
    and "active_in rows pk"
  shows "active_in (update_where (\<lambda>i. p i) f rows) pk"
proof -
  obtain i where i: "i \<in> set rows" "i_pubkey i = pk" "i_revoked i \<longrightarrow> i_system i" using assms(3) by (auto simp: active_in_def)
  let ?j = "if p i then f i else i"
  have "?j \<in> set (update_where p f rows)" using i(1) by (simp add: update_where_def image_iff) blast
  moreover have "i_pubkey ?j = pk \<and> (i_revoked ?j \<longrightarrow> i_system ?j)" using i(2,3) assms(1,2) by simp
  ultimately show ?thesis unfolding active_in_def by blast
qed

lemma register_identity_channels: "channels_ok d \<Longrightarrow> channels_ok (register_identity now pk label d)"
  by (rule channels_ok_identities [of _ d]) (auto simp: register_identity_def insert_ignore_def)

lemma bootstrap_owner_channels: "channels_ok d \<Longrightarrow> bootstrap_owner now pk d = Inr d' \<Longrightarrow> channels_ok d'"
  by (rule channels_ok_identities [of _ d])
    (auto simp: bootstrap_owner_def Let_def intro!: active_in_update split: if_splits)

lemma active_replace: "active_in rows pk \<Longrightarrow> active_in (replace_system now new rows) pk"
proof -
  assume "active_in rows pk"
  let ?rows = "update_where (\<lambda>i. i_system i \<and> i_pubkey i \<noteq> new) (\<lambda>i. i \<lparr>i_revoked := True\<rparr>) rows"
  obtain i where i: "i \<in> set rows" "i_pubkey i = pk" "i_revoked i \<longrightarrow> i_system i"
    using \<open>active_in rows pk\<close> by (auto simp: active_in_def)
  let ?j = "if i_system i \<and> i_pubkey i \<noteq> new then i \<lparr>i_revoked := True\<rparr> else i"
  have "?j \<in> set ?rows" using i(1) by (simp add: update_where_def image_iff) blast
  moreover have "i_pubkey ?j = pk \<and> (i_revoked ?j \<longrightarrow> i_system ?j)" using i(2,3) by simp
  ultimately have "active_in ?rows pk" unfolding active_in_def by blast
  then show ?thesis unfolding replace_system_def upsert_system_def by (auto intro!: active_in_update)
qed

lemma register_system_channels: "channels_ok d \<Longrightarrow> register_system_identity now pk d = Inr d' \<Longrightarrow> channels_ok d'"
  by (rule channels_ok_identities [of _ d])
    (auto simp: register_system_identity_def Let_def active_replace split: if_splits option.splits)

lemma grant_role_frame:
  assumes "grant_role P now op d = Inr d'"
  shows "db_channels d' = db_channels d" "db_members d' = db_members d" "db_keys d' = db_keys d" "db_rotation d' = db_rotation d"
  using assms authorize_frame [of P now op "''role.grant''" d]
  by (auto simp: grant_role_def bind_result_Inr_iff)

lemma grant_role_channels:
  assumes ok: "channels_ok d" and g: "grant_role P now op d = Inr d'"
  shows "channels_ok d'"
proof -
  obtain target new where ids: "db_identities d' =
      update_where (\<lambda>i. i_pubkey i = target) (\<lambda>i. i \<lparr>i_role := role_as_str new\<rparr>) (db_identities d)"
    using g by (rule grant_role_Inr)
  show ?thesis by (rule channels_ok_identities [OF ok grant_role_frame [OF g]]) (simp add: ids active_in_update)
qed

lemma rotations_of:
  "x \<in> r_channel ` set (foldl (add_rotation now reason) rs xs) \<longleftrightarrow> x \<in> set xs \<or> x \<in> r_channel ` set rs"
proof (induction xs arbitrary: rs)
  case (Cons y xs)
  have "x \<in> r_channel ` set (add_rotation now reason rs y) \<longleftrightarrow> x = y \<or> x \<in> r_channel ` set rs"
    by (auto simp: add_rotation_def insert_ignore_def list_ex_iff)
  then show ?case using Cons.IH by auto
qed simp

lemma revoke_identity_channels:
  assumes ok: "channels_ok d" and r: "revoke_identity P now op d = Inr d'"
  shows "channels_ok d'"
proof -
  obtain target where
    ids: "db_identities d' = update_where (\<lambda>i. i_pubkey i = target) (\<lambda>i. i \<lparr>i_revoked := True\<rparr>) (db_identities d)"
    and mem: "db_members d' = delete_where (\<lambda>m. m_pubkey m = target) (db_members d)"
    and rot: "db_rotation d' = foldl (add_rotation now (''revoked '' @ hex target)) (db_rotation d)
       (filter (is_encrypted d) (channels_of d target))"
    and same: "db_channels d' = db_channels d" "db_keys d' = db_keys d"
    using r by (rule revoke_identity_Inr)
  note D = channels_okD [OF ok]
  have enc: "is_encrypted d' x = is_encrypted d x" for x by (simp add: is_encrypted_def same)
  have pend: "rotation_pending d' x \<longleftrightarrow> rotation_pending d x \<or> is_encrypted d x \<and> x \<in> set (channels_of d target)" for x
  proof -
    have p: "rotation_pending e x \<longleftrightarrow> x \<in> r_channel ` set (db_rotation e)" for e
      by (auto simp: rotation_pending_def list_ex_iff)
    show ?thesis unfolding p rot rotations_of by auto
  qed
  have left: "members_of (db_members d') x = members_of (db_members d) x - {target}" for x
    by (auto simp: members_of_def mem)
  have was: "target \<in> members_of (db_members d) x \<longleftrightarrow> x \<in> set (channels_of d target)" for x
    by (auto simp: members_of_def channels_of_def image_iff)
  have "channel_ok d' (ch_id c) (ch_epoch c)" if "c \<in> set (db_channels d)" for c
    using D(5) [OF that] was [of "ch_id c"] unfolding channel_ok_def enc pend left same by auto
  moreover have "active_pk d' (m_pubkey m)" if m: "m \<in> set (db_members d')" for m
  proof -
    have "active_pk d (m_pubkey m)" "m_pubkey m \<noteq> target" using D(3) m by (auto simp: mem)
    then obtain i where "i \<in> set (db_identities d)" "i_pubkey i = m_pubkey m" "i_revoked i \<longrightarrow> i_system i" "i_pubkey i \<noteq> target"
      by (auto simp: active_in_def)
    then show ?thesis unfolding active_in_def ids by (intro bexI [of _ i]) (auto simp: set_update_where)
  qed
  moreover have "m_channel m \<in> ch_id ` set (db_channels d)" if "m \<in> set (db_members d')" for m
    using D(2) that by (simp add: mem)
  ultimately show ?thesis using D(1,4) unfolding channels_ok_where_def same by blast
qed

section \<open>Removing a reader\<close>


text \<open>A sample channel of two members, encrypted, and the removal of one.\<close>

definition sample_channel_db :: db where
  "sample_channel_db = sample_owner_db \<lparr>
     db_channels := [\<lparr>ch_id = ''c'', ch_kind = ''group'', ch_name = [], ch_parent = None, ch_epoch = 0, ch_created = 1000\<rparr>],
     db_members := [\<lparr>m_channel = ''c'', m_pubkey = sample_key CHR ''o'', m_role = ''admin''\<rparr>,
                    \<lparr>m_channel = ''c'', m_pubkey = sample_key CHR ''w'', m_role = ''member''\<rparr>],
     db_keys := map (\<lambda>pk. \<lparr>k_channel = ''c'', k_epoch = 0, k_member = pk, k_wrapped = [], k_wrapper = Some pk\<rparr>)
       [sample_key CHR ''o'', sample_key CHR ''w'']\<rparr>"

definition sample_removal_arg :: "string \<Rightarrow> json option" where
  "sample_removal_arg _ = Some (JObj [(''pk'', JStr (hex (sample_key CHR ''w''))),
     (''keys'', JStr (keys_digest toy_primitives 1 [(sample_key CHR ''o'', replicate 72 CHR ''k'')]))])"

lemma sample_channel_ok: "channels_ok sample_channel_db"
  by code_simp


section \<open>The channel operations are signed operations\<close>

interpretation create: signed_operation P "''channel.create''" "\<lambda>now op d. create_channel P from_str now op keys d" "\<lambda>d. d"
  for P from_str keys
proof
  fix now op d d'
  assume "create_channel P from_str now op keys d = Inr d'"
  then show "\<exists>role da. authorize P now op ''channel.create'' d = Inr (role, da) \<and> db_nonces d' = db_nonces da"
    by (rule create_channel_Inr) auto
qed

interpretation add: signed_operation P "''channel.add''" "\<lambda>now op d. add_member P from_str now op wrapped d" "\<lambda>d. d"
  for P from_str wrapped
proof
  fix now op d d'
  assume "add_member P from_str now op wrapped d = Inr d'"
  then show "\<exists>role da. authorize P now op ''channel.add'' d = Inr (role, da) \<and> db_nonces d' = db_nonces da"
    by (rule add_member_Inr) auto
qed

interpretation set_role: signed_operation P "''channel.role''" "\<lambda>now op d. set_channel_role P from_str now op d" "\<lambda>d. d"
  for P from_str
proof
  fix now op d d'
  assume "set_channel_role P from_str now op d = Inr d'"
  then show "\<exists>role da. authorize P now op ''channel.role'' d = Inr (role, da) \<and> db_nonces d' = db_nonces da"
    by (rule set_channel_role_Inr) auto
qed

interpretation rotate: signed_operation P "''channel.rotate''" "\<lambda>now op d. rotate_channel_key P from_str now op keys d" fst
  for P from_str keys
proof
  fix now op d and r :: "db \<times> int"
  assume "rotate_channel_key P from_str now op keys d = Inr r"
  then have "rotate_channel_key P from_str now op keys d = Inr (fst r, snd r)" by simp
  then show "\<exists>role da. authorize P now op ''channel.rotate'' d = Inr (role, da) \<and> db_nonces (fst r) = db_nonces da"
    by (rule rotate_channel_key_Inr) (use rotate_to_Inr(4) in auto)
qed

lemma drop_member_frame:
  assumes "drop_member P now arg op keys target e d = Inr (d', e')"
  shows "db_nonces d' = db_nonces d" "db_identities d' = db_identities d"
  using assms unfolding drop_member_def Let_def
  by (auto simp: bind_result_Inr_iff rotate_to_Inr(3,4) split: if_splits dest: rotate_to_Inr(3,4))

interpretation remove: signed_operation P "''channel.remove''" "\<lambda>now op d. remove_member P from_str now op keys d" "\<lambda>d. d"
  for P from_str keys
proof
  fix now op d d'
  assume "remove_member P from_str now op keys d = Inr d'"
  then show "\<exists>role da. authorize P now op ''channel.remove'' d = Inr (role, da) \<and> db_nonces d' = db_nonces da"
    by (rule remove_member_Inr) (auto simp: drop_member_frame)
qed

text \<open>None of them touches the identities.\<close>

lemma channel_ops_identities:
  "create_channel P from_str now op keys d = Inr d' \<Longrightarrow> db_identities d' = db_identities d"
  "add_member P from_str now op wrapped d = Inr d' \<Longrightarrow> db_identities d' = db_identities d"
  "remove_member P from_str now op keys d = Inr d' \<Longrightarrow> db_identities d' = db_identities d"
  "set_channel_role P from_str now op d = Inr d' \<Longrightarrow> db_identities d' = db_identities d"
  "rotate_channel_key P from_str now op keys d = Inr (d', e) \<Longrightarrow> db_identities d' = db_identities d"
proof -
  show "db_identities d' = db_identities d" if "create_channel P from_str now op keys d = Inr d'"
    using that by (rule create_channel_Inr) (use authorize_identities in auto)
  show "db_identities d' = db_identities d" if "add_member P from_str now op wrapped d = Inr d'"
    using that by (rule add_member_Inr) (use authorize_identities in auto)
  show "db_identities d' = db_identities d" if "remove_member P from_str now op keys d = Inr d'"
    using that by (rule remove_member_Inr) (auto simp: drop_member_frame dest: authorize_identities)
  show "db_identities d' = db_identities d" if "set_channel_role P from_str now op d = Inr d'"
    using that by (rule set_channel_role_Inr) (use authorize_identities in auto)
  show "db_identities d' = db_identities d" if "rotate_channel_key P from_str now op keys d = Inr (d', e)"
    using that by (rule rotate_channel_key_Inr) (use rotate_to_Inr(3) authorize_identities in auto)
qed

end
