(* ===== verification/Messages.thy ===== *)
theory Messages
  imports Channels "HOL-Library.AList"
begin

text \<open>
  Blobs, signed messages, channel reads, the inbox and read cursors (\<open>crates/agora-store/src/messages.rs\<close>).
  The blob directory is a map from hashes to file contents, absent for a store without one; a failed write aborts
  before any row is written and is not modelled. The content hash is the parameter \<open>pr_hash\<close>.
\<close>

section \<open>Definitions\<close>

definition MAX_PAGE :: int where "MAX_PAGE = 500"
definition MAX_BLOB :: int where "MAX_BLOB = 16 * 1024 * 1024"
definition MAX_BODY :: int where "MAX_BODY = 256 * 1024"
definition SPILL_THRESHOLD :: int where "SPILL_THRESHOLD = 1024 * 1024"
definition MAX_ID_LEN :: int where "MAX_ID_LEN = 256"
definition MAX_ATTACHMENTS :: int where "MAX_ATTACHMENTS = 32"
definition MAX_ATTACHMENT_FIELD :: int where "MAX_ATTACHMENT_FIELD = 255"
definition MIN_ENCRYPTED_BODY :: int where "MIN_ENCRYPTED_BODY = 24 + 16"

abbreviation len :: "'a list \<Rightarrow> int" where
  "len xs \<equiv> int (length xs)"

subsection \<open>Messages\<close>

record attachment =
  a_hash :: string
  a_name :: string
  a_mime :: string

record signed_message =
  sm_id :: string
  sm_channel :: string
  sm_thread_of :: "string option"
  sm_sender :: string
  sm_ts :: int
  sm_encrypted :: bool
  sm_epoch :: int
  sm_body :: string
  sm_attachments :: "attachment list"
  sm_sig :: string

definition message_signing_bytes :: "signed_message \<Rightarrow> string" where
  "message_signing_bytes m =
     canonical ''msg/v2''
       [sm_id m, sm_channel m, (case sm_thread_of m of None \<Rightarrow> [] | Some t \<Rightarrow> t), sm_sender m, le_bytes 8 (sm_ts m),
        [int_char (if sm_encrypted m then 1 else 0)], le_bytes 8 (sm_epoch m), sm_body m,
        concat (map (\<lambda>a. canonical ''att'' [a_hash a, a_name a, a_mime a]) (sm_attachments m))]"

definition verify_message :: "primitives \<Rightarrow> signed_message \<Rightarrow> unit tx" where
  "verify_message P m =
     (case verify P (sm_sender m) (message_signing_bytes m) (sm_sig m) of Inl e \<Rightarrow> Inl (Crypto e) | Inr u \<Rightarrow> Inr u)"

text \<open>A message as a read returns it.\<close>

record message_view =
  mv_seq :: int
  mv_id :: string
  mv_sender :: string
  mv_body :: string
  mv_encrypted :: bool
  mv_epoch :: int
  mv_channel :: string
  mv_thread_of :: "string option"
  mv_ts :: int
  mv_attachments :: "attachment list"
  mv_sig :: string

definition to_signed :: "message_view \<Rightarrow> signed_message" where
  "to_signed v = \<lparr>sm_id = mv_id v, sm_channel = mv_channel v, sm_thread_of = mv_thread_of v, sm_sender = mv_sender v,
     sm_ts = mv_ts v, sm_encrypted = mv_encrypted v, sm_epoch = mv_epoch v, sm_body = mv_body v,
     sm_attachments = mv_attachments v, sm_sig = mv_sig v\<rparr>"

definition is_content_hash :: "string \<Rightarrow> bool" where
  "is_content_hash h = (length h = 64 \<and> list_all is_hex h)"

fun check_attachments :: "attachment list \<Rightarrow> string list \<Rightarrow> unit tx" where
  "check_attachments [] seen = Inr ()"
| "check_attachments (a # as) seen =
     (if \<not> is_content_hash (a_hash a) then Inl (Invalid ''attachment hash must be 64 lowercase hex chars'')
      else if MAX_ATTACHMENT_FIELD < len (a_name a) then Inl (Invalid ''attachment name too long'')
      else if MAX_ATTACHMENT_FIELD < len (a_mime a) then Inl (Invalid ''attachment mime too long'')
      else if a_hash a \<in> set seen then Inl (Invalid ''duplicate attachment in message'')
      else check_attachments as (a_hash a # seen))"

text \<open>What is checked before the transaction opens.\<close>

definition check_message :: "primitives \<Rightarrow> int \<Rightarrow> signed_message \<Rightarrow> unit tx" where
  "check_message P now m =
     bind_result (ensure (1 \<le> len (sm_id m) \<and> len (sm_id m) \<le> MAX_ID_LEN) (Invalid ''message id must be 1 to 256 bytes'')) (\<lambda>_.
     bind_result (ensure (\<not> MAX_ID_LEN < len (sm_channel m)) (Invalid ''channel id too long'')) (\<lambda>_.
     bind_result (ensure (\<not> (case sm_thread_of m of None \<Rightarrow> False | Some t \<Rightarrow> MAX_ID_LEN < len t)) (Invalid ''thread id too long'')) (\<lambda>_.
     bind_result (ensure (\<not> MAX_ATTACHMENTS < len (sm_attachments m)) (Invalid ''too many attachments'')) (\<lambda>_.
     bind_result (check_attachments (sm_attachments m) []) (\<lambda>_.
     bind_result (ensure (\<not> (sm_encrypted m \<and> len (sm_body m) < MIN_ENCRYPTED_BODY)) (Invalid ''encrypted body too short'')) (\<lambda>_.
     bind_result (ensure (\<not> MAX_BODY < len (sm_body m)) (Invalid ''body too large'')) (\<lambda>_.
     bind_result (check_clock now (sm_ts m)) (\<lambda>_.
     verify_message P m))))))))"

text \<open>The epoch rule: encrypted channels take messages of the current epoch, plain ones take epoch 0.\<close>

definition check_epoch :: "db \<Rightarrow> signed_message \<Rightarrow> int \<Rightarrow> unit tx" where
  "check_epoch d m epoch =
     (if is_encrypted d (sm_channel m) then
        bind_result (ensure (sm_encrypted m) (Invalid ''plaintext message in encrypted channel'')) (\<lambda>_.
        ensure (sm_epoch m = epoch) (Invalid ''stale or future key epoch''))
      else
        bind_result (ensure (\<not> sm_encrypted m) (Invalid ''encrypted message in unencrypted channel'')) (\<lambda>_.
        ensure (sm_epoch m = 0) (Invalid ''epoch must be 0 in unencrypted channel'')))"

text \<open>\<open>COALESCE(MAX(seq),0)\<close>\<close>

definition max_seq :: "message_row list \<Rightarrow> int" where
  "max_seq t = (case map ms_seq t of [] \<Rightarrow> 0 | x # xs \<Rightarrow> foldl max x xs)"

definition next_seq :: "message_row list \<Rightarrow> int" where
  "next_seq t = max_seq t + 1"

definition row_of :: "signed_message \<Rightarrow> int \<Rightarrow> message_row" where
  "row_of m seq = \<lparr>ms_id = sm_id m, ms_seq = seq, ms_channel = sm_channel m, ms_thread_of = sm_thread_of m,
     ms_sender = sm_sender m, ms_ts = sm_ts m, ms_encrypted = sm_encrypted m, ms_epoch = sm_epoch m, ms_body = sm_body m,
     ms_sig = sm_sig m\<rparr>"

definition attachment_rows :: "signed_message \<Rightarrow> attachment_row list" where
  "attachment_rows m = map (\<lambda>a. \<lparr>at_message = sm_id m, at_hash = a_hash a, at_name = a_name a, at_mime = a_mime a\<rparr>) (sm_attachments m)"

definition post_message :: "primitives \<Rightarrow> int \<Rightarrow> signed_message \<Rightarrow> db \<Rightarrow> (db \<times> int) tx" where
  "post_message P now m d =
     bind_result (check_message P now m) (\<lambda>_.
     bind_result (active_role d (sm_sender m)) (\<lambda>role.
     bind_result (need role Worker) (\<lambda>_.
     bind_result (ensure (is_member d (sm_channel m) (sm_sender m)) (NotMember (sm_channel m))) (\<lambda>_.
     bind_result (ensure (\<not> rotation_pending d (sm_channel m)) (Invalid ''channel key rotation pending'')) (\<lambda>_.
     bind_result (ensure (\<not> list_ex (\<lambda>r. ms_id r = sm_id m) (db_messages d)) (Invalid ''message id already exists'')) (\<lambda>_.
     bind_result (current_epoch d (sm_channel m)) (\<lambda>epoch.
     bind_result (check_epoch d m epoch) (\<lambda>_.
     bind_result (ensure (case sm_thread_of m of None \<Rightarrow> True
         | Some parent \<Rightarrow> list_ex (\<lambda>r. ms_id r = parent \<and> ms_channel r = sm_channel m) (db_messages d))
       (Invalid ''thread parent not in this channel'')) (\<lambda>_.
     bind_result (ensure (list_all (\<lambda>a. list_ex (\<lambda>b. b_hash b = a_hash a) (db_blobs d)) (sm_attachments m))
       (Invalid ''attachment blob missing'')) (\<lambda>_.
     let seq = next_seq (db_messages d) in
     Inr (append_event now (hex (sm_sender m)) ''message.posted'' (sm_id m)
            (JObj [(''channel'', JStr (sm_channel m)), (''seq'', jint seq)])
            (d \<lparr>db_messages := db_messages d @ [row_of m seq], db_attachments := db_attachments d @ attachment_rows m\<rparr>),
          seq)))))))))))"

subsection \<open>Reads\<close>

definition attachments_of :: "db \<Rightarrow> string \<Rightarrow> attachment list" where
  "attachments_of d message =
     map (\<lambda>a. \<lparr>a_hash = at_hash a, a_name = at_name a, a_mime = at_mime a\<rparr>) (filter (\<lambda>a. at_message a = message) (db_attachments d))"

definition read_message :: "db \<Rightarrow> message_row \<Rightarrow> message_view tx" where
  "read_message d r =
     bind_result (ensure (length (ms_sender r) = 32) (Sql ''sender must be 32 bytes'')) (\<lambda>_.
     Inr \<lparr>mv_seq = ms_seq r, mv_id = ms_id r, mv_sender = ms_sender r, mv_body = ms_body r, mv_encrypted = ms_encrypted r,
       mv_epoch = ms_epoch r, mv_channel = ms_channel r, mv_thread_of = ms_thread_of r, mv_ts = ms_ts r,
       mv_attachments = attachments_of d (ms_id r), mv_sig = ms_sig r\<rparr>)"

fun read_messages :: "db \<Rightarrow> message_row list \<Rightarrow> message_view list tx" where
  "read_messages d [] = Inr []"
| "read_messages d (r # rs) = bind_result (read_message d r) (\<lambda>v. bind_result (read_messages d rs) (\<lambda>vs. Inr (v # vs)))"

text \<open>\<open>ORDER BY seq LIMIT n\<close>, the limit clamped to a page.\<close>

definition page :: "int \<Rightarrow> message_row list \<Rightarrow> message_row list" where
  "page limit rows = take (nat (min MAX_PAGE (max 0 limit))) (sort_by (\<lambda>a b. cmp (ms_seq a) (ms_seq b)) rows)"

definition read_channel :: "string \<Rightarrow> string \<Rightarrow> int \<Rightarrow> int \<Rightarrow> db \<Rightarrow> message_view list tx" where
  "read_channel reader channel cursor limit d =
     bind_result (active_role d reader) (\<lambda>_.
     bind_result (ensure (is_member d channel reader) (NotMember channel)) (\<lambda>_.
     read_messages d (page limit (filter (\<lambda>r. ms_channel r = channel \<and> cursor < ms_seq r) (db_messages d)))))"

definition read_channel_any :: "string \<Rightarrow> string \<Rightarrow> int \<Rightarrow> int \<Rightarrow> db \<Rightarrow> message_view list tx" where
  "read_channel_any reader channel cursor limit d =
     bind_result (active_role d reader) (\<lambda>role.
     bind_result (need role Supervisor) (\<lambda>_.
     read_messages d (page limit (filter (\<lambda>r. ms_channel r = channel \<and> cursor < ms_seq r) (db_messages d)))))"

definition acked_of :: "db \<Rightarrow> string \<Rightarrow> string \<Rightarrow> int" where
  "acked_of d reader channel =
     (case find (\<lambda>c. cu_reader c = reader \<and> cu_channel c = channel) (db_cursors d) of None \<Rightarrow> 0 | Some c \<Rightarrow> cu_acked c)"

text \<open>The rows of the join: members and cursors have at most one row per channel and reader.\<close>

definition unread :: "db \<Rightarrow> string \<Rightarrow> message_row \<Rightarrow> bool" where
  "unread d reader r =
     (is_member d (ms_channel r) reader \<and> acked_of d reader (ms_channel r) < ms_seq r \<and> ms_sender r \<noteq> reader)"

definition inbox_after :: "string \<Rightarrow> int \<Rightarrow> int \<Rightarrow> db \<Rightarrow> (string \<times> message_view) list tx" where
  "inbox_after reader after limit d =
     bind_result (active_role d reader) (\<lambda>_.
     bind_result (read_messages d (page limit (filter (\<lambda>r. unread d reader r \<and> after < ms_seq r) (db_messages d)))) (\<lambda>vs.
     Inr (map (\<lambda>v. (mv_channel v, v)) vs)))"

definition inbox :: "string \<Rightarrow> int \<Rightarrow> db \<Rightarrow> (string \<times> message_view) list tx" where
  "inbox reader limit d = inbox_after reader 0 limit d"

definition channel_head :: "db \<Rightarrow> string \<Rightarrow> int" where
  "channel_head d channel = max_seq (filter (\<lambda>r. ms_channel r = channel) (db_messages d))"

definition upsert_cursor :: "string \<Rightarrow> string \<Rightarrow> int \<Rightarrow> cursor_row list \<Rightarrow> cursor_row list" where
  "upsert_cursor reader channel seq t =
     (if list_ex (\<lambda>c. cu_reader c = reader \<and> cu_channel c = channel) t
      then update_where (\<lambda>c. cu_reader c = reader \<and> cu_channel c = channel) (\<lambda>c. c \<lparr>cu_acked := max (cu_acked c) seq\<rparr>) t
      else t @ [\<lparr>cu_reader = reader, cu_channel = channel, cu_acked = seq\<rparr>])"

definition ack :: "string \<Rightarrow> string \<Rightarrow> int \<Rightarrow> db \<Rightarrow> (db \<times> int) tx" where
  "ack reader channel seq d =
     bind_result (active_role d reader) (\<lambda>_.
     bind_result (ensure (is_member d channel reader) (NotMember channel)) (\<lambda>_.
     let d' = d \<lparr>db_cursors := upsert_cursor reader channel (min (channel_head d channel) (max 0 seq)) (db_cursors d)\<rparr>
     in Inr (d', acked_of d' reader channel)))"

subsection \<open>Blobs\<close>

text \<open>The blob directory, if the store has one, as its files by hash.\<close>

type_synonym blob_dir = "(string \<times> string) list option"

definition usage_of :: "db \<Rightarrow> string \<Rightarrow> int" where
  "usage_of d uploader = sum_list (map u_size (filter (\<lambda>u. u_uploader u = uploader) (db_uploads d)))"

definition charged_to :: "db \<Rightarrow> string \<Rightarrow> string \<Rightarrow> bool" where
  "charged_to d uploader h = list_ex (\<lambda>u. u_uploader u = uploader \<and> u_hash u = h) (db_uploads d)"

definition spill_bytes :: "primitives \<Rightarrow> (string \<times> string) list \<Rightarrow> string \<Rightarrow> string \<Rightarrow> (string \<times> string) list tx" where
  "spill_bytes P files h bytes =
     bind_result (ensure (is_content_hash h) (Invalid ''blob hash malformed'')) (\<lambda>_.
     Inr (case map_of files h of
            Some existing \<Rightarrow> if pr_hash P existing = h then files else AList.update h bytes files
          | None \<Rightarrow> AList.update h bytes files))"

definition ensure_blob_file :: "primitives \<Rightarrow> db \<Rightarrow> blob_dir \<Rightarrow> string \<Rightarrow> string \<Rightarrow> (blob_dir \<times> bool) tx" where
  "ensure_blob_file P d dir h bytes =
     (case (map_option b_spilled (find (\<lambda>b. b_hash b = h) (db_blobs d)), dir) of
        (Some False, _) \<Rightarrow> Inr (dir, False)
      | (Some True, None) \<Rightarrow> Inr (dir, True)
      | (Some True, Some files) \<Rightarrow> bind_result (spill_bytes P files h bytes) (\<lambda>f. Inr (Some f, True))
      | (None, Some files) \<Rightarrow>
          if SPILL_THRESHOLD < len bytes then bind_result (spill_bytes P files h bytes) (\<lambda>f. Inr (Some f, True))
          else Inr (dir, False)
      | (None, None) \<Rightarrow> Inr (dir, False))"

definition insert_blob_row :: "string \<Rightarrow> string \<Rightarrow> bool \<Rightarrow> blob_row list \<Rightarrow> blob_row list" where
  "insert_blob_row h bytes spilled t =
     fst (insert_ignore b_hash \<lparr>b_hash = h, b_size = len bytes, b_bytes = (if spilled then [] else bytes), b_spilled = spilled\<rparr> t)"

definition put_blob :: "primitives \<Rightarrow> string \<Rightarrow> db \<Rightarrow> blob_dir \<Rightarrow> (db \<times> blob_dir \<times> string) tx" where
  "put_blob P bytes d dir =
     bind_result (ensure (\<not> MAX_BLOB < len bytes) (Invalid ''blob too large'')) (\<lambda>_.
     let h = pr_hash P bytes in
     bind_result (ensure_blob_file P d dir h bytes) (\<lambda>(dir', spilled).
     Inr (d \<lparr>db_blobs := insert_blob_row h bytes spilled (db_blobs d)\<rparr>, dir', h)))"

definition check_quota :: "db \<Rightarrow> string \<Rightarrow> string \<Rightarrow> int \<Rightarrow> int \<Rightarrow> unit tx" where
  "check_quota d uploader h sz quota =
     ensure (charged_to d uploader h \<or> \<not> quota < sat_i64 (usage_of d uploader + sz)) (Invalid ''blob quota exceeded'')"

definition put_blob_for ::
  "primitives \<Rightarrow> int \<Rightarrow> string \<Rightarrow> string \<Rightarrow> int \<Rightarrow> int \<Rightarrow> db \<Rightarrow> blob_dir \<Rightarrow> (db \<times> blob_dir \<times> string) tx" where
  "put_blob_for P now uploader bytes max_len quota d dir =
     bind_result (ensure (\<not> min max_len MAX_BLOB < len bytes) (Invalid ''blob too large'')) (\<lambda>_.
     bind_result (active_role d uploader) (\<lambda>role.
     bind_result (need role Worker) (\<lambda>_.
     let h = pr_hash P bytes in
     bind_result (check_quota d uploader h (len bytes) quota) (\<lambda>_.
     bind_result (ensure_blob_file P d dir h bytes) (\<lambda>(dir', spilled).
     Inr (if charged_to d uploader h then d
          else d \<lparr>db_blobs := insert_blob_row h bytes spilled (db_blobs d),
                  db_uploads := db_uploads d @ [\<lparr>u_uploader = uploader, u_hash = h, u_size = len bytes, u_ts = now\<rparr>]\<rparr>,
          dir', h))))))"

definition get_blob :: "primitives \<Rightarrow> string \<Rightarrow> db \<Rightarrow> blob_dir \<Rightarrow> string option tx" where
  "get_blob P h d dir =
     (case find (\<lambda>b. b_hash b = h) (db_blobs d) of
        None \<Rightarrow> Inr None
      | Some b \<Rightarrow>
          bind_result
            (if b_spilled b then
               bind_result (ok_or dir (Invalid ''blob file missing'')) (\<lambda>files.
               bind_result (ensure (is_content_hash h) (Invalid ''blob hash malformed'')) (\<lambda>_.
               ok_or (map_of files h) (Invalid ''blob file missing'')))
             else Inr (b_bytes b)) (\<lambda>bytes.
          bind_result (ensure (pr_hash P bytes = h) (Invalid ''blob file corrupt'')) (\<lambda>_.
          Inr (Some bytes))))"

section \<open>Sequence numbers\<close>

lemma foldl_max: "foldl max (x :: int) xs = Max (set (x # xs))"
proof (induction xs arbitrary: x)
  case (Cons y xs)
  have "foldl max x (y # xs) = Max (insert (max x y) (set xs))" using Cons.IH [of "max x y"] by simp
  then show ?case by (cases "xs = []") (simp_all add: Max.insert ac_simps)
qed simp

lemma max_seq_ge: "r \<in> set t \<Longrightarrow> ms_seq r \<le> max_seq t"
proof (cases t)
  case (Cons a u)
  assume "r \<in> set t"
  then have "ms_seq r \<in> set (ms_seq a # map ms_seq u)" by (auto simp: Cons)
  then show ?thesis unfolding max_seq_def Cons list.map list.case foldl_max by (intro Max_ge) auto
qed simp

lemma max_seq_in: "t \<noteq> [] \<Longrightarrow> \<exists>r \<in> set t. max_seq t = ms_seq r"
proof (cases t)
  case (Cons a u)
  have "max_seq t \<in> set (ms_seq a # map ms_seq u)" unfolding max_seq_def Cons list.map list.case foldl_max by (rule Max_in) auto
  then show ?thesis by (auto simp: Cons)
qed simp

lemma next_seq_greater: "r \<in> set t \<Longrightarrow> ms_seq r < next_seq t"
  using max_seq_ge by (fastforce simp: next_seq_def)

lemma next_seq_pos: "\<forall>r \<in> set t. 1 \<le> ms_seq r \<Longrightarrow> 1 \<le> next_seq t"
  using max_seq_in [of t] by (cases "t = []") (auto simp: next_seq_def max_seq_def)

lemma channel_head_ge: "r \<in> set (db_messages d) \<Longrightarrow> ms_channel r = x \<Longrightarrow> ms_seq r \<le> channel_head d x"
  unfolding channel_head_def by (rule max_seq_ge) simp

lemma channel_head_cases: "channel_head d x = 0 \<or> (\<exists>r \<in> set (db_messages d). ms_channel r = x \<and> channel_head d x = ms_seq r)"
proof (cases "filter (\<lambda>r. ms_channel r = x) (db_messages d) = []")
  case False
  from max_seq_in [OF this] show ?thesis unfolding channel_head_def by auto
qed (simp add: channel_head_def max_seq_def)

lemma channel_head_nonneg: "\<forall>r \<in> set (db_messages d). 1 \<le> ms_seq r \<Longrightarrow> 0 \<le> channel_head d x"
  using channel_head_cases [of d x] by auto

lemma sort_by_seq: "sorted_wrt (\<lambda>a b. ms_seq a < ms_seq b) t \<Longrightarrow> sort_by (\<lambda>a b. cmp (ms_seq a) (ms_seq b)) t = t"
proof (induction t)
  case (Cons r t)
  then show ?case by (cases t) (auto simp: cmp_def)
qed simp

section \<open>The invariant\<close>

text \<open>
  Sequence numbers grow along the table and start at 1, ids are unique, replies point to an earlier message of the
  channel, attachments to stored blobs, and a cursor never passes the last message of its channel.
\<close>

definition cursor_id :: "cursor_row \<Rightarrow> string \<times> string" where
  "cursor_id c = (cu_reader c, cu_channel c)"

definition thread_ok :: "message_row list \<Rightarrow> message_row \<Rightarrow> bool" where
  "thread_ok t r = (case ms_thread_of r of None \<Rightarrow> True
     | Some p \<Rightarrow> \<exists>q \<in> set t. ms_id q = p \<and> ms_channel q = ms_channel r \<and> ms_seq q < ms_seq r)"

definition messages_ok :: "db \<Rightarrow> bool" where
  "messages_ok d =
     (sorted_wrt (\<lambda>a b. ms_seq a < ms_seq b) (db_messages d) \<and> distinct (map ms_id (db_messages d))
      \<and> (\<forall>r \<in> set (db_messages d). 1 \<le> ms_seq r \<and> ms_channel r \<in> ch_id ` set (db_channels d) \<and> thread_ok (db_messages d) r)
      \<and> (\<forall>a \<in> set (db_attachments d). at_message a \<in> ms_id ` set (db_messages d) \<and> at_hash a \<in> b_hash ` set (db_blobs d))
      \<and> distinct (map cursor_id (db_cursors d))
      \<and> (\<forall>c \<in> set (db_cursors d). 0 \<le> cu_acked c \<and> cu_acked c \<le> channel_head d (cu_channel c)))"

lemma messages_okD:
  assumes "messages_ok d"
  shows "sorted_wrt (\<lambda>a b. ms_seq a < ms_seq b) (db_messages d)" "distinct (map ms_id (db_messages d))"
    "\<And>r. r \<in> set (db_messages d) \<Longrightarrow> 1 \<le> ms_seq r"
    "\<And>r. r \<in> set (db_messages d) \<Longrightarrow> ms_channel r \<in> ch_id ` set (db_channels d)"
    "\<And>r. r \<in> set (db_messages d) \<Longrightarrow> thread_ok (db_messages d) r"
    "\<And>a. a \<in> set (db_attachments d) \<Longrightarrow> at_message a \<in> ms_id ` set (db_messages d)"
    "\<And>a. a \<in> set (db_attachments d) \<Longrightarrow> at_hash a \<in> b_hash ` set (db_blobs d)"
    "distinct (map cursor_id (db_cursors d))"
    "\<And>c. c \<in> set (db_cursors d) \<Longrightarrow> 0 \<le> cu_acked c \<and> cu_acked c \<le> channel_head d (cu_channel c)"
  using assms unfolding messages_ok_def by blast+

lemma messages_ok_frame:
  assumes "messages_ok d" "db_messages d' = db_messages d" "db_attachments d' = db_attachments d" "db_cursors d' = db_cursors d"
    "ch_id ` set (db_channels d) \<subseteq> ch_id ` set (db_channels d')" "b_hash ` set (db_blobs d) \<subseteq> b_hash ` set (db_blobs d')"
  shows "messages_ok d'"
proof -
  have "channel_head d' x = channel_head d x" for x by (simp add: channel_head_def assms(2))
  then show ?thesis using assms(1) assms(5,6) unfolding messages_ok_def assms(2-4) by (simp add: subset_iff)
qed

lemma messages_ok_append [simp]: "messages_ok (append_event now a k s j d) = messages_ok d"
  using messages_ok_frame [of d "append_event now a k s j d"] messages_ok_frame [of "append_event now a k s j d" d] by auto

section \<open>Posting\<close>

lemma post_message_Inr:
  assumes "post_message P now m d = Inr (d', seq)"
  obtains role e where "check_message P now m = Inr ()" "active_role d (sm_sender m) = Inr role" "Worker \<le> role"
    "is_member d (sm_channel m) (sm_sender m)" "\<not> rotation_pending d (sm_channel m)" "sm_id m \<notin> ms_id ` set (db_messages d)"
    "current_epoch d (sm_channel m) = Inr e" "check_epoch d m e = Inr ()"
    "\<forall>p. sm_thread_of m = Some p \<longrightarrow> (\<exists>r \<in> set (db_messages d). ms_id r = p \<and> ms_channel r = sm_channel m)"
    "\<forall>a \<in> set (sm_attachments m). a_hash a \<in> b_hash ` set (db_blobs d)" "seq = next_seq (db_messages d)"
    "d' = append_event now (hex (sm_sender m)) ''message.posted'' (sm_id m)
       (JObj [(''channel'', JStr (sm_channel m)), (''seq'', jint seq)])
       (d \<lparr>db_messages := db_messages d @ [row_of m seq], db_attachments := db_attachments d @ attachment_rows m\<rparr>)"
proof -
  obtain role e where f: "check_message P now m = Inr ()" "active_role d (sm_sender m) = Inr role" "Worker \<le> role"
    "is_member d (sm_channel m) (sm_sender m)" "\<not> rotation_pending d (sm_channel m)" "\<not> list_ex (\<lambda>r. ms_id r = sm_id m) (db_messages d)"
    "current_epoch d (sm_channel m) = Inr e" "check_epoch d m e = Inr ()"
    "case sm_thread_of m of None \<Rightarrow> True
         | Some parent \<Rightarrow> list_ex (\<lambda>r. ms_id r = parent \<and> ms_channel r = sm_channel m) (db_messages d)"
    "list_all (\<lambda>a. list_ex (\<lambda>b. b_hash b = a_hash a) (db_blobs d)) (sm_attachments m)" "seq = next_seq (db_messages d)"
    "d' = append_event now (hex (sm_sender m)) ''message.posted'' (sm_id m)
       (JObj [(''channel'', JStr (sm_channel m)), (''seq'', jint seq)])
       (d \<lparr>db_messages := db_messages d @ [row_of m seq], db_attachments := db_attachments d @ attachment_rows m\<rparr>)"
    using assms unfolding post_message_def Let_def by (auto simp: bind_result_Inr_iff tx_simps)
  have 6: "sm_id m \<notin> ms_id ` set (db_messages d)" using f(6) by (auto simp: list_ex_iff)
  have 9: "\<forall>p. sm_thread_of m = Some p \<longrightarrow> (\<exists>r \<in> set (db_messages d). ms_id r = p \<and> ms_channel r = sm_channel m)"
    using f(9) by (auto simp: list_ex_iff)
  have 10: "\<forall>a \<in> set (sm_attachments m). a_hash a \<in> b_hash ` set (db_blobs d)"
    using f(10) unfolding list_all_iff list_ex_iff by (metis imageI)
  show ?thesis by (rule that [OF f(1-5) 6 f(7,8) 9 10 f(11,12)])
qed

lemma row_of_simps [simp]:
  "ms_id (row_of m s) = sm_id m" "ms_seq (row_of m s) = s" "ms_channel (row_of m s) = sm_channel m"
  "ms_thread_of (row_of m s) = sm_thread_of m" "ms_sender (row_of m s) = sm_sender m"
  by (simp_all add: row_of_def)

lemma thread_ok_mono: "thread_ok t r \<Longrightarrow> set t \<subseteq> set t' \<Longrightarrow> thread_ok t' r"
  by (auto simp: thread_ok_def split: option.splits)

lemma channel_head_append:
  assumes "\<forall>r \<in> set (db_messages d). 1 \<le> ms_seq r" "1 \<le> ms_seq r'" "db_messages d' = db_messages d @ [r']"
  shows "channel_head d x \<le> channel_head d' x"
proof -
  have "0 \<le> channel_head d' x" using channel_head_nonneg [of d' x] assms by auto
  moreover have "ms_seq r \<le> channel_head d' x" if "r \<in> set (db_messages d)" "ms_channel r = x" for r
    using channel_head_ge [of r d' x] that assms(3) by simp
  ultimately show ?thesis using channel_head_cases [of d x] by auto
qed


lemma post_message_ok:
  assumes ok: "messages_ok d" and p: "post_message P now m d = Inr (d', seq)"
  shows "messages_ok d'"
proof -
  obtain e where new: "sm_id m \<notin> ms_id ` set (db_messages d)" and e: "current_epoch d (sm_channel m) = Inr e"
    and thr: "\<forall>p. sm_thread_of m = Some p \<longrightarrow> (\<exists>r \<in> set (db_messages d). ms_id r = p \<and> ms_channel r = sm_channel m)"
    and att: "\<forall>a \<in> set (sm_attachments m). a_hash a \<in> b_hash ` set (db_blobs d)" and seq: "seq = next_seq (db_messages d)"
    and d': "d' = append_event now (hex (sm_sender m)) ''message.posted'' (sm_id m)
       (JObj [(''channel'', JStr (sm_channel m)), (''seq'', jint seq)])
       (d \<lparr>db_messages := db_messages d @ [row_of m seq], db_attachments := db_attachments d @ attachment_rows m\<rparr>)"
    using p by (rule post_message_Inr)
  note D = messages_okD [OF ok]
  let ?t = "db_messages d @ [row_of m seq]"
  have less: "ms_seq r < seq" if "r \<in> set (db_messages d)" for r using next_seq_greater that by (simp add: seq)
  have pos: "1 \<le> seq" using next_seq_pos D(3) by (simp add: seq)
  have ch: "sm_channel m \<in> ch_id ` set (db_channels d)"
    using e by (auto simp: current_epoch_def tx_simps image_iff dest!: find_SomeD intro: bexI [rotated])
  have thread: "thread_ok ?t (row_of m seq)" using thr less by (fastforce simp: thread_ok_def split: option.splits)
  have rows: "\<forall>r \<in> set ?t. 1 \<le> ms_seq r \<and> ms_channel r \<in> ch_id ` set (db_channels d) \<and> thread_ok ?t r"
    using D(3,4) thread_ok_mono [OF D(5), of _ ?t] thread pos ch by auto
  have atts: "\<forall>a \<in> set (attachment_rows m). at_message a = sm_id m \<and> at_hash a \<in> b_hash ` set (db_blobs d)"
    using att by (auto simp: attachment_rows_def)
  have head: "channel_head d x \<le> channel_head d' x" for x
    by (rule channel_head_append [of _ "row_of m seq"]) (use D(3) pos in \<open>simp_all add: d'\<close>)
  have sorted: "sorted_wrt (\<lambda>a b. ms_seq a < ms_seq b) ?t" using D(1) less by (simp add: sorted_wrt_append)
  have ids: "distinct (map ms_id ?t)" using D(2) new by simp
  have cur: "\<forall>c \<in> set (db_cursors d). 0 \<le> cu_acked c \<and> cu_acked c \<le> channel_head d' (cu_channel c)"
    using D(9) head order_trans by blast
  have e': "db_messages d' = ?t" "db_attachments d' = db_attachments d @ attachment_rows m" "db_cursors d' = db_cursors d"
    "db_channels d' = db_channels d" "db_blobs d' = db_blobs d" by (simp_all add: d')
  have "\<forall>a \<in> set (db_attachments d @ attachment_rows m). at_message a \<in> ms_id ` set ?t \<and> at_hash a \<in> b_hash ` set (db_blobs d)"
    using D(6,7) atts by auto
  then show ?thesis unfolding messages_ok_def e' using rows sorted ids cur D(8) by blast
qed

section \<open>Cursors\<close>

lemma find_bump:
  "find (\<lambda>c. cu_reader c = rd \<and> cu_channel c = ch)
     (update_where (\<lambda>c. cu_reader c = reader \<and> cu_channel c = channel) (\<lambda>c. c \<lparr>cu_acked := max (cu_acked c) s\<rparr>) t) =
   (if (rd, ch) = (reader, channel)
    then map_option (\<lambda>c. c \<lparr>cu_acked := max (cu_acked c) s\<rparr>) (find (\<lambda>c. cu_reader c = rd \<and> cu_channel c = ch) t)
    else find (\<lambda>c. cu_reader c = rd \<and> cu_channel c = ch) t)"
  by (induction t) (auto simp: update_where_def)

lemma ack_Inr:
  assumes ok: "messages_ok d" and a: "ack reader channel seq d = Inr (d', eff)"
  shows "eff = max (acked_of d reader channel) (min (channel_head d channel) (max 0 seq))" "acked_of d' reader channel = eff"
    "\<And>rd ch. (rd, ch) \<noteq> (reader, channel) \<Longrightarrow> acked_of d' rd ch = acked_of d rd ch"
    "d' = d \<lparr>db_cursors := upsert_cursor reader channel (min (channel_head d channel) (max 0 seq)) (db_cursors d)\<rparr>"
proof -
  let ?s = "min (channel_head d channel) (max 0 seq)"
  show d': "d' = d \<lparr>db_cursors := upsert_cursor reader channel ?s (db_cursors d)\<rparr>" and eff: "acked_of d' reader channel = eff"
    using a by (auto simp: ack_def Let_def bind_result_Inr_iff)
  have s: "0 \<le> ?s" using channel_head_nonneg [of d channel] messages_okD(3) [OF ok] by auto
  let ?q = "\<lambda>rd ch c. cu_reader c = rd \<and> cu_channel c = ch"
  have upd: "find (?q rd ch) (upsert_cursor reader channel ?s (db_cursors d)) =
    (if (rd, ch) = (reader, channel) then
       Some (case find (?q rd ch) (db_cursors d) of None \<Rightarrow> \<lparr>cu_reader = reader, cu_channel = channel, cu_acked = ?s\<rparr>
         | Some c \<Rightarrow> c \<lparr>cu_acked := max (cu_acked c) ?s\<rparr>)
     else find (?q rd ch) (db_cursors d))" for rd ch
  proof (cases "list_ex (?q reader channel) (db_cursors d)")
    case True
    then have "find (?q reader channel) (db_cursors d) \<noteq> None" by (auto simp: find_None_iff list_ex_iff)
    then show ?thesis unfolding upsert_cursor_def if_P [OF True] find_bump by auto
  next
    case False
    then have "find (?q reader channel) (db_cursors d) = None" by (auto simp: find_None_iff list_ex_iff)
    then show ?thesis unfolding upsert_cursor_def using False
      by (auto simp: find_append split: option.split)
  qed
  show "acked_of d' rd ch = acked_of d rd ch" if "(rd, ch) \<noteq> (reader, channel)" for rd ch
    using upd [of rd ch] that by (auto simp: acked_of_def d')
  show "eff = max (acked_of d reader channel) ?s"
    using upd [of reader channel] s unfolding eff [symmetric] by (simp add: acked_of_def d' split: option.splits)
qed


lemma ack_ok:
  assumes ok: "messages_ok d" and a: "ack reader channel seq d = Inr (d', eff)"
  shows "messages_ok d'"
proof -
  let ?s = "min (channel_head d channel) (max 0 seq)"
  have d': "d' = d \<lparr>db_cursors := upsert_cursor reader channel ?s (db_cursors d)\<rparr>" by (rule ack_Inr(4) [OF ok a])
  note D = messages_okD [OF ok]
  have s: "0 \<le> ?s" using channel_head_nonneg [of d channel] D(3) by auto
  have head: "channel_head d' x = channel_head d x" for x by (simp add: channel_head_def d')
  have "distinct (map cursor_id (upsert_cursor reader channel ?s (db_cursors d)))"
    unfolding upsert_cursor_def using D(8)
    by (auto simp: map_update_where cursor_id_def list_ex_iff)
  moreover have "0 \<le> cu_acked c \<and> cu_acked c \<le> channel_head d (cu_channel c)"
    if "c \<in> set (upsert_cursor reader channel ?s (db_cursors d))" for c
    using that D(9) s unfolding upsert_cursor_def by (auto simp: set_update_where split: if_splits)
  ultimately show ?thesis using ok unfolding messages_ok_def by (simp add: d' head [unfolded d'])
qed

section \<open>Delivery\<close>

text \<open>
  C19: a posted message is delivered. The new message is the last unread message of every other member of the channel,
  and nothing else changes in anybody's unread messages.
\<close>

theorem post_message_delivers:
  assumes ok: "messages_ok d" and p: "post_message P now m d = Inr (d', seq)"
  shows "filter (unread d' reader) (db_messages d') =
    filter (unread d reader) (db_messages d)
      @ (if is_member d (sm_channel m) reader \<and> reader \<noteq> sm_sender m then [row_of m seq] else [])"
proof -
  obtain e where seq: "seq = next_seq (db_messages d)"
    and d': "d' = append_event now (hex (sm_sender m)) ''message.posted'' (sm_id m)
       (JObj [(''channel'', JStr (sm_channel m)), (''seq'', jint seq)])
       (d \<lparr>db_messages := db_messages d @ [row_of m seq], db_attachments := db_attachments d @ attachment_rows m\<rparr>)"
    using p by (rule post_message_Inr)
  have same: "unread d' reader = unread d reader" by (simp add: fun_eq_iff unread_def is_member_def acked_of_def d')
  have msgs: "db_messages d' = db_messages d @ [row_of m seq]" by (simp add: d')
  have "acked_of d reader (sm_channel m) < seq"
  proof (cases "find (\<lambda>c. cu_reader c = reader \<and> cu_channel c = sm_channel m) (db_cursors d)")
    case None
    then show ?thesis using next_seq_pos [of "db_messages d"] messages_okD(3) [OF ok] by (simp add: acked_of_def seq)
  next
    case (Some c)
    then have "cu_acked c \<le> channel_head d (sm_channel m)" using messages_okD(9) [OF ok, of c] by (auto dest: find_SomeD)
    also have "\<dots> < seq"
      using channel_head_cases [of d "sm_channel m"] next_seq_greater [of _ "db_messages d"] next_seq_pos [of "db_messages d"]
        messages_okD(3) [OF ok] unfolding seq by fastforce
    finally show ?thesis using Some by (simp add: acked_of_def)
  qed
  then have "unread d reader (row_of m seq) \<longleftrightarrow> is_member d (sm_channel m) reader \<and> reader \<noteq> sm_sender m"
    by (auto simp: unread_def)
  then show ?thesis unfolding same msgs by simp
qed

text \<open>
  C20: acknowledging a sequence number takes exactly the messages of that channel up to it out of the reader's unread
  messages, and changes nobody else's; the cursor returned never moves backwards and never passes the last message.
\<close>

theorem ack_clears:
  assumes ok: "messages_ok d" and a: "ack reader channel seq d = Inr (d', eff)"
  shows "db_messages d' = db_messages d
    \<and> filter (unread d' reader) (db_messages d') =
        filter (\<lambda>r. unread d reader r \<and> \<not> (ms_channel r = channel \<and> ms_seq r \<le> seq)) (db_messages d)
    \<and> (\<forall>other. other \<noteq> reader \<longrightarrow> unread d' other = unread d other)
    \<and> acked_of d reader channel \<le> eff \<and> eff \<le> channel_head d channel"
proof -
  note A = ack_Inr [OF ok a]
  have msgs: "db_messages d' = db_messages d" "db_members d' = db_members d" by (simp_all add: A(4))
  have head: "0 \<le> channel_head d channel" using channel_head_nonneg messages_okD(3) [OF ok] by blast
  have acked: "acked_of d reader channel \<le> channel_head d channel"
    using messages_okD(9) [OF ok] head by (auto simp: acked_of_def split: option.splits dest!: find_SomeD)
  have row: "unread d' reader r \<longleftrightarrow> unread d reader r \<and> \<not> (ms_channel r = channel \<and> ms_seq r \<le> seq)"
    if "r \<in> set (db_messages d)" for r
  proof (cases "ms_channel r = channel")
    case True
    then have "ms_seq r \<le> channel_head d channel" "1 \<le> ms_seq r" using channel_head_ge that messages_okD(3) [OF ok] by auto
    then show ?thesis using A(1,2) True by (auto simp: unread_def is_member_def msgs)
  next
    case False
    then show ?thesis using A(3) [of reader "ms_channel r"] by (auto simp: unread_def is_member_def msgs)
  qed
  have "filter (unread d' reader) (db_messages d) =
      filter (\<lambda>r. unread d reader r \<and> \<not> (ms_channel r = channel \<and> ms_seq r \<le> seq)) (db_messages d)"
    by (rule filter_cong) (use row in auto)
  moreover have "unread d' other = unread d other" if "other \<noteq> reader" for other
    using A(3) that by (auto simp: unread_def is_member_def msgs fun_eq_iff)
  ultimately show ?thesis using A(1) acked head by (auto simp: msgs)
qed

text \<open>
  C18: a message reaches an encrypted channel only under the current key, and only while the holders of that key are
  exactly the members: nobody who left, was removed or was revoked can read what is posted afterwards.
\<close>

theorem post_message_readers:
  assumes ok: "channels_ok d" and p: "post_message P now m d = Inr (d', seq)" and enc: "is_encrypted d (sm_channel m)"
  shows "sm_encrypted m \<and> current_epoch d (sm_channel m) = Inr (sm_epoch m)
    \<and> holders_of (db_keys d) (sm_channel m) (sm_epoch m) = members_of (db_members d) (sm_channel m)
    \<and> sm_sender m \<in> members_of (db_members d) (sm_channel m)"
proof -
  obtain role e where mem: "is_member d (sm_channel m) (sm_sender m)" and rot: "\<not> rotation_pending d (sm_channel m)"
    and e: "current_epoch d (sm_channel m) = Inr e" and ep: "check_epoch d m e = Inr ()"
    using p by (rule post_message_Inr)
  have m: "sm_encrypted m" "sm_epoch m = e" using ep enc by (simp_all add: check_epoch_def bind_result_Inr_iff ensure_Inr)
  obtain c where "c \<in> set (db_channels d)" "ch_id c = sm_channel m" "ch_epoch c = e"
    using e unfolding current_epoch_Inr [OF channels_okD(1) [OF ok]] by blast
  then have "channel_ok d (sm_channel m) e" using channels_okD(5) [OF ok, of c] by simp
  then have "holders_of (db_keys d) (sm_channel m) e = members_of (db_members d) (sm_channel m)"
    using enc rot by (auto simp: channel_ok_def)
  then show ?thesis using m e mem by (simp add: members_of_simps)
qed


section \<open>Reading back\<close>

lemma page_one: "1 \<le> limit \<Longrightarrow> page limit [r] = [r]"
  by (cases "nat (min MAX_PAGE (max 0 limit))") (simp_all add: page_def MAX_PAGE_def)

text \<open>
  C22: what a member reads back is the message that was posted, field by field, so that its signature verifies again.
\<close>

theorem post_then_read:
  assumes ok: "messages_ok d" and p: "post_message P now m d = Inr (d', seq)" and sender: "length (sm_sender m) = 32"
    and reader: "active_role d reader = Inr role" "is_member d (sm_channel m) reader" and limit: "1 \<le> limit"
  shows "\<exists>v. read_channel reader (sm_channel m) (seq - 1) limit d' = Inr [v] \<and> mv_seq v = seq \<and> to_signed v = m
    \<and> verify_message P (to_signed v) = Inr ()"
proof -
  obtain e where chk: "check_message P now m = Inr ()" and new: "sm_id m \<notin> ms_id ` set (db_messages d)"
    and seq: "seq = next_seq (db_messages d)"
    and d': "d' = append_event now (hex (sm_sender m)) ''message.posted'' (sm_id m)
       (JObj [(''channel'', JStr (sm_channel m)), (''seq'', jint seq)])
       (d \<lparr>db_messages := db_messages d @ [row_of m seq], db_attachments := db_attachments d @ attachment_rows m\<rparr>)"
    using p by (rule post_message_Inr)
  have old: "\<not> seq - 1 < ms_seq r" if "r \<in> set (db_messages d)" for r
    using next_seq_greater [OF that] by (simp add: seq)
  have rows: "filter (\<lambda>r. ms_channel r = sm_channel m \<and> seq - 1 < ms_seq r) (db_messages d') = [row_of m seq]"
    using old by (simp add: d' filter_empty_conv)
  have "filter (\<lambda>a. at_message a = sm_id m) (db_attachments d) = []"
    unfolding filter_empty_conv using messages_okD(6) [OF ok] new by metis
  then have "attachments_of d' (sm_id m) = map (\<lambda>x. \<lparr>a_hash = a_hash x, a_name = a_name x, a_mime = a_mime x\<rparr>) (sm_attachments m)"
    by (simp add: attachments_of_def d' attachment_rows_def comp_def)
  also have "\<dots> = sm_attachments m" by (rule map_idI) simp
  finally have atts: "attachments_of d' (sm_id m) = sm_attachments m" .
  have role: "active_role d' reader = Inr role" using reader(1) active_role_cong [of d' d] by (simp add: d')
  have mem: "is_member d' (sm_channel m) reader" using reader(2) by (simp add: is_member_def d')
  have ver: "verify_message P m = Inr ()" using chk by (auto simp: check_message_def bind_result_Inr_iff)
  have "\<exists>v. read_channel reader (sm_channel m) (seq - 1) limit d' = Inr [v] \<and> mv_seq v = seq \<and> to_signed v = m"
    using role mem sender atts unfolding read_channel_def rows page_one [OF limit]
    by (simp add: ensure_def read_message_def to_signed_def) (simp add: row_of_def)
  then show ?thesis using ver by metis
qed

section \<open>Blobs\<close>

text \<open>Rows are unique, inline bytes carry their hash, a spilled row belongs to a store with a directory, and every charge has its row.\<close>

definition blobs_ok :: "primitives \<Rightarrow> db \<Rightarrow> blob_dir \<Rightarrow> bool" where
  "blobs_ok P d dir =
     (distinct (map b_hash (db_blobs d))
      \<and> (\<forall>b \<in> set (db_blobs d). (if b_spilled b then dir \<noteq> None else pr_hash P (b_bytes b) = b_hash b))
      \<and> (\<forall>u \<in> set (db_uploads d). u_hash u \<in> b_hash ` set (db_blobs d)))"

text \<open>The bytes the store holds: inline, and in the files of the directory.\<close>

definition stored_bytes :: "db \<Rightarrow> blob_dir \<Rightarrow> string list" where
  "stored_bytes d dir = map b_bytes (db_blobs d) @ (case dir of None \<Rightarrow> [] | Some files \<Rightarrow> map snd files)"


lemma spill_bytes_Inr:
  assumes "spill_bytes P files h bytes = Inr files'" "h = pr_hash P bytes"
    and "\<forall>x \<in> snd ` set files. pr_hash P x = h \<longrightarrow> x = bytes"
  shows "is_content_hash h" "map_of files' h = Some bytes"
proof -
  show "is_content_hash h" using assms(1) by (simp add: spill_bytes_def bind_result_Inr_iff ensure_Inr)
  show "map_of files' h = Some bytes"
  proof (cases "map_of files h")
    case (Some x)
    then have "x \<in> snd ` set files" using map_of_SomeD by force
    then show ?thesis using assms Some by (auto simp: spill_bytes_def bind_result_Inr_iff ensure_Inr update_conv' split: if_splits)
  qed (use assms in \<open>auto simp: spill_bytes_def bind_result_Inr_iff ensure_Inr update_conv'\<close>)
qed

text \<open>After the file half and the row half of an upload, the row and its bytes are there.\<close>

lemma stored_after:
  assumes ok: "blobs_ok P d dir" and f: "ensure_blob_file P d dir h bytes = Inr (dir', spilled)" and h: "h = pr_hash P bytes"
    and nc: "\<forall>x \<in> set (stored_bytes d dir). pr_hash P x = h \<longrightarrow> x = bytes"
  shows "\<exists>b. find (\<lambda>b. b_hash b = h) (insert_blob_row h bytes spilled (db_blobs d)) = Some b \<and> b_spilled b = spilled
      \<and> (if spilled then \<exists>files. dir' = Some files \<and> is_content_hash h \<and> map_of files h = Some bytes else b_bytes b = bytes)"
proof (cases "find (\<lambda>b. b_hash b = h) (db_blobs d)")
  case None
  then have "h \<notin> b_hash ` set (db_blobs d)" by (auto simp: find_None_iff)
  then have row: "insert_blob_row h bytes spilled (db_blobs d) =
      db_blobs d @ [\<lparr>b_hash = h, b_size = len bytes, b_bytes = (if spilled then [] else bytes), b_spilled = spilled\<rparr>]"
    by (simp add: insert_blob_row_def insert_ignore_def)
  have "if spilled then \<exists>files. dir' = Some files \<and> is_content_hash h \<and> map_of files h = Some bytes else True"
    using f None nc spill_bytes_Inr [of P _ h bytes] h
    by (auto simp: ensure_blob_file_def bind_result_Inr_iff stored_bytes_def split: option.splits if_splits)
  then show ?thesis by (simp add: row find_append None)
next
  case (Some b)
  then have b: "b \<in> set (db_blobs d)" "b_hash b = h" by (auto dest: find_SomeD)
  then have row: "insert_blob_row h bytes spilled (db_blobs d) = db_blobs d"
    by (auto simp: insert_blob_row_def insert_ignore_def image_iff)
  have inline: "b_bytes b = bytes" if "\<not> b_spilled b"
    using ok nc b that h by (auto simp: blobs_ok_def stored_bytes_def)
  have dir: "dir \<noteq> None" if "b_spilled b" using ok b that by (auto simp: blobs_ok_def)
  show ?thesis unfolding row Some
    using f Some inline dir nc spill_bytes_Inr [of P _ h bytes] h
    by (cases "b_spilled b") (auto simp: ensure_blob_file_def bind_result_Inr_iff stored_bytes_def split: option.splits)
qed

lemma put_blob_for_Inr:
  assumes "put_blob_for P now u bytes max_len quota d dir = Inr (d', dir', h)"
  obtains role spilled where "h = pr_hash P bytes" "active_role d u = Inr role" "Worker \<le> role"
    "charged_to d u h \<or> sat_i64 (usage_of d u + len bytes) \<le> quota"
    "ensure_blob_file P d dir h bytes = Inr (dir', spilled)" "len bytes \<le> MAX_BLOB"
    "d' = (if charged_to d u h then d
       else d \<lparr>db_blobs := insert_blob_row h bytes spilled (db_blobs d),
               db_uploads := db_uploads d @ [\<lparr>u_uploader = u, u_hash = h, u_size = len bytes, u_ts = now\<rparr>]\<rparr>)"
  using assms unfolding put_blob_for_def Let_def check_quota_def
  by (auto simp: bind_result_Inr_iff tx_simps not_less)

text \<open>
  C23: an upload can be read back, byte for byte, from the row or from the file it spilled to, as long as none of the
  bytes on store collide with it; it is charged once, to its uploader only, and never beyond the quota.
\<close>

theorem put_blob_for_roundtrip:
  assumes ok: "blobs_ok P d dir" and put: "put_blob_for P now u bytes max_len quota d dir = Inr (d', dir', h)"
    and no_collision: "\<forall>x \<in> set (stored_bytes d dir). pr_hash P x = pr_hash P bytes \<longrightarrow> x = bytes" and quota: "quota < i64_max"
  shows "h = pr_hash P bytes \<and> get_blob P h d' dir' = Inr (Some bytes)
    \<and> usage_of d' v = usage_of d v + (if v = u \<and> \<not> charged_to d u h then len bytes else 0)
    \<and> (charged_to d u h \<or> usage_of d' u \<le> quota)"
proof -
  obtain role spilled where h: "h = pr_hash P bytes" and q: "charged_to d u h \<or> sat_i64 (usage_of d u + len bytes) \<le> quota"
    and f: "ensure_blob_file P d dir h bytes = Inr (dir', spilled)"
    and d': "d' = (if charged_to d u h then d
       else d \<lparr>db_blobs := insert_blob_row h bytes spilled (db_blobs d),
               db_uploads := db_uploads d @ [\<lparr>u_uploader = u, u_hash = h, u_size = len bytes, u_ts = now\<rparr>]\<rparr>)"
    using put by (rule put_blob_for_Inr)
  have "h \<in> b_hash ` set (db_blobs d)" if "charged_to d u h" using that ok by (auto simp: charged_to_def list_ex_iff blobs_ok_def)
  then have blobs: "db_blobs d' = insert_blob_row h bytes spilled (db_blobs d)"
    by (auto simp: d' insert_blob_row_def insert_ignore_def)
  obtain b where b: "find (\<lambda>b. b_hash b = h) (db_blobs d') = Some b" "b_spilled b = spilled"
    "if spilled then \<exists>files. dir' = Some files \<and> is_content_hash h \<and> map_of files h = Some bytes else b_bytes b = bytes"
    using stored_after [OF ok f h] no_collision h unfolding blobs by blast
  have "get_blob P h d' dir' = Inr (Some bytes)"
    using b h by (cases spilled) (auto simp: get_blob_def ok_or_def ensure_def)
  moreover have "usage_of d' v = usage_of d v + (if v = u \<and> \<not> charged_to d u h then len bytes else 0)" for v
    by (simp add: usage_of_def d')
  moreover have "usage_of d u + len bytes \<le> quota" if "\<not> charged_to d u h"
    using q that quota by (auto simp: sat_i64_def)
  ultimately show ?thesis using h by auto
qed

lemma put_blob_for_messages: "messages_ok d \<Longrightarrow> put_blob_for P now u bytes max_len quota d dir = Inr (d', dir', h) \<Longrightarrow> messages_ok d'"
  by (erule put_blob_for_Inr, rule messages_ok_frame [of d]) (auto simp: insert_blob_row_def insert_ignore_def)


section \<open>Samples\<close>

definition sample_message :: signed_message where
  "sample_message = \<lparr>sm_id = ''m1'', sm_channel = ''c'', sm_thread_of = None, sm_sender = sample_key CHR ''w'', sm_ts = 2000,
     sm_encrypted = True, sm_epoch = 0, sm_body = replicate 40 CHR ''b'', sm_attachments = [], sm_sig = replicate 64 CHR ''s''\<rparr>"

definition sample_posted_db :: db where
  "sample_posted_db = (case post_message toy_primitives 2000 sample_message sample_channel_db of Inr (d, _) \<Rightarrow> d | Inl _ \<Rightarrow> empty_db)"

lemma sample_messages_ok: "messages_ok sample_channel_db"
  by code_simp

lemma sample_post: "post_message toy_primitives 2000 sample_message sample_channel_db = Inr (sample_posted_db, 1)"
proof -
  have "map_sum id snd (post_message toy_primitives 2000 sample_message sample_channel_db) = Inr 1" by code_simp
  then obtain d where "post_message toy_primitives 2000 sample_message sample_channel_db = Inr (d, 1)"
    by (cases "post_message toy_primitives 2000 sample_message sample_channel_db") auto
  then show ?thesis by (simp add: sample_posted_db_def)
qed

theorem post_message_delivers_witness:
  "filter (unread sample_posted_db (sample_key CHR ''o'')) (db_messages sample_posted_db) = [row_of sample_message 1]"
proof -
  have "filter (unread sample_channel_db (sample_key CHR ''o'')) (db_messages sample_channel_db) = []"
    "is_member sample_channel_db (sm_channel sample_message) (sample_key CHR ''o'') \<and> sample_key CHR ''o'' \<noteq> sm_sender sample_message"
    by code_simp+
  then show ?thesis using post_message_delivers [OF sample_messages_ok sample_post, of "sample_key CHR ''o''"] by simp
qed

theorem ack_clears_witness:
  "\<exists>d'. ack (sample_key CHR ''o'') ''c'' 1 sample_posted_db = Inr (d', 1)
     \<and> filter (unread d' (sample_key CHR ''o'')) (db_messages d') = []"
proof -
  have ok: "messages_ok sample_posted_db" by (rule post_message_ok [OF sample_messages_ok sample_post])
  have "map_sum id snd (ack (sample_key CHR ''o'') ''c'' 1 sample_posted_db) = Inr 1" by code_simp
  then obtain d' where a: "ack (sample_key CHR ''o'') ''c'' 1 sample_posted_db = Inr (d', 1)"
    by (cases "ack (sample_key CHR ''o'') ''c'' 1 sample_posted_db") auto
  have "list_all (\<lambda>r. ms_channel r = ''c'' \<and> ms_seq r \<le> 1) (db_messages sample_posted_db)" by code_simp
  then have "filter (unread d' (sample_key CHR ''o'')) (db_messages d') = []"
    using ack_clears [OF ok a] by (auto simp: filter_empty_conv list_all_iff)
  then show ?thesis using a by blast
qed

theorem post_message_readers_witness:
  "holders_of (db_keys sample_channel_db) ''c'' 0 = members_of (db_members sample_channel_db) ''c''"
proof -
  have "is_encrypted sample_channel_db (sm_channel sample_message)" by code_simp
  from post_message_readers [OF sample_channel_ok sample_post this] show ?thesis by (simp add: sample_message_def)
qed

theorem post_then_read_witness:
  "\<exists>v. read_channel (sample_key CHR ''o'') ''c'' 0 10 sample_posted_db = Inr [v] \<and> to_signed v = sample_message"
proof -
  have "length (sm_sender sample_message) = 32" "active_role sample_channel_db (sample_key CHR ''o'') = Inr Owner"
    "is_member sample_channel_db (sm_channel sample_message) (sample_key CHR ''o'')" by code_simp+
  from post_then_read [OF sample_messages_ok sample_post this, of 10] show ?thesis by (auto simp: sample_message_def)
qed

definition sample_blob_db :: db where
  "sample_blob_db = sample_owner_db \<lparr>db_blobs := [\<lparr>b_hash = ''abc'', b_size = 3, b_bytes = ''abc'', b_spilled = False\<rparr>]\<rparr>"

theorem put_blob_for_roundtrip_witness:
  "\<exists>d'. put_blob_for toy_primitives 2000 (sample_key CHR ''w'') ''hello'' 100 100 sample_blob_db None = Inr (d', None, ''hello'')
     \<and> get_blob toy_primitives ''hello'' d' None = Inr (Some ''hello'') \<and> usage_of d' (sample_key CHR ''w'') = 5"
proof -
  let ?run = "put_blob_for toy_primitives 2000 (sample_key CHR ''w'') ''hello'' 100 100 sample_blob_db None"
  have ok: "blobs_ok toy_primitives sample_blob_db None" by code_simp
  have "map_sum id snd ?run = Inr (None, ''hello'')" by code_simp
  then obtain d' where run: "?run = Inr (d', None, ''hello'')" by (cases ?run) auto
  have c: "list_all (\<lambda>x. pr_hash toy_primitives x = pr_hash toy_primitives ''hello'' \<longrightarrow> x = ''hello'') (stored_bytes sample_blob_db None)"
    "(100 :: int) < i64_max" "usage_of sample_blob_db (sample_key CHR ''w'') = 0" "\<not> charged_to sample_blob_db (sample_key CHR ''w'') ''hello''"
    by code_simp+
  show ?thesis using put_blob_for_roundtrip [OF ok run _ c(2), of "sample_key CHR ''w''"] c run
    by (auto simp: list_all_iff)
qed

end
