(* ===== verification/Claims.thy ===== *)
theory Claims
  imports Graph Crypto
begin

text \<open>
  Names, kinds, text checks, canonical paths, file claims and command digests
  (\<open>crates/agora-sched/src/claims.rs\<close>). Messages are the strings of the code; SHA-256 and the JSON writer of
  another package are parameters.
\<close>

section \<open>Definitions\<close>

definition MAX_ITEMS :: int where "MAX_ITEMS = 1000"
definition MAX_COMMAND_BYTES :: int where "MAX_COMMAND_BYTES = 256 * 1024"
definition NAME_MAX :: int where "NAME_MAX = 128"
definition KIND_MAX :: int where "KIND_MAX = 64"

definition is_alnum_or_underscore :: "int \<Rightarrow> bool" where
  "is_alnum_or_underscore c = (48 \<le> c \<and> c \<le> 57 \<or> 65 \<le> c \<and> c \<le> 90 \<or> 97 \<le> c \<and> c \<le> 122 \<or> c = 95)"

definition is_name_rest :: "int \<Rightarrow> bool" where
  "is_name_rest c = (is_alnum_or_underscore c \<or> c \<in> {46, 58, 64, 45})"

definition is_kind_rest :: "int \<Rightarrow> bool" where
  "is_kind_rest c = (is_alnum_or_underscore c \<or> c = 45)"

definition well_formed :: "string \<Rightarrow> int \<Rightarrow> (int \<Rightarrow> bool) \<Rightarrow> (int \<Rightarrow> bool) \<Rightarrow> bool" where
  "well_formed value max_len head rest =
     (value \<noteq> [] \<and> int (length value) \<le> max_len
      \<and> (case chars_of value of [] \<Rightarrow> True | c # cs \<Rightarrow> head c \<and> list_all rest cs))"

definition validate_name :: "string \<Rightarrow> string \<Rightarrow> unit result" where
  "validate_name what value =
     (if well_formed value NAME_MAX is_alnum_or_underscore is_name_rest then Inr ()
      else Inl (what @ '' '' @ repr_str value
        @ '' is not valid: use up to 128 letters, digits, _ . : @ or -, starting with a letter, a digit or _''))"

definition validate_kind :: "string \<Rightarrow> unit result" where
  "validate_kind kind =
     (if well_formed kind KIND_MAX is_alnum_or_underscore is_kind_rest then Inr ()
      else Inl (''kind '' @ repr_str kind @ '' is not valid: use up to 64 letters, digits, _ or -''))"

definition check_text :: "string \<Rightarrow> string \<Rightarrow> int \<Rightarrow> unit result" where
  "check_text what value limit =
     (if limit < int (length (chars_of value)) then Inl (what @ '' is longer than '' @ show_int limit @ '' characters'')
      else case find (\<lambda>c. \<not> is_printable c) (chars_of value) of
             Some hidden \<Rightarrow> Inl (what @ '' holds the control or invisible character '' @ repr_str (utf8 hidden))
           | None \<Rightarrow> Inr ())"

definition check_command :: "string list \<Rightarrow> unit result" where
  "check_command argv =
     (if argv = [] then Inl ''no command after --''
      else if MAX_ITEMS < int (length argv) \<or> MAX_COMMAND_BYTES < foldl (\<lambda>total arg. sat_u64 (total + sat_u64 (int (length arg) + 1))) 0 argv
        then Inl (''the command is longer than '' @ show_int MAX_ITEMS @ '' arguments or '' @ show_int MAX_COMMAND_BYTES @ '' bytes'')
      else if list_ex (\<lambda>arg. CHR 0x00 \<in> set arg) argv then Inl ''the command holds a NUL character''
      else Inr ())"

definition path_part :: "string list \<Rightarrow> string \<Rightarrow> string list" where
  "path_part parts part =
     (if part = [] \<or> part = ''.'' then parts else if part = ''..'' then butlast parts else parts @ [part])"

definition normalise :: "string \<Rightarrow> string" where
  "normalise path =
     (let parts = foldl path_part [] (split_on (CHR ''/'') path)
      in if parts = [] then ''/'' else CHR ''/'' # join ''/'' parts)"

definition expand_home :: "string \<Rightarrow> string option \<Rightarrow> string" where
  "expand_home path home =
     (case home of
        Some h \<Rightarrow> if path = ''~'' then h
                  else (case strip_prefix ''~/'' path of Some rest \<Rightarrow> h @ ''/'' @ rest | None \<Rightarrow> path)
      | None \<Rightarrow> path)"

definition canonical_path :: "string \<Rightarrow> string \<Rightarrow> string option \<Rightarrow> string result" where
  "canonical_path path cwd home =
     (if path = [] \<or> CHR 0x00 \<in> set path then Inl (repr_str path @ '' is not a file path'')
      else let expanded = expand_home path home;
               joined = (if starts_with ''/'' expanded then expanded else cwd @ ''/'' @ expanded)
           in Inr (normalise joined))"

fun first_conflict :: "string list \<Rightarrow> (string \<times> string list) list \<Rightarrow> (string \<times> string) option" where
  "first_conflict files [] = None"
| "first_conflict files ((holder, held) # holders) =
     (case find (\<lambda>held_path. list_ex (\<lambda>file. overlap file held_path) files) held of
        Some held_path \<Rightarrow> Some (holder, held_path)
      | None \<Rightarrow> first_conflict files holders)"

definition hex_sha256 :: "primitives \<Rightarrow> string \<Rightarrow> string" where
  "hex_sha256 P bytes = concat (map (\<lambda>c. hex_pad 2 (byte c)) (pr_sha256 P bytes))"

definition digest :: "primitives \<Rightarrow> (json \<Rightarrow> string) \<Rightarrow> string list \<Rightarrow> string \<Rightarrow> string list \<Rightarrow> string" where
  "digest P to_json argv cwd files =
     hex_sha256 P (to_json (JArr [JStr ''agora-work/v1'', JArr (map JStr argv), JStr cwd, JArr (map JStr files)]))"

definition ascii_json_char :: "int \<Rightarrow> string" where
  "ascii_json_char c =
     (if c = 34 then [CHR 92, CHR 34]
      else if c = 92 then [CHR 92, CHR 92]
      else if c = 10 then [CHR 92, CHR ''n'']
      else if c = 13 then [CHR 92, CHR ''r'']
      else if c = 9 then [CHR 92, CHR ''t'']
      else if c = 8 then [CHR 92, CHR ''b'']
      else if c = 12 then [CHR 92, CHR ''f'']
      else if 32 \<le> c \<and> c \<le> 126 then utf8 c
      else concat (map (\<lambda>u. CHR 92 # CHR ''u'' # hex_pad 4 u) (utf16 c)))"

definition push_ascii_json_string :: "string \<Rightarrow> string" where
  "push_ascii_json_string value = CHR 34 # concat (map ascii_json_char (chars_of value)) @ [CHR 34]"

definition workpy_digest :: "primitives \<Rightarrow> string list \<Rightarrow> string \<Rightarrow> string" where
  "workpy_digest P argv cwd =
     hex_sha256 P (''[['' @ join '','' (map push_ascii_json_string argv) @ ''],'' @ push_ascii_json_string cwd @ '']'')"

section \<open>Canonical paths\<close>

definition plain_part :: "string \<Rightarrow> bool" where
  "plain_part p = (p \<noteq> [] \<and> p \<noteq> ''.'' \<and> p \<noteq> ''..'' \<and> CHR ''/'' \<notin> set p)"

text \<open>An absolute path without empty, dot or dot-dot parts and without a trailing slash.\<close>

definition canonical_form :: "string \<Rightarrow> bool" where
  "canonical_form p = (p = ''/'' \<or> (\<exists>parts. parts \<noteq> [] \<and> list_all plain_part parts \<and> p = CHR ''/'' # join ''/'' parts))"

lemma path_part_plain:
  "list_all plain_part parts \<Longrightarrow> list_all (\<lambda>p. CHR ''/'' \<notin> set p) ps \<Longrightarrow> list_all plain_part (foldl path_part parts ps)"
proof (induction ps arbitrary: parts)
  case (Cons p ps)
  have "list_all plain_part (path_part parts p)"
    using Cons.prems by (auto simp: path_part_def plain_part_def list_all_iff dest: in_set_butlastD)
  then show ?case using Cons by simp
qed simp

lemma path_part_id: "list_all plain_part ps \<Longrightarrow> foldl path_part parts ps = parts @ ps"
  by (induction ps arbitrary: parts) (auto simp: path_part_def plain_part_def)

lemma normalise_form: "canonical_form (normalise path)"
proof -
  have "list_all plain_part (foldl path_part [] (split_on (CHR ''/'') path))"
    by (rule path_part_plain) (auto simp: list_all_iff dest: split_on_no_sep)
  then show ?thesis by (auto simp: canonical_form_def normalise_def Let_def)
qed

lemma normalise_id:
  assumes "canonical_form p"
  shows "normalise p = p"
proof (cases "p = ''/''")
  case False
  then obtain parts where p: "parts \<noteq> []" "list_all plain_part parts" "p = CHR ''/'' # join ''/'' parts"
    using assms by (auto simp: canonical_form_def)
  have "split_on (CHR ''/'') p = [] # parts"
    using p by (simp add: split_on_join list_all_iff plain_part_def)
  then have "foldl path_part [] (split_on (CHR ''/'') p) = parts"
    using p(2) by (simp add: path_part_def path_part_id)
  then show ?thesis using p by (simp add: normalise_def)
qed (simp add: normalise_def path_part_def)

lemma canonical_form_path: "canonical_form p \<Longrightarrow> CHR 0x00 \<notin> set p \<Longrightarrow> canonical_path p cwd home = Inr p"
proof -
  assume c: "canonical_form p" and z: "CHR 0x00 \<notin> set p"
  then obtain r where r: "p = CHR ''/'' # r" by (auto simp: canonical_form_def)
  then have "expand_home p home = p" by (auto simp: expand_home_def strip_prefix_Some_iff split: option.splits)
  then show ?thesis using r z normalise_id [OF c] by (auto simp: canonical_path_def Let_def strip_prefix_Some_iff)
qed

lemma path_part_chars: "p \<in> set (foldl path_part parts ps) \<Longrightarrow> p \<in> set parts \<or> p \<in> set ps"
proof (induction ps arbitrary: parts)
  case (Cons q ps)
  have "p \<in> set (path_part parts q) \<or> p \<in> set ps" using Cons by simp
  then show ?case by (auto simp: path_part_def dest: in_set_butlastD split: if_splits)
qed simp

lemma split_on_chars: "p \<in> set (split_on d s) \<Longrightarrow> set p \<subseteq> set s"
proof (induction s arbitrary: p)
  case (Cons c s)
  then show ?case by (cases "split_on d s") (fastforce split: if_splits)+
qed simp

lemma join_chars: "set (join sep ps) \<subseteq> set sep \<union> (\<Union>p \<in> set ps. set p)"
  by (induction sep ps rule: join.induct) auto

lemma normalise_chars: "set (normalise path) \<subseteq> insert (CHR ''/'') (set path)"
proof -
  let ?parts = "foldl path_part [] (split_on (CHR ''/'') path)"
  have "set p \<subseteq> set path" if "p \<in> set ?parts" for p
    using path_part_chars [OF that] split_on_chars by fastforce
  then have "set (join ''/'' ?parts) \<subseteq> insert (CHR ''/'') (set path)" using join_chars [of "''/''" ?parts] by fastforce
  then show ?thesis by (simp add: normalise_def Let_def)
qed

text \<open>
  C37: a canonical path is absolute, has no empty, dot or dot-dot part and no trailing slash, and is its own canonical
  path, from any directory: claims recorded and compared later name the same file.
\<close>

theorem canonical_path_stable:
  assumes c: "canonical_path path cwd home = Inr p"
    and "CHR 0x00 \<notin> set cwd" "home \<noteq> None \<longrightarrow> CHR 0x00 \<notin> set (the home)"
  shows "canonical_form p \<and> canonical_path p cwd' home' = Inr p"
proof -
  let ?e = "expand_home path home"
  have path: "CHR 0x00 \<notin> set path" and p: "p = normalise (if starts_with ''/'' ?e then ?e else cwd @ ''/'' @ ?e)"
    using c by (auto simp: canonical_path_def Let_def split: if_splits)
  have "CHR 0x00 \<notin> set ?e"
    using path assms(3) by (auto simp: expand_home_def strip_prefix_Some_iff split: option.splits)
  then have "CHR 0x00 \<notin> set p"
    using assms(2) normalise_chars [of "if starts_with ''/'' ?e then ?e else cwd @ ''/'' @ ?e"] unfolding p by auto
  then show ?thesis using canonical_form_path normalise_form unfolding p by blast
qed

theorem canonical_path_stable_witness:
  "canonical_path ''../a//b/./c/'' ''/srv/x'' None = Inr ''/srv/a/b/c'' \<and> canonical_form ''/srv/a/b/c''"
proof -
  have c: "canonical_path ''../a//b/./c/'' ''/srv/x'' None = Inr ''/srv/a/b/c''" "CHR 0x00 \<notin> set ''/srv/x''" by code_simp+
  show ?thesis using c canonical_path_stable [OF c, of "[]" None] by simp
qed

section \<open>File claims\<close>

lemma first_conflict_None:
  "first_conflict files holders = None \<longleftrightarrow>
     (\<forall>(h, held) \<in> set holders. \<forall>x \<in> set held. \<forall>f \<in> set files. \<not> overlap f x)"
proof (induction files holders rule: first_conflict.induct)
  case (2 files holder held holders)
  show ?case
  proof (cases "find (\<lambda>held_path. list_ex (\<lambda>file. overlap file held_path) files) held")
    case None
    have "first_conflict files ((holder, held) # holders) = first_conflict files holders" by (simp add: None)
    moreover have "\<forall>x \<in> set held. \<forall>f \<in> set files. \<not> overlap f x" using None by (auto simp: find_None_iff list_ex_iff)
    ultimately show ?thesis using 2 None by simp
  next
    case (Some x)
    then show ?thesis using find_SomeD [OF Some] by (auto simp: list_ex_iff)
  qed
qed simp

lemma validate_name_Inr: "validate_name what v = Inr u \<longleftrightarrow> well_formed v NAME_MAX is_alnum_or_underscore is_name_rest"
  by (simp add: validate_name_def)

end
