(* ===== verification/Teams.thy ===== *)
theory Teams
  imports Identity Claims
begin

text \<open>
  Team and lane policies in the store, and notices (\<open>crates/agora-store/src/policy.rs\<close>). A policy row is replaced
  whole; the policy of a team and lane combines the rows that match it, most general first. The reader of the
  operation's argument is a parameter.
\<close>

section \<open>Definitions\<close>

definition NOTICE_TEXT_MAX_CHARS :: nat where "NOTICE_TEXT_MAX_CHARS = 2000"
definition NOTICE_PAGE_MAX :: int where "NOTICE_PAGE_MAX = 500"
definition WILDCARD :: string where "WILDCARD = ''*''"

record policy_args =
  pa_team :: string
  pa_lane :: string
  pa_policy :: team_policy

definition post_notice :: "int \<Rightarrow> string \<Rightarrow> string \<Rightarrow> string \<Rightarrow> string \<Rightarrow> db \<Rightarrow> db" where
  "post_notice now target kind subject text d =
     d \<lparr>db_notices := db_notices d @ [\<lparr>no_seq = db_notice_seq d + 1, no_ts = now, no_target = target, no_kind = kind,
         no_subject = subject, no_text = of_chars (take NOTICE_TEXT_MAX_CHARS (chars_of text))\<rparr>],
       db_notice_seq := db_notice_seq d + 1\<rparr>"

definition refused :: "'a result \<Rightarrow> 'a tx" where
  "refused r = (case r of Inl e \<Rightarrow> Inl (Refused e) | Inr a \<Rightarrow> Inr a)"

definition parse_subject :: "string \<Rightarrow> (string \<times> string) tx" where
  "parse_subject subject =
     bind_result (ok_or (split_once (CHR ''/'') subject) (Invalid ''policy subject must be team/lane'')) (\<lambda>(team, lane).
     bind_result (if team \<noteq> WILDCARD then refused (validate_name ''team'' team) else Inr ()) (\<lambda>_.
     bind_result (if lane \<noteq> WILDCARD then refused (validate_name ''lane'' lane) else Inr ()) (\<lambda>_.
     Inr (team, lane))))"

definition stored_policy :: "db \<Rightarrow> string \<Rightarrow> string \<Rightarrow> team_policy option" where
  "stored_policy d team lane = map_option p_policy (find (\<lambda>r. p_team r = team \<and> p_lane r = lane) (db_policies d))"

text \<open>\<open>INSERT ... ON CONFLICT(team, lane) DO UPDATE\<close>.\<close>

definition upsert_policy :: "policy_row \<Rightarrow> policy_row list \<Rightarrow> policy_row list" where
  "upsert_policy r t =
     (if list_ex (\<lambda>x. p_team x = p_team r \<and> p_lane x = p_lane r) t
      then update_where (\<lambda>x. p_team x = p_team r \<and> p_lane x = p_lane r)
        (\<lambda>x. x \<lparr>p_policy := p_policy r, p_updated := p_updated r, p_by := p_by r\<rparr>) t
      else t @ [r])"

definition changes_chain :: "db \<Rightarrow> string \<Rightarrow> string \<Rightarrow> team_policy \<Rightarrow> bool" where
  "changes_chain d team lane p =
     (tp_escalation_chain p \<noteq> None
      \<or> (case stored_policy d team lane of Some q \<Rightarrow> tp_escalation_chain q \<noteq> None | None \<Rightarrow> False))"

definition policy_set :: "primitives \<Rightarrow> (string \<Rightarrow> policy_args option) \<Rightarrow> (team_policy \<Rightarrow> json) \<Rightarrow> int \<Rightarrow> signed_op \<Rightarrow> db
    \<Rightarrow> (policy_row \<times> db) tx" where
  "policy_set P from_str to_value now op d0 =
     bind_result (authorize P now op ''policy.set'' d0) (\<lambda>(role, d).
     bind_result (need role Supervisor) (\<lambda>_.
     bind_result (parse_subject (o_subject op)) (\<lambda>(team, lane).
     bind_result (ok_or (from_str (o_arg op))
       (Invalid ''policy arg must be a JSON object with team, lane and policy'')) (\<lambda>args.
     bind_result (ensure (pa_team args = team \<and> pa_lane args = lane)
       (Invalid ''policy arg team and lane must match the subject'')) (\<lambda>_.
     bind_result (if changes_chain d team lane (pa_policy args) then need role Controller else Inr ()) (\<lambda>_.
     bind_result (refused (policy_validate (pa_policy args))) (\<lambda>_.
     let row = \<lparr>p_team = team, p_lane = lane, p_policy = pa_policy args, p_updated = now, p_by = actor_hex op\<rparr>
     in Inr (row, append_event now (actor_hex op) ''policy.set'' (o_subject op) (to_value (pa_policy args))
          (d \<lparr>db_policies := upsert_policy row (db_policies d)\<rparr>)))))))))"

definition policies :: "db \<Rightarrow> policy_row list" where
  "policies d = sort_by (\<lambda>a b. then_with (cmp (p_team a) (p_team b)) (cmp (p_lane a) (p_lane b))) (db_policies d)"

text \<open>The loop over the four keys skips a key that was read before.\<close>

definition effective_policy_of :: "db \<Rightarrow> string \<Rightarrow> string \<Rightarrow> bool \<Rightarrow> effective_policy" where
  "effective_policy_of d team lane require_review_default =
     (let keys = foldl (\<lambda>ks key. if key \<in> set ks then ks else ks @ [key]) []
        [(WILDCARD, WILDCARD), (team, WILDCARD), (WILDCARD, lane), (team, lane)]
      in effective (List.map_filter (\<lambda>(t, l). stored_policy d t l) keys) require_review_default)"

definition notices :: "db \<Rightarrow> string \<Rightarrow> int \<Rightarrow> int \<Rightarrow> notice_row list" where
  "notices d target after limit =
     take (nat (min limit NOTICE_PAGE_MAX))
       (sort_key no_seq (filter (\<lambda>n. no_target n = target \<and> after < no_seq n) (db_notices d)))"

section \<open>Notices\<close>

text \<open>Numbers of notices grow with the table, also after old notices are deleted.\<close>

definition notices_ok :: "db \<Rightarrow> bool" where
  "notices_ok d = (sorted_wrt (<) (map no_seq (db_notices d)) \<and> (\<forall>n \<in> set (db_notices d). no_seq n \<le> db_notice_seq d))"

lemma post_notice_ok: "notices_ok d \<Longrightarrow> notices_ok (post_notice now target kind subject text d)"
  by (auto simp: notices_ok_def post_notice_def sorted_wrt_append)

lemma notices_ok_cong: "db_notices d' = db_notices d \<Longrightarrow> db_notice_seq d' = db_notice_seq d \<Longrightarrow> notices_ok d' = notices_ok d"
  by (simp add: notices_ok_def)

lemma post_notice_frame [simp]:
  "db_events (post_notice now t k s x d) = db_events d"
  "db_identities (post_notice now t k s x d) = db_identities d"
  "db_nonces (post_notice now t k s x d) = db_nonces d"
  "db_channels (post_notice now t k s x d) = db_channels d"
  "db_members (post_notice now t k s x d) = db_members d"
  "db_keys (post_notice now t k s x d) = db_keys d"
  "db_rotation (post_notice now t k s x d) = db_rotation d"
  "db_messages (post_notice now t k s x d) = db_messages d"
  "db_attachments (post_notice now t k s x d) = db_attachments d"
  "db_blobs (post_notice now t k s x d) = db_blobs d"
  "db_uploads (post_notice now t k s x d) = db_uploads d"
  "db_cursors (post_notice now t k s x d) = db_cursors d"
  "db_cards (post_notice now t k s x d) = db_cards d"
  "db_evidence (post_notice now t k s x d) = db_evidence d"
  "db_approvals (post_notice now t k s x d) = db_approvals d"
  "db_deps (post_notice now t k s x d) = db_deps d"
  "db_links (post_notice now t k s x d) = db_links d"
  "db_policies (post_notice now t k s x d) = db_policies d"
  "db_reactions (post_notice now t k s x d) = db_reactions d"
  "db_sprints (post_notice now t k s x d) = db_sprints d"
  "db_sprint_cards (post_notice now t k s x d) = db_sprint_cards d"
  "db_knowledge (post_notice now t k s x d) = db_knowledge d"
  "db_statuses (post_notice now t k s x d) = db_statuses d"
  "db_scopes (post_notice now t k s x d) = db_scopes d"
  "db_work (post_notice now t k s x d) = db_work d"
  "db_history (post_notice now t k s x d) = db_history d"
  "db_pools (post_notice now t k s x d) = db_pools d"
  "db_leases (post_notice now t k s x d) = db_leases d"
  "db_marks (post_notice now t k s x d) = db_marks d"
  "db_settings (post_notice now t k s x d) = db_settings d"
  "db_state (post_notice now t k s x d) = db_state d"
  by (simp_all add: post_notice_def)

section \<open>Policies\<close>

lemma refused_Inr [tx_simps]: "refused r = Inr a \<longleftrightarrow> r = Inr a"
  by (simp add: refused_def split: sum.split)

definition policies_ok :: "db \<Rightarrow> bool" where
  "policies_ok d = (distinct (map (\<lambda>r. (p_team r, p_lane r)) (db_policies d)) \<and> (\<forall>r \<in> set (db_policies d). policy_ok (p_policy r)))"

lemma upsert_policy_keys:
  "distinct (map (\<lambda>r. (p_team r, p_lane r)) t) \<Longrightarrow> distinct (map (\<lambda>r. (p_team r, p_lane r)) (upsert_policy r t))"
  by (auto simp: upsert_policy_def map_update_where list_ex_iff)

lemma upsert_policy_ok: "\<forall>x \<in> set t. policy_ok (p_policy x) \<Longrightarrow> policy_ok (p_policy r) \<Longrightarrow> \<forall>x \<in> set (upsert_policy r t). policy_ok (p_policy x)"
  by (auto simp: upsert_policy_def set_update_where)

text \<open>The steps of an operation after its authorization.\<close>

lemmas op_simps = bind_result_Inr_iff ensure_Inr ok_or_Inr need_Inr need_if_Inr refused_Inr

lemma policy_set_Inr:
  assumes "policy_set P from_str to_value now op d = Inr (row, d')"
  obtains role da args where "authorize P now op ''policy.set'' d = Inr (role, da)" "Supervisor \<le> role"
    "parse_subject (o_subject op) = Inr (p_team row, p_lane row)" "from_str (o_arg op) = Some args"
    "pa_team args = p_team row" "pa_lane args = p_lane row" "p_policy row = pa_policy args" "policy_validate (p_policy row) = Inr ()"
    "changes_chain da (p_team row) (p_lane row) (p_policy row) \<longrightarrow> Controller \<le> role"
    "d' = append_event now (actor_hex op) ''policy.set'' (o_subject op) (to_value (p_policy row))
       (da \<lparr>db_policies := upsert_policy row (db_policies da)\<rparr>)"
proof -
  obtain role da team lane args where a: "authorize P now op ''policy.set'' d = Inr (role, da)" "Supervisor \<le> role"
      "parse_subject (o_subject op) = Inr (team, lane)" "from_str (o_arg op) = Some args" "pa_team args = team" "pa_lane args = lane"
      "changes_chain da team lane (pa_policy args) \<longrightarrow> Controller \<le> role" "policy_validate (pa_policy args) = Inr ()"
      "row = \<lparr>p_team = team, p_lane = lane, p_policy = pa_policy args, p_updated = now, p_by = actor_hex op\<rparr>"
      "d' = append_event now (actor_hex op) ''policy.set'' (o_subject op) (to_value (pa_policy args))
       (da \<lparr>db_policies := upsert_policy row (db_policies da)\<rparr>)"
    using assms unfolding policy_set_def Let_def by (clarsimp simp: op_simps simp del: role_Controller_le)
  then show ?thesis using that [of role da args] by simp
qed

lemma policy_set_ok:
  assumes "policy_set P from_str to_value now op d = Inr (row, d')" "policies_ok d"
  shows "policies_ok d'"
proof (rule policy_set_Inr [OF assms(1)], goal_cases)
  case (1 role da args)
  have "db_policies da = db_policies d" using authorize_frame [OF 1(1)] by auto
  then show ?case using assms(2) 1(8) unfolding 1(10)
    using upsert_policy_ok [of "db_policies d" row] by (simp add: policies_ok_def upsert_policy_keys policy_validate_iff)
qed

lemma find_upsert_policy:
  "find (\<lambda>x. p_team x = team \<and> p_lane x = lane) (upsert_policy r t) =
     (if p_team r = team \<and> p_lane r = lane
      then (case find (\<lambda>x. p_team x = team \<and> p_lane x = lane) t of
              Some x \<Rightarrow> Some (x \<lparr>p_policy := p_policy r, p_updated := p_updated r, p_by := p_by r\<rparr>) | None \<Rightarrow> Some r)
      else find (\<lambda>x. p_team x = team \<and> p_lane x = lane) t)"
proof (cases "list_ex (\<lambda>x. p_team x = p_team r \<and> p_lane x = p_lane r) t")
  case True
  then have n: "find (\<lambda>x. p_team x = p_team r \<and> p_lane x = p_lane r) t \<noteq> None" by (auto simp: find_None_iff list_ex_iff)
  let ?f = "find (\<lambda>x. p_team x = team \<and> p_lane x = lane) t"
  have e: "find (\<lambda>x. p_team x = team \<and> p_lane x = lane) (upsert_policy r t) =
      map_option (\<lambda>x. if p_team x = p_team r \<and> p_lane x = p_lane r
        then x \<lparr>p_policy := p_policy r, p_updated := p_updated r, p_by := p_by r\<rparr> else x) ?f"
    using True by (simp add: upsert_policy_def find_update_where)
  then show ?thesis
  proof (cases ?f)
    case None
    then have "\<not> (p_team r = team \<and> p_lane r = lane)" using n by metis
    then show ?thesis using e None by auto
  next
    case (Some x)
    then show ?thesis using e find_SomeD [OF Some] by auto
  qed
next
  case False
  then have "p_team r = team \<and> p_lane r = lane \<longrightarrow> find (\<lambda>x. p_team x = team \<and> p_lane x = lane) t = None"
    by (auto simp: find_None_iff list_ex_iff)
  then show ?thesis using False by (auto simp: upsert_policy_def find_append split: option.split)
qed

lemma stored_policy_set:
  assumes "policy_set P from_str to_value now op d = Inr (row, d')"
  shows "stored_policy d' team lane = (if team = p_team row \<and> lane = p_lane row then Some (p_policy row) else stored_policy d team lane)"
proof (rule policy_set_Inr [OF assms(1)], goal_cases)
  case (1 role da args)
  have "db_policies da = db_policies d" using authorize_frame [OF 1(1)] by auto
  then show ?case unfolding 1(10) stored_policy_def
    by (auto simp: find_upsert_policy split: option.split)
qed

end
