(* ===== verification/Board.thy ===== *)
theory Board
  imports Teams Graph
begin

text \<open>
  Cards in the store: creation, evidence, approvals, moves, the watchdog and the lists
  (\<open>crates/agora-store/src/lib.rs\<close>), and the cid extensions: fields, dependencies, links, escalation, limits on work
  in progress, the board summary and the cid side of a finished job (\<open>cards_ext.rs\<close> and its submodules). Readers of
  JSON arguments are parameters.
\<close>

section \<open>Arguments\<close>

datatype link_rel = Re | Blocks | Relates | Duplicates | CausedBy | LJob | LMessage | LNote

fun link_as_str :: "link_rel \<Rightarrow> string" where
  "link_as_str Re = ''re''"
| "link_as_str Blocks = ''blocks''"
| "link_as_str Relates = ''relates''"
| "link_as_str Duplicates = ''duplicates''"
| "link_as_str CausedBy = ''caused_by''"
| "link_as_str LJob = ''job''"
| "link_as_str LMessage = ''message''"
| "link_as_str LNote = ''note''"

definition link_parse :: "string \<Rightarrow> link_rel option" where
  "link_parse s =
     (if s = ''re'' then Some Re else if s = ''blocks'' then Some Blocks else if s = ''relates'' then Some Relates
      else if s = ''duplicates'' then Some Duplicates else if s = ''caused_by'' then Some CausedBy
      else if s = ''job'' then Some LJob else if s = ''message'' then Some LMessage
      else if s = ''note'' then Some LNote else None)"

record card_update_args =
  cu_priority :: "int option"
  cu_value :: "f64 option"
  cu_size :: "f64 option"
  cu_team :: "string option"
  cu_needs_owner :: "bool option"
  cu_owner_action :: "string option"

record card_dep_args =
  cd_after :: string
  cd_remove :: bool

record card_link_args =
  cl_rel :: link_rel
  cl_target :: string
  cl_remove :: bool

record escalate_args =
  es_owner_action :: string
  es_to :: "string list"

datatype task_state = TQueued | TClaimed | TRunning | TDone | TFailed | TCancelled

fun task_as_str :: "task_state \<Rightarrow> string" where
  "task_as_str TQueued = ''queued''"
| "task_as_str TClaimed = ''claimed''"
| "task_as_str TRunning = ''running''"
| "task_as_str TDone = ''done''"
| "task_as_str TFailed = ''failed''"
| "task_as_str TCancelled = ''cancelled''"

definition task_parse :: "string \<Rightarrow> task_state option" where
  "task_parse s =
     (if s = ''queued'' then Some TQueued else if s = ''claimed'' then Some TClaimed else if s = ''running'' then Some TRunning
      else if s = ''done'' then Some TDone else if s = ''failed'' then Some TFailed
      else if s = ''cancelled'' then Some TCancelled else None)"

definition task_is_final :: "task_state \<Rightarrow> bool" where
  "task_is_final s = (s \<in> {TDone, TFailed, TCancelled})"

datatype job_outcome = JDone | JFailed | JCancelled

record card_sync_args =
  cs_task :: string
  cs_outcome :: job_outcome
  cs_status :: "int option"
  cs_log :: "string option"
  cs_note :: string

record new_card_fields =
  nf_priority :: int
  nf_value :: f64
  nf_size :: f64
  nf_team :: string
  nf_after :: "string list"

record card_link_t =
  lk_rel :: link_rel
  lk_target :: string

record card_ext_t =
  x_id :: string
  x_priority :: int
  x_value :: f64
  x_size :: f64
  x_team :: string
  x_needs_owner :: bool
  x_owner_action :: string
  x_after :: "string list"
  x_links :: "card_link_t list"
  x_jobs :: "string list"

section \<open>Reading\<close>

definition card_of :: "db \<Rightarrow> string \<Rightarrow> card_row option" where
  "card_of d cid = find (\<lambda>c. c_id c = cid) (db_cards d)"

definition require_card :: "db \<Rightarrow> string \<Rightarrow> unit tx" where
  "require_card d cid = ensure (list_ex (\<lambda>c. c_id c = cid) (db_cards d)) (NotFound cid)"

definition card_state_of :: "db \<Rightarrow> string \<Rightarrow> card_state tx" where
  "card_state_of d cid =
     bind_result (ok_or (card_of d cid) (NotFound cid)) (\<lambda>c. ok_or (card_parse (c_state c)) (BadState (c_state c)))"

definition load_card :: "db \<Rightarrow> string \<Rightarrow> card_row tx" where
  "load_card d cid = ok_or (card_of d cid) (NotFound cid)"

definition check_edit :: "role \<Rightarrow> string option \<Rightarrow> string \<Rightarrow> unit tx" where
  "check_edit role owner actor =
     (case owner of Some w \<Rightarrow> if w \<noteq> actor then need role Supervisor else need role Worker | None \<Rightarrow> need role Worker)"

definition is_wip :: "card_row \<Rightarrow> bool" where
  "is_wip c = (c_state c = ''claimed'' \<or> c_state c = ''doing'')"

text \<open>The four layers in order, without the check for repeated keys that \<open>effective_policy\<close> has.\<close>

definition effective_for :: "db \<Rightarrow> string \<Rightarrow> string \<Rightarrow> bool \<Rightarrow> effective_policy" where
  "effective_for d team lane require_review_default =
     effective (List.map_filter (\<lambda>(t, l). stored_policy d t l) [(''*'', ''*''), (team, ''*''), (''*'', lane), (team, lane)])
       require_review_default"

definition is_active_person :: "db \<Rightarrow> string \<Rightarrow> bool" where
  "is_active_person d pk = list_ex (\<lambda>i. i_pubkey i = pk \<and> \<not> i_revoked i \<and> \<not> i_system i) (db_identities d)"

definition supervisors :: "db \<Rightarrow> string list" where
  "supervisors d =
     map fst (filter (\<lambda>(pk, role). case role_parse role of Some r \<Rightarrow> Supervisor \<le> r | None \<Rightarrow> False)
       (sort_key fst (map (\<lambda>i. (hex (i_pubkey i), i_role i)) (filter (\<lambda>i. \<not> i_revoked i \<and> \<not> i_system i) (db_identities d)))))"

definition wip_count :: "db \<Rightarrow> string \<Rightarrow> string \<Rightarrow> string \<Rightarrow> int" where
  "wip_count d team lane cid =
     int (length (filter (\<lambda>c. c_team c = team \<and> c_lane c = lane \<and> is_wip c \<and> c_id c \<noteq> cid) (db_cards d)))"

definition check_wip :: "db \<Rightarrow> string \<Rightarrow> bool \<Rightarrow> unit tx" where
  "check_wip d cid require_review_default =
     bind_result (ok_or (card_of d cid) (NotFound cid)) (\<lambda>c.
     case ep_wip_limit (effective_for d (c_team c) (c_lane c) require_review_default) of
       None \<Rightarrow> Inr ()
     | Some limit \<Rightarrow>
         let count = wip_count d (c_team c) (c_lane c) cid
         in ensure (count < limit)
              (Refused (''wip limit reached: lane '' @ c_team c @ ''/'' @ c_lane c @ '' has '' @ show_int count @ '' of '' @ show_int limit)))"

definition list_cards :: "db \<Rightarrow> card_state option \<Rightarrow> string option \<Rightarrow> int \<Rightarrow> card_row list tx" where
  "list_cards d state lane limit =
     (let rows = take (nat (max 0 (min 500 limit)))
        (sort_by (\<lambda>a b. then_with (cmp (c_updated b) (c_updated a)) (cmp (c_id a) (c_id b)))
          (filter (\<lambda>c. (case state of None \<Rightarrow> True | Some s \<Rightarrow> c_state c = card_as_str s)
             \<and> (case lane of None \<Rightarrow> True | Some l \<Rightarrow> c_lane c = l)) (db_cards d)))
      in case find (\<lambda>c. card_parse (c_state c) = None) rows of
           Some c \<Rightarrow> Inl (BadState (c_state c))
         | None \<Rightarrow> Inr rows)"

definition stale_cards :: "db \<Rightarrow> int \<Rightarrow> int \<Rightarrow> (string \<times> string option) list" where
  "stale_cards d now max_idle =
     map (\<lambda>c. (c_id c, c_owner c))
       (sort_key c_updated (filter (\<lambda>c. is_wip c \<and> c_updated c < sat_i64 (now - max_idle)) (db_cards d)))"

section \<open>Creation\<close>

definition jas_i64 :: "json \<Rightarrow> int option" where
  "jas_i64 v = (case v of JNum n \<Rightarrow> as_i64 n | _ \<Rightarrow> None)"

definition jas_f64 :: "json \<Rightarrow> f64 option" where
  "jas_f64 v = (case v of JNum n \<Rightarrow> Some (as_f64 n) | _ \<Rightarrow> None)"

definition check_positive :: "f64 \<Rightarrow> string \<Rightarrow> f64 tx" where
  "check_positive x msg = (if is_finite x \<and> f_lt f_zero x then Inr x else Inl (Invalid msg))"

definition positive_field :: "json option \<Rightarrow> f64 \<Rightarrow> string \<Rightarrow> f64 tx" where
  "positive_field v dflt msg =
     (case v of None \<Rightarrow> Inr dflt | Some v \<Rightarrow> check_positive (case jas_f64 v of Some x \<Rightarrow> x | None \<Rightarrow> f_nan) msg)"

definition check_team :: "string \<Rightarrow> unit tx" where
  "check_team team = ensure (int (length (chars_of team)) \<le> 64) (Invalid ''card team must be at most 64 characters'')"

definition VALUE_MSG :: string where "VALUE_MSG = ''card value must be a positive number''"
definition SIZE_MSG :: string where "SIZE_MSG = ''card size must be a positive number''"
definition AFTER_MSG :: string where "AFTER_MSG = ''card after must be a list of card ids''"
definition CYCLE :: string where "CYCLE = ''card dependencies would form a cycle''"

definition parse_team :: "json option \<Rightarrow> string tx" where
  "parse_team v = (case v of
     None \<Rightarrow> Inr []
   | Some v \<Rightarrow> bind_result (ok_or (jas_str v) (Invalid ''card team must be a string'')) (\<lambda>t.
       bind_result (check_team t) (\<lambda>_. Inr t)))"

definition parse_after :: "json option \<Rightarrow> string list tx" where
  "parse_after v = (case v of
     None \<Rightarrow> Inr []
   | Some (JArr ids) \<Rightarrow> map_result (\<lambda>i. ok_or (jas_str i) (Invalid AFTER_MSG)) ids
   | Some _ \<Rightarrow> Inl (Invalid AFTER_MSG))"

definition parse_fields :: "json \<Rightarrow> new_card_fields tx" where
  "parse_fields arg =
     bind_result (case jget ''priority'' arg of None \<Rightarrow> Inr 0
       | Some v \<Rightarrow> ok_or (jas_i64 v) (Invalid ''card priority must be an integer'')) (\<lambda>priority.
     bind_result (positive_field (jget ''value'' arg) (lit 1 1) VALUE_MSG) (\<lambda>val.
     bind_result (positive_field (jget ''size'' arg) (lit 1 1) SIZE_MSG) (\<lambda>sz.
     bind_result (parse_team (jget ''team'' arg)) (\<lambda>team.
     bind_result (parse_after (jget ''after'' arg)) (\<lambda>after.
     Inr \<lparr>nf_priority = priority, nf_value = val, nf_size = sz, nf_team = team, nf_after = after\<rparr>)))))"

abbreviation dep_id :: "dep_row \<Rightarrow> string \<times> string" where
  "dep_id r \<equiv> (d_card r, d_after r)"

fun insert_deps :: "string \<Rightarrow> string list \<Rightarrow> db \<Rightarrow> db tx" where
  "insert_deps cid [] d = Inr d"
| "insert_deps cid (after # rest) d =
     (if after = cid then Inl (Invalid ''a card cannot depend on itself'')
      else bind_result (require_card d after) (\<lambda>_.
        insert_deps cid rest
          (d \<lparr>db_deps := fst (insert_ignore dep_id \<lparr>d_card = cid, d_after = after\<rparr> (db_deps d))\<rparr>)))"

definition new_card :: "int \<Rightarrow> string \<Rightarrow> string \<Rightarrow> string \<Rightarrow> new_card_fields \<Rightarrow> card_row" where
  "new_card now cid title lane f =
     \<lparr>c_id = cid, c_title = title, c_lane = lane, c_state = card_as_str Backlog, c_owner = None, c_created = now,
      c_updated = now, c_priority = nf_priority f, c_value = nf_value f, c_size = nf_size f, c_team = nf_team f,
      c_needs_owner = False, c_owner_action = []\<rparr>"

definition card_title :: "json \<Rightarrow> string tx" where
  "card_title arg =
     ok_or (case jget ''title'' arg of Some (JStr t) \<Rightarrow> if t \<noteq> [] then Some t else None | _ \<Rightarrow> None)
       (Invalid ''card title must be a non-empty string'')"

definition card_lane :: "json \<Rightarrow> string tx" where
  "card_lane arg =
     (case jget ''lane'' arg of None \<Rightarrow> Inr ''default'' | Some v \<Rightarrow> ok_or (jas_str v) (Invalid ''card lane must be a string''))"

definition create_card :: "primitives \<Rightarrow> (string \<Rightarrow> json option) \<Rightarrow> int \<Rightarrow> signed_op \<Rightarrow> db \<Rightarrow> db tx" where
  "create_card P from_str now op d0 =
     bind_result (authorize P now op ''card.create'' d0) (\<lambda>(role, d).
     bind_result (need role Worker) (\<lambda>_.
     bind_result (ensure (o_subject op \<noteq> []) (Invalid ''card id must not be empty'')) (\<lambda>_.
     bind_result (ok_or (from_str (o_arg op)) (Invalid ''card arg must be JSON'')) (\<lambda>arg.
     bind_result (card_title arg) (\<lambda>title.
     bind_result (card_lane arg) (\<lambda>lane.
     bind_result (parse_fields arg) (\<lambda>fields.
     bind_result (ensure (\<not> list_ex (\<lambda>c. c_id c = o_subject op) (db_cards d)) (Invalid ''card already exists'')) (\<lambda>_.
     bind_result (insert_deps (o_subject op) (nf_after fields)
       (d \<lparr>db_cards := db_cards d @ [new_card now (o_subject op) title lane fields]\<rparr>)) (\<lambda>d'.
     Inr (append_event now (actor_hex op) ''card.created'' (o_subject op)
       (JObj [(''lane'', JStr lane), (''title'', JStr title)]) d'))))))))))"

section \<open>Evidence, approvals and moves\<close>

definition add_evidence :: "primitives \<Rightarrow> int \<Rightarrow> signed_op \<Rightarrow> db \<Rightarrow> db tx" where
  "add_evidence P now op d0 =
     bind_result (authorize P now op ''card.evidence'' d0) (\<lambda>(role, d).
     bind_result (need role Worker) (\<lambda>_.
     bind_result (ensure (o_arg op \<noteq> []) (Invalid ''evidence ref must not be empty'')) (\<lambda>_.
     bind_result (require_card d (o_subject op)) (\<lambda>_.
     Inr (append_event now (actor_hex op) ''card.evidence'' (o_subject op) (JObj [(''ref'', JStr (o_arg op))])
       (d \<lparr>db_evidence := fst (insert_ignore (\<lambda>r. (ev_card r, ev_ref r))
          \<lparr>ev_card = o_subject op, ev_ref = o_arg op, ev_by = actor_hex op\<rparr> (db_evidence d))\<rparr>))))))"

definition approve :: "primitives \<Rightarrow> int \<Rightarrow> signed_op \<Rightarrow> db \<Rightarrow> db tx" where
  "approve P now op d0 =
     bind_result (authorize P now op ''card.approve'' d0) (\<lambda>(role, d).
     bind_result (need role Worker) (\<lambda>_.
     bind_result (card_state_of d (o_subject op)) (\<lambda>frm.
     bind_result (ensure (frm = Review) (Invalid ''approval only in review'')) (\<lambda>_.
     Inr (append_event now (actor_hex op) ''card.approved'' (o_subject op) (JObj [])
       (d \<lparr>db_approvals := fst (insert_ignore (\<lambda>r. (ap_card r, ap_by r))
          \<lparr>ap_card = o_subject op, ap_by = actor_hex op\<rparr> (db_approvals d))\<rparr>))))))"

definition has_evidence_for :: "db \<Rightarrow> string \<Rightarrow> bool" where
  "has_evidence_for d cid = list_ex (\<lambda>e. ev_card e = cid) (db_evidence d)"

definition approved_independently :: "db \<Rightarrow> string \<Rightarrow> string option \<Rightarrow> bool" where
  "approved_independently d cid owner =
     list_ex (\<lambda>a. ap_card a = cid \<and> Some (ap_by a) \<noteq> owner
       \<and> list_ex (\<lambda>i. hex (i_pubkey i) = ap_by a \<and> \<not> i_revoked i) (db_identities d)) (db_approvals d)"

definition guarded :: "card_state \<Rightarrow> string option \<Rightarrow> bool" where
  "guarded frm owner = (frm \<in> {Claimed, Doing, Review} \<or> frm = Blocked \<and> owner \<noteq> None)"

definition may_move :: "role \<Rightarrow> string \<Rightarrow> card_state \<Rightarrow> string option \<Rightarrow> unit tx" where
  "may_move role actor frm owner =
     ensure (\<not> (guarded frm owner \<and> role < Supervisor \<and> owner \<noteq> Some actor)) (Transition (Forbidden role))"

definition lift_transition :: "transition_error + unit \<Rightarrow> unit tx" where
  "lift_transition r = (case r of Inl e \<Rightarrow> Inl (Transition e) | Inr u \<Rightarrow> Inr u)"

definition enters_work :: "card_state \<Rightarrow> card_state \<Rightarrow> bool" where
  "enters_work frm to = (to \<in> {Claimed, Doing} \<and> frm \<notin> {Claimed, Doing})"

definition new_owner :: "card_state \<Rightarrow> string \<Rightarrow> string option \<Rightarrow> string option" where
  "new_owner to actor owner = (case to of Claimed \<Rightarrow> Some actor | Ready \<Rightarrow> None | Backlog \<Rightarrow> None | _ \<Rightarrow> owner)"

definition clear_approvals :: "bool \<Rightarrow> string \<Rightarrow> db \<Rightarrow> db" where
  "clear_approvals c cid d = (if c then d \<lparr>db_approvals := delete_where (\<lambda>a. ap_card a = cid) (db_approvals d)\<rparr> else d)"

definition set_card :: "string \<Rightarrow> (card_row \<Rightarrow> card_row) \<Rightarrow> db \<Rightarrow> db" where
  "set_card cid f d = d \<lparr>db_cards := update_where (\<lambda>c. c_id c = cid) f (db_cards d)\<rparr>"

definition move_to :: "int \<Rightarrow> string \<Rightarrow> card_state \<Rightarrow> string option \<Rightarrow> db \<Rightarrow> db" where
  "move_to now cid to owner d =
     set_card cid (\<lambda>c. c \<lparr>c_state := card_as_str to, c_owner := owner, c_updated := now\<rparr>)
       (clear_approvals (to \<in> {Claimed, Ready, Backlog, Doing}) cid d)"

definition move_gate :: "db \<Rightarrow> string \<Rightarrow> string option \<Rightarrow> bool \<Rightarrow> gate" where
  "move_gate d cid owner review =
     \<lparr>has_evidence = has_evidence_for d cid, independent_approval = approved_independently d cid owner, require_review = review\<rparr>"

definition transition :: "primitives \<Rightarrow> int \<Rightarrow> signed_op \<Rightarrow> bool \<Rightarrow> db \<Rightarrow> db tx" where
  "transition P now op review d0 =
     bind_result (authorize P now op ''card.move'' d0) (\<lambda>(role, d).
     bind_result (ok_or (card_parse (o_arg op)) (Invalid ''unknown card state'')) (\<lambda>to.
     bind_result (load_card d (o_subject op)) (\<lambda>c.
     bind_result (ok_or (card_parse (c_state c)) (BadState (c_state c))) (\<lambda>frm.
     bind_result (if frm = Backlog then need role Supervisor else Inr ()) (\<lambda>_.
     bind_result (lift_transition (check_transition frm to role (move_gate d (o_subject op) (c_owner c) review))) (\<lambda>_.
     bind_result (may_move role (actor_hex op) frm (c_owner c)) (\<lambda>_.
     bind_result (if enters_work frm to then check_wip d (o_subject op) review else Inr ()) (\<lambda>_.
     Inr (append_event now (actor_hex op) ''card.moved'' (o_subject op)
       (JObj [(''from'', JStr (card_as_str frm)), (''to'', JStr (card_as_str to))])
       (move_to now (o_subject op) to (new_owner to (actor_hex op) (c_owner c)) d))))))))))"

definition reclaim_stale :: "primitives \<Rightarrow> int \<Rightarrow> signed_op \<Rightarrow> db \<Rightarrow> db tx" where
  "reclaim_stale P now op d0 =
     bind_result (authorize P now op ''card.reclaim'' d0) (\<lambda>(role, d).
     bind_result (need role Supervisor) (\<lambda>_.
     bind_result (ensure (list_ex (\<lambda>c. c_id c = o_subject op \<and> is_wip c) (db_cards d))
       (Invalid ''card is not claimed or in progress'')) (\<lambda>_.
     Inr (append_event now (actor_hex op) ''card.reclaimed'' (o_subject op) (JObj [])
       (clear_approvals True (o_subject op)
         (d \<lparr>db_cards := update_where (\<lambda>c. c_id c = o_subject op \<and> is_wip c)
            (\<lambda>c. c \<lparr>c_state := ''ready'', c_owner := None, c_updated := now\<rparr>) (db_cards d)\<rparr>))))))"

section \<open>Fields, dependencies and links\<close>

definition OWNER_ACTION_MAX :: int where "OWNER_ACTION_MAX = 1000"
definition ESCALATE_TARGETS_MAX :: int where "ESCALATE_TARGETS_MAX = 16"

definition check_action :: "string \<Rightarrow> unit tx" where
  "check_action action =
     ensure (int (length (chars_of action)) \<le> OWNER_ACTION_MAX) (Invalid ''owner action is longer than 1000 characters'')"

definition card_ext_of :: "db \<Rightarrow> string \<Rightarrow> card_ext_t tx" where
  "card_ext_of d cid =
     bind_result (load_card d cid) (\<lambda>c.
     let after = sort (map d_after (filter (\<lambda>r. d_card r = cid) (db_deps d)));
         jobs = map w_id (sort_key w_seq (filter (\<lambda>w. w_card w = Some cid) (db_work d)));
         links = sort_by (\<lambda>a b. then_with (cmp (l_rel a) (l_rel b)) (cmp (l_target a) (l_target b)))
           (filter (\<lambda>l. l_card l = cid) (db_links d))
     in bind_result (map_result (\<lambda>l. bind_result (ok_or (link_parse (l_rel l)) (Invalid ''corrupt card link in database''))
            (\<lambda>rel. Inr \<lparr>lk_rel = rel, lk_target = l_target l\<rparr>)) links) (\<lambda>links.
        Inr \<lparr>x_id = cid, x_priority = c_priority c, x_value = c_value c, x_size = c_size c, x_team = c_team c,
          x_needs_owner = c_needs_owner c, x_owner_action = c_owner_action c, x_after = after, x_links = links, x_jobs = jobs\<rparr>))"

definition card_ext :: "db \<Rightarrow> string list \<Rightarrow> card_ext_t list tx" where
  "card_ext d ids = map_result (card_ext_of d) ids"

text \<open>The new values of the columns, each checked when it is given.\<close>

definition update_fields :: "card_update_args \<Rightarrow> card_row \<Rightarrow> card_row tx" where
  "update_fields args c =
     bind_result (case cu_value args of Some v \<Rightarrow> check_positive v VALUE_MSG | None \<Rightarrow> Inr (c_value c)) (\<lambda>val.
     bind_result (case cu_size args of Some v \<Rightarrow> check_positive v SIZE_MSG | None \<Rightarrow> Inr (c_size c)) (\<lambda>sz.
     bind_result (case cu_team args of Some t \<Rightarrow> bind_result (check_team t) (\<lambda>_. Inr t) | None \<Rightarrow> Inr (c_team c)) (\<lambda>team.
     bind_result (case cu_owner_action args of Some a \<Rightarrow> bind_result (check_action a) (\<lambda>_. Inr a)
       | None \<Rightarrow> Inr (c_owner_action c)) (\<lambda>action.
     Inr (c \<lparr>c_priority := (case cu_priority args of Some p \<Rightarrow> p | None \<Rightarrow> c_priority c), c_value := val, c_size := sz,
       c_team := team, c_needs_owner := (case cu_needs_owner args of Some b \<Rightarrow> b | None \<Rightarrow> c_needs_owner c),
       c_owner_action := action\<rparr>)))))"

definition updated_event :: "card_row \<Rightarrow> json" where
  "updated_event c =
     JObj [(''needs_owner'', JBool (c_needs_owner c)), (''owner_action'', JStr (c_owner_action c)),
       (''priority'', jint (c_priority c)), (''size'', JNum (NFloat (c_size c))), (''team'', JStr (c_team c)),
       (''value'', JNum (NFloat (c_value c)))]"

definition set_fields_of :: "card_row \<Rightarrow> card_row \<Rightarrow> card_row" where
  "set_fields_of n c = c \<lparr>c_priority := c_priority n, c_value := c_value n, c_size := c_size n, c_team := c_team n,
     c_needs_owner := c_needs_owner n, c_owner_action := c_owner_action n\<rparr>"

definition card_update :: "primitives \<Rightarrow> (string \<Rightarrow> card_update_args option) \<Rightarrow> int \<Rightarrow> signed_op \<Rightarrow> db \<Rightarrow> (card_ext_t \<times> db) tx" where
  "card_update P from_str now op d0 =
     bind_result (authorize P now op ''card.update'' d0) (\<lambda>(role, d).
     bind_result (ok_or (from_str (o_arg op)) (Invalid ''card update arg must be JSON'')) (\<lambda>args.
     bind_result (load_card d (o_subject op)) (\<lambda>c.
     bind_result (check_edit role (c_owner c) (actor_hex op)) (\<lambda>_.
     bind_result (update_fields args c) (\<lambda>n.
     let d' = append_event now (actor_hex op) ''card.updated'' (o_subject op) (updated_event n)
       (set_card (o_subject op) (set_fields_of n) d)
     in bind_result (card_ext_of d' (o_subject op)) (\<lambda>ext. Inr (ext, d')))))))"

definition dep_ids :: "db \<Rightarrow> string list" where
  "dep_ids d = sort (remdups (concat (map (\<lambda>r. [d_after r, d_card r]) (db_deps d))))"

definition dep_tasks :: "db \<Rightarrow> task list" where
  "dep_tasks d = map (\<lambda>(index, i). \<lparr>t_index = index, t_id = i, t_title = [], t_kind = ''other'', t_tier = tier_of ''other'',
     t_queued = None, t_after = map d_after (filter (\<lambda>r. d_card r = i) (db_deps d)), t_size = lit 1 1, t_value = lit 1 1,
     t_files = []\<rparr>) (List.enumerate 0 (dep_ids d))"

definition check_acyclic :: "db \<Rightarrow> unit tx" where
  "check_acyclic d = (case graph_new (dep_tasks d) of Inr _ \<Rightarrow> Inr () | Inl _ \<Rightarrow> Inl (Invalid CYCLE))"

definition remove_dep :: "int \<Rightarrow> string \<Rightarrow> string \<Rightarrow> string \<Rightarrow> db \<Rightarrow> db tx" where
  "remove_dep now actor cid after d =
     bind_result (ensure (list_ex (\<lambda>r. d_card r = cid \<and> d_after r = after) (db_deps d)) (Invalid ''card has no such dependency'')) (\<lambda>_.
     Inr (append_event now actor ''card.dep_removed'' cid (JObj [(''after'', JStr after)])
       (d \<lparr>db_deps := delete_where (\<lambda>r. d_card r = cid \<and> d_after r = after) (db_deps d)\<rparr>)))"

definition add_dep :: "int \<Rightarrow> string \<Rightarrow> string \<Rightarrow> string \<Rightarrow> db \<Rightarrow> db tx" where
  "add_dep now actor cid after d =
     (case insert_ignore dep_id \<lparr>d_card = cid, d_after = after\<rparr> (db_deps d) of (deps, added) \<Rightarrow>
        bind_result (ensure added (Invalid ''card already depends on that card'')) (\<lambda>_.
        bind_result (check_acyclic (d \<lparr>db_deps := deps\<rparr>)) (\<lambda>_.
        Inr (append_event now actor ''card.dep_added'' cid (JObj [(''after'', JStr after)]) (d \<lparr>db_deps := deps\<rparr>)))))"

definition card_dep :: "primitives \<Rightarrow> (string \<Rightarrow> card_dep_args option) \<Rightarrow> int \<Rightarrow> signed_op \<Rightarrow> db \<Rightarrow> db tx" where
  "card_dep P from_str now op d0 =
     bind_result (authorize P now op ''card.dep'' d0) (\<lambda>(role, d).
     bind_result (ok_or (from_str (o_arg op)) (Invalid ''card dep arg must be JSON'')) (\<lambda>args.
     bind_result (load_card d (o_subject op)) (\<lambda>c.
     bind_result (check_edit role (c_owner c) (actor_hex op)) (\<lambda>_.
     bind_result (ensure (cd_after args \<noteq> o_subject op) (Invalid ''a card cannot depend on itself'')) (\<lambda>_.
     bind_result (require_card d (cd_after args)) (\<lambda>_.
     if cd_remove args then remove_dep now (actor_hex op) (o_subject op) (cd_after args) d
     else add_dep now (actor_hex op) (o_subject op) (cd_after args) d))))))"

definition change_link :: "int \<Rightarrow> string \<Rightarrow> string \<Rightarrow> card_link_args \<Rightarrow> db \<Rightarrow> db tx" where
  "change_link now actor cid args d =
     (let rel = link_as_str (cl_rel args);
          data = JObj [(''rel'', JStr rel), (''target'', JStr (cl_target args))];
          same = (\<lambda>l. l_card l = cid \<and> l_rel l = rel \<and> l_target l = cl_target args)
      in if cl_remove args then
           bind_result (ensure (list_ex same (db_links d)) (Invalid ''card has no such link'')) (\<lambda>_.
           Inr (append_event now actor ''card.unlinked'' cid data (d \<lparr>db_links := delete_where same (db_links d)\<rparr>)))
         else
           bind_result (ensure (\<not> list_ex same (db_links d)) (Invalid ''card already has that link'')) (\<lambda>_.
           Inr (append_event now actor ''card.linked'' cid data
             (d \<lparr>db_links := db_links d @ [\<lparr>l_card = cid, l_rel = rel, l_target = cl_target args, l_created = now, l_by = actor\<rparr>]\<rparr>))))"

definition card_link :: "primitives \<Rightarrow> (string \<Rightarrow> card_link_args option) \<Rightarrow> int \<Rightarrow> signed_op \<Rightarrow> db \<Rightarrow> db tx" where
  "card_link P from_str now op d0 =
     bind_result (authorize P now op ''card.link'' d0) (\<lambda>(role, d).
     bind_result (ok_or (from_str (o_arg op)) (Invalid ''card link arg must be JSON'')) (\<lambda>args.
     bind_result (load_card d (o_subject op)) (\<lambda>c.
     bind_result (check_edit role (c_owner c) (actor_hex op)) (\<lambda>_.
     bind_result (ensure (cl_target args \<noteq> [] \<and> int (length (cl_target args)) \<le> 256) (Invalid ''link target must be 1 to 256 bytes'')) (\<lambda>_.
     change_link now (actor_hex op) (o_subject op) args d)))))"

section \<open>Escalation\<close>

definition str_trim :: "string \<Rightarrow> string" where
  "str_trim s = of_chars (rev (dropWhile is_whitespace (rev (dropWhile is_whitespace (chars_of s)))))"

definition unique :: "string list \<Rightarrow> string list" where
  "unique keys = foldl (\<lambda>out key. if key \<in> set out then out else out @ [key]) [] keys"

definition TARGET_MSG :: string where
  "TARGET_MSG = ''escalation target must be a 64-character lowercase hex public key''"

fun check_targets :: "db \<Rightarrow> string list \<Rightarrow> unit tx" where
  "check_targets d [] = Inr ()"
| "check_targets d (key # rest) =
     bind_result (ok_or (unhex32 key) (Invalid TARGET_MSG)) (\<lambda>pk.
     bind_result (ensure (is_active_person d pk) (Invalid ''escalation target is not an active identity'')) (\<lambda>_.
     check_targets d rest))"

definition escalation_targets :: "db \<Rightarrow> card_row \<Rightarrow> string list \<Rightarrow> bool \<Rightarrow> string list tx" where
  "escalation_targets d c to review =
     (if to = [] then
        (let chain = ep_escalation_chain (effective_for d (c_team c) (c_lane c) review)
         in Inr (if chain = [] then supervisors d else unique chain))
      else
        bind_result (ensure (int (length to) \<le> ESCALATE_TARGETS_MAX) (Invalid ''too many escalation targets'')) (\<lambda>_.
        bind_result (check_targets d to) (\<lambda>_.
        Inr (unique to))))"

definition post_all :: "int \<Rightarrow> string \<Rightarrow> string \<Rightarrow> string \<Rightarrow> string list \<Rightarrow> db \<Rightarrow> db" where
  "post_all now kind subject text targets d = foldl (\<lambda>d target. post_notice now target kind subject text d) d targets"

definition flag_owner :: "string \<Rightarrow> string \<Rightarrow> db \<Rightarrow> db" where
  "flag_owner cid action d = set_card cid (\<lambda>c. c \<lparr>c_needs_owner := True, c_owner_action := action\<rparr>) d"

definition card_escalate :: "primitives \<Rightarrow> (string \<Rightarrow> escalate_args option) \<Rightarrow> int \<Rightarrow> signed_op \<Rightarrow> bool \<Rightarrow> db \<Rightarrow> (string list \<times> db) tx" where
  "card_escalate P from_str now op review d0 =
     bind_result (authorize P now op ''card.escalate'' d0) (\<lambda>(role, d).
     bind_result (ok_or (from_str (o_arg op)) (Invalid ''card escalate arg must be JSON'')) (\<lambda>args.
     bind_result (load_card d (o_subject op)) (\<lambda>c.
     bind_result (need role (if c_owner c = Some (actor_hex op) then Worker else Supervisor)) (\<lambda>_.
     let action = str_trim (es_owner_action args) in
     bind_result (ensure (action \<noteq> []) (Invalid ''owner action must not be empty'')) (\<lambda>_.
     bind_result (check_action action) (\<lambda>_.
     bind_result (escalation_targets d c (es_to args) review) (\<lambda>targets.
     Inr (targets, append_event now (actor_hex op) ''card.escalated'' (o_subject op)
       (JObj [(''notified'', JArr (map JStr targets)), (''owner_action'', JStr action)])
       (post_all now ''escalation'' (o_subject op)
         (''card '' @ o_subject op @ '' ('' @ c_title c @ '') needs its owner: '' @ action) targets
         (flag_owner (o_subject op) action d))))))))))"

section \<open>The board summary\<close>

record needs_owner_t =
  ne_card :: string
  ne_title :: string
  ne_owner_action :: string

record wip_view =
  wv_team :: string
  wv_lane :: string
  wv_count :: int
  wv_limit :: "int option"

record quiet_view_t =
  qv_state :: string
  qv_job :: "string option"
  qv_lease :: "string option"
  qv_seconds_left :: f64
  qv_text :: string

record board_extras_t =
  be_needs_owner :: "needs_owner_t list"
  be_wip :: "wip_view list"
  be_running_jobs :: int
  be_waiting_jobs :: int
  be_queued_tasks :: int
  be_open_leases :: int
  be_quiet :: "quiet_view_t option"
  be_paused :: "string option"

definition count_u32 :: "('r \<Rightarrow> bool) \<Rightarrow> 'r list \<Rightarrow> int" where
  "count_u32 p t = min u32_max (int (length (filter p t)))"

definition needs_owner_cards :: "db \<Rightarrow> needs_owner_t list" where
  "needs_owner_cards d =
     map (\<lambda>c. \<lparr>ne_card = c_id c, ne_title = c_title c, ne_owner_action = c_owner_action c\<rparr>)
       (sort_key c_id (filter c_needs_owner (db_cards d)))"

definition wip_views :: "db \<Rightarrow> wip_view list" where
  "wip_views d =
     (let pairs = sort_by (\<lambda>a b. then_with (cmp (fst a) (fst b)) (cmp (snd a) (snd b)))
            (remdups (map (\<lambda>c. (c_team c, c_lane c)) (db_cards d)))
      in filter (\<lambda>v. 0 < wv_count v \<or> wv_limit v \<noteq> None)
           (map (\<lambda>(team, lane). \<lparr>wv_team = team, wv_lane = lane,
               wv_count = count_u32 (\<lambda>c. c_team c = team \<and> c_lane c = lane \<and> is_wip c) (db_cards d),
               wv_limit = ep_wip_limit (effective_for d team lane False)\<rparr>) pairs))"

definition quiet_view :: "db \<Rightarrow> int \<Rightarrow> quiet_view_t option" where
  "quiet_view d now =
     (case sort_by (\<lambda>a b. then_with (cmp (le_created a) (le_created b)) (cmp (le_id a) (le_id b)))
        (filter (\<lambda>l. le_kind l = ''quiet'' \<and> le_released l = None) (db_leases d)) of
        [] \<Rightarrow> None
      | l # _ \<Rightarrow> Some \<lparr>qv_state = ''manual'', qv_job = None, qv_lease = Some (le_id l),
          qv_seconds_left = (case le_expected_end l of None \<Rightarrow> f_zero
            | Some e \<Rightarrow> f_max (f_div (f_of_int (sat_i64 (e - now))) (lit 1000 1)) f_zero),
          qv_text = ''manual quiet window '' @ le_id l\<rparr>)"

definition board_extras :: "db \<Rightarrow> int \<Rightarrow> board_extras_t" where
  "board_extras d now =
     \<lparr>be_needs_owner = needs_owner_cards d, be_wip = wip_views d,
      be_running_jobs = count_u32 (\<lambda>w. w_state w = ''running'') (db_work d),
      be_waiting_jobs = count_u32 (\<lambda>w. w_state w = ''claimed'' \<and> w_requested w \<noteq> None \<and> w_started w = None) (db_work d),
      be_queued_tasks = count_u32 (\<lambda>w. w_state w = ''queued'') (db_work d),
      be_open_leases = count_u32 (\<lambda>l. le_released l = None \<and> (case le_expires l of None \<Rightarrow> True | Some e \<Rightarrow> now < e)) (db_leases d),
      be_quiet = quiet_view d now, be_paused = map_of (db_state d) ''admission_paused''\<rparr>"

section \<open>The end of a job\<close>

definition sync_path :: "job_outcome \<Rightarrow> card_state \<Rightarrow> card_state list option" where
  "sync_path outcome state =
     (case (outcome, state) of
        (JDone, Claimed) \<Rightarrow> Some [Doing, Review]
      | (JDone, Doing) \<Rightarrow> Some [Review]
      | (JFailed, Claimed) \<Rightarrow> Some [Blocked] | (JFailed, Doing) \<Rightarrow> Some [Blocked] | (JFailed, Review) \<Rightarrow> Some [Blocked]
      | (JCancelled, Claimed) \<Rightarrow> Some [Ready] | (JCancelled, Doing) \<Rightarrow> Some [Ready] | (JCancelled, Review) \<Rightarrow> Some [Ready]
      | _ \<Rightarrow> None)"

definition author_may_move :: "db \<Rightarrow> string option \<Rightarrow> string \<Rightarrow> bool tx" where
  "author_may_move d owner author =
     (if owner = Some author then Inr True
      else case unhex32 author of
        None \<Rightarrow> Inr False
      | Some pk \<Rightarrow> (case active_role d pk of
          Inr role \<Rightarrow> Inr (Supervisor \<le> role)
        | Inl (Invalid _) \<Rightarrow> Inr False
        | Inl e \<Rightarrow> Inl e))"

definition sync_move :: "int \<Rightarrow> string \<Rightarrow> string \<Rightarrow> string \<Rightarrow> card_state \<Rightarrow> card_state \<Rightarrow> db \<Rightarrow> db" where
  "sync_move now actor cid job frm to d =
     append_event now actor ''card.moved'' cid
       (JObj [(''from'', JStr (card_as_str frm)), (''job'', JStr job), (''to'', JStr (card_as_str to))])
       (set_card cid (\<lambda>c. c \<lparr>c_state := card_as_str to, c_owner := (if to = Ready then None else c_owner c), c_updated := now\<rparr>)
         (clear_approvals (to \<in> {Doing, Ready}) cid d))"

fun sync_moves :: "int \<Rightarrow> string \<Rightarrow> string \<Rightarrow> string \<Rightarrow> card_state \<Rightarrow> card_state list \<Rightarrow> db \<Rightarrow> db" where
  "sync_moves now actor cid job frm [] d = d"
| "sync_moves now actor cid job frm (to # rest) d = sync_moves now actor cid job to rest (sync_move now actor cid job frm to d)"

definition record_evidence :: "int \<Rightarrow> string \<Rightarrow> string \<Rightarrow> string \<Rightarrow> db \<Rightarrow> db" where
  "record_evidence now actor cid reference d =
     append_event now actor ''card.evidence'' cid (JObj [(''ref'', JStr reference)])
       (d \<lparr>db_evidence := fst (insert_ignore (\<lambda>r. (ev_card r, ev_ref r)) \<lparr>ev_card = cid, ev_ref = reference, ev_by = actor\<rparr> (db_evidence d))\<rparr>)"

fun outcome_state :: "job_outcome \<Rightarrow> task_state" where
  "outcome_state JDone = TDone" | "outcome_state JFailed = TFailed" | "outcome_state JCancelled = TCancelled"

fun outcome_word :: "job_outcome \<Rightarrow> string" where
  "outcome_word JDone = ''done''" | "outcome_word JFailed = ''failed''" | "outcome_word JCancelled = ''cancelled''"

definition skip_notice :: "int \<Rightarrow> string \<Rightarrow> string \<Rightarrow> card_row \<Rightarrow> string \<Rightarrow> string \<Rightarrow> db \<Rightarrow> db" where
  "skip_notice now actor cid c job outcome d =
     (let targets = (case c_owner c of Some w \<Rightarrow> [w] | None \<Rightarrow> supervisors d);
          text = ''job '' @ job @ '' ended '' @ outcome @ '' but card '' @ cid @ '' ('' @ c_title c @ '') is '' @ c_state c
            @ '', so the card was not moved''
      in append_event now actor ''card.sync_skipped'' cid
           (JObj [(''job'', JStr job), (''notified'', jint (int (length targets))), (''outcome'', JStr outcome), (''state'', JStr (c_state c))])
           (post_all now ''job_sync'' cid text targets d))"

definition sync_record :: "int \<Rightarrow> string \<Rightarrow> string \<Rightarrow> card_sync_args \<Rightarrow> db \<Rightarrow> db" where
  "sync_record now actor cid args d =
     (let status = (case cs_status args of None \<Rightarrow> ''none'' | Some s \<Rightarrow> show_int s);
          log = (case cs_log args of None \<Rightarrow> ''-'' | Some l \<Rightarrow> l);
          reference = ''job:'' @ cs_task args @ '' status='' @ status @ '' log='' @ log
      in case cs_outcome args of
           JDone \<Rightarrow> record_evidence now actor cid reference d
         | JFailed \<Rightarrow> record_evidence now actor cid reference
             (flag_owner cid (''job '' @ cs_task args @ '' failed with status '' @ status @ '': '' @ cs_note args @ ''; inspect '' @ log
                @ '' and re-run or cancel'') d)
         | JCancelled \<Rightarrow> d)"

definition sync_linked :: "int \<Rightarrow> string \<Rightarrow> card_sync_args \<Rightarrow> string \<Rightarrow> string \<Rightarrow> db \<Rightarrow> db tx" where
  "sync_linked now actor args author cid d =
     bind_result (load_card d cid) (\<lambda>c.
     bind_result (ok_or (card_parse (c_state c)) (BadState (c_state c))) (\<lambda>state.
     bind_result (author_may_move d (c_owner c) author) (\<lambda>trusted.
     case (if trusted then sync_path (cs_outcome args) state else None) of
       None \<Rightarrow> Inr (skip_notice now actor cid c (cs_task args) (outcome_word (cs_outcome args)) d)
     | Some steps \<Rightarrow> Inr (sync_record now actor cid args (sync_moves now actor cid (cs_task args) state steps d)))))"

definition card_job_sync_tx :: "primitives \<Rightarrow> (string \<Rightarrow> card_sync_args option) \<Rightarrow> int \<Rightarrow> signed_op \<Rightarrow> string \<Rightarrow> task_state \<Rightarrow> db \<Rightarrow> db tx" where
  "card_job_sync_tx P from_str now op task_id final_state d0 =
     bind_result (authorize_system P now op ''card.job_sync'' d0) (\<lambda>d.
     bind_result (ok_or (from_str (o_arg op)) (Invalid ''card job sync arg must be JSON'')) (\<lambda>args.
     bind_result (ensure (cs_task args = task_id \<and> outcome_state (cs_outcome args) = final_state)
       (Invalid ''card.job_sync does not match the job it finishes'')) (\<lambda>_.
     bind_result (ok_or (find (\<lambda>w. w_id w = cs_task args) (db_work d)) (NotFound (''task '' @ cs_task args))) (\<lambda>w.
     case w_card w of
       None \<Rightarrow> Inr d
     | Some cid \<Rightarrow> sync_linked now (actor_hex op) args (w_author w) cid d))))"

section \<open>The invariant of the board\<close>

text \<open>
  A card in work or review has an owner and a card in the pool has none; a card that is done has evidence; values and
  sizes are positive. Approvals exist only for cards in review or past it, and dependencies join cards and have no
  cycle.
\<close>

definition card_row_ok :: "db \<Rightarrow> card_row \<Rightarrow> bool" where
  "card_row_ok d c =
     (case card_parse (c_state c) of
        None \<Rightarrow> False
      | Some s \<Rightarrow>
          (s \<in> {Claimed, Doing, Review} \<longrightarrow> c_owner c \<noteq> None) \<and> (s \<in> {Backlog, Ready} \<longrightarrow> c_owner c = None)
          \<and> (s = Done \<longrightarrow> has_evidence_for d (c_id c)) \<and> is_positive (c_value c) \<and> is_positive (c_size c))"

definition holds_approvals :: "card_row \<Rightarrow> bool" where
  "holds_approvals c = (card_parse (c_state c) \<in> {Some Review, Some Done, Some Blocked, Some Cancelled})"

definition approvals_ok :: "db \<Rightarrow> bool" where
  "approvals_ok d = (\<forall>a \<in> set (db_approvals d). \<exists>c \<in> set (db_cards d). c_id c = ap_card a \<and> holds_approvals c)"

definition dep_rel :: "dep_row list \<Rightarrow> (string \<times> string) set" where
  "dep_rel t = {(d_after r, d_card r) | r. r \<in> set t}"

definition deps_ok :: "db \<Rightarrow> bool" where
  "deps_ok d = (acyclic (dep_rel (db_deps d))
     \<and> (\<forall>r \<in> set (db_deps d). d_card r \<in> c_id ` set (db_cards d) \<and> d_after r \<in> c_id ` set (db_cards d)))"

definition board_ok :: "db \<Rightarrow> bool" where
  "board_ok d = (distinct (map c_id (db_cards d)) \<and> (\<forall>c \<in> set (db_cards d). card_row_ok d c) \<and> approvals_ok d \<and> deps_ok d)"

lemma card_row_ok_cong: "db_evidence d' = db_evidence d \<Longrightarrow> card_row_ok d' c = card_row_ok d c"
  by (simp add: card_row_ok_def has_evidence_for_def split: option.split)

lemma board_ok_frame:
  assumes "db_cards d' = db_cards d" "db_evidence d' = db_evidence d" "db_approvals d' = db_approvals d" "db_deps d' = db_deps d"
  shows "board_ok d' = board_ok d"
  using assms card_row_ok_cong [of d' d] by (simp add: board_ok_def approvals_ok_def deps_ok_def)

lemma board_ok_append [simp]: "board_ok (append_event now a k s j d) = board_ok d"
  by (rule board_ok_frame) simp_all

lemma board_ok_nonces [simp]: "board_ok (d \<lparr>db_nonces := ns\<rparr>) = board_ok d"
  by (rule board_ok_frame) simp_all

lemma board_ok_empty: "board_ok empty_db"
  by (simp add: board_ok_def empty_db_def approvals_ok_def deps_ok_def dep_rel_def acyclic_def)

lemma card_of_iff: "board_ok d \<Longrightarrow> card_of d x = Some c \<longleftrightarrow> c \<in> set (db_cards d) \<and> c_id c = x"
  by (simp add: board_ok_def card_of_def find_key_Some)

lemma card_of_SomeD: "card_of d x = Some c \<Longrightarrow> c \<in> set (db_cards d) \<and> c_id c = x"
  by (auto simp: card_of_def dest: find_SomeD)

lemma load_card_Inr [tx_simps]: "load_card d x = Inr c \<longleftrightarrow> card_of d x = Some c"
  by (simp add: load_card_def ok_or_Inr)

lemma require_card_Inr [tx_simps]: "require_card d x = Inr u \<longleftrightarrow> x \<in> c_id ` set (db_cards d)"
  by (auto simp: require_card_def ensure_Inr list_ex_iff)

lemma lift_transition_Inr [tx_simps]: "lift_transition r = Inr u \<longleftrightarrow> r = Inr u"
  by (simp add: lift_transition_def split: sum.split)

lemma authorize_board: "authorize P now op kind d = Inr (role, da) \<Longrightarrow> board_ok da = board_ok d"
  using authorize_frame by fastforce

text \<open>Rows change in place; approvals may be dropped, and those that stay must be for cards that may hold them.\<close>

lemma board_ok_update:
  assumes ok: "board_ok d" and id: "\<And>c. c_id (f c) = c_id c"
    and rows: "\<And>c. c \<in> set (db_cards d) \<Longrightarrow> p c \<Longrightarrow> card_row_ok d (f c)"
    and sub: "set ap \<subseteq> set (db_approvals d)"
    and hold: "\<And>c a. c \<in> set (db_cards d) \<Longrightarrow> p c \<Longrightarrow> a \<in> set ap \<Longrightarrow> ap_card a = c_id c \<Longrightarrow> holds_approvals c \<Longrightarrow> holds_approvals (f c)"
  shows "board_ok (d \<lparr>db_cards := update_where p f (db_cards d), db_approvals := ap\<rparr>)"
proof -
  let ?d = "d \<lparr>db_cards := update_where p f (db_cards d), db_approvals := ap\<rparr>"
  have ids: "map c_id (db_cards ?d) = map c_id (db_cards d)" by (simp add: map_update_where id)
  have e: "card_row_ok ?d c = card_row_ok d c" for c by (rule card_row_ok_cong) simp
  have "\<forall>c \<in> set (db_cards ?d). card_row_ok ?d c"
    using ok rows by (auto simp: e set_update_where board_ok_def)
  moreover have "approvals_ok ?d"
    unfolding approvals_ok_def
  proof
    fix a assume a: "a \<in> set (db_approvals ?d)"
    then have "a \<in> set (db_approvals d)" using sub by auto
    then obtain c where c: "c \<in> set (db_cards d)" "c_id c = ap_card a" "holds_approvals c"
      using ok unfolding board_ok_def approvals_ok_def by blast
    then show "\<exists>c \<in> set (db_cards ?d). c_id c = ap_card a \<and> holds_approvals c"
      using hold [of c a] a id by (intro bexI [of _ "if p c then f c else c"]) (auto simp: set_update_where)
  qed
  moreover have "deps_ok ?d"
    using ok ids [THEN arg_cong, of set] by (simp add: board_ok_def deps_ok_def)
  moreover have "distinct (map c_id (db_cards ?d))" using ok ids by (simp add: board_ok_def)
  ultimately show ?thesis unfolding board_ok_def by blast
qed

lemma set_card_ok:
  assumes "board_ok d" "\<And>c. c_id (f c) = c_id c"
    "\<And>c. c \<in> set (db_cards d) \<Longrightarrow> c_id c = x \<Longrightarrow> card_row_ok d (f c) \<and> (holds_approvals c \<longrightarrow> holds_approvals (f c))"
  shows "board_ok (set_card x f d)"
  using board_ok_update [of d f "\<lambda>c. c_id c = x" "db_approvals d"] assms by (simp add: set_card_def)

section \<open>Operations keep the invariant\<close>

lemmas card_steps = op_simps load_card_Inr require_card_Inr lift_transition_Inr

lemma transition_Inr:
  assumes "transition P now op review d = Inr d'"
  obtains role da to c frm where "authorize P now op ''card.move'' d = Inr (role, da)" "card_parse (o_arg op) = Some to"
    "card_of da (o_subject op) = Some c" "card_parse (c_state c) = Some frm" "frm = Backlog \<longrightarrow> Supervisor \<le> role"
    "check_transition frm to role (move_gate da (o_subject op) (c_owner c) review) = Inr ()"
    "may_move role (actor_hex op) frm (c_owner c) = Inr ()"
    "enters_work frm to \<longrightarrow> check_wip da (o_subject op) review = Inr ()"
    "d' = append_event now (actor_hex op) ''card.moved'' (o_subject op)
       (JObj [(''from'', JStr (card_as_str frm)), (''to'', JStr (card_as_str to))])
       (move_to now (o_subject op) to (new_owner to (actor_hex op) (c_owner c)) da)"
proof -
  have if_Inr: "(if b then r else Inr ()) = Inr u \<longleftrightarrow> (b \<longrightarrow> r = Inr ())" for b r and u :: unit by simp
  show ?thesis using assms that unfolding transition_def by (clarsimp simp: card_steps if_Inr)
qed

lemma legal_owner:
  assumes "legal frm to" "frm \<in> {Claimed, Doing, Review} \<longrightarrow> owner \<noteq> None" "frm \<in> {Backlog, Ready} \<longrightarrow> owner = None"
  shows "to \<in> {Claimed, Doing, Review} \<longrightarrow> new_owner to actor owner \<noteq> None" "to \<in> {Backlog, Ready} \<longrightarrow> new_owner to actor owner = None"
  using assms by (cases to; cases frm; simp add: legal_def new_owner_def)+

lemma holds_approvals_state [simp]: "holds_approvals (c \<lparr>c_state := card_as_str to, c_owner := w, c_updated := n\<rparr>) = (to \<in> {Review, Done, Blocked, Cancelled})"
  by (simp add: holds_approvals_def)

lemma move_to_ok:
  assumes ok: "board_ok d" and c: "card_of d x = Some c" "card_parse (c_state c) = Some frm"
    and fin: "to = Done \<longrightarrow> has_evidence_for d x"
    and owner: "to \<in> {Claimed, Doing, Review} \<longrightarrow> owner \<noteq> None" "to \<in> {Backlog, Ready} \<longrightarrow> owner = None"
  shows "board_ok (move_to now x to owner d)"
proof -
  let ?ap = "if to \<in> {Claimed, Ready, Backlog, Doing} then delete_where (\<lambda>a. ap_card a = x) (db_approvals d) else db_approvals d"
  have "move_to now x to owner d = d \<lparr>db_cards := update_where (\<lambda>c. c_id c = x)
      (\<lambda>c. c \<lparr>c_state := card_as_str to, c_owner := owner, c_updated := now\<rparr>) (db_cards d), db_approvals := ?ap\<rparr>"
    by (simp add: move_to_def set_card_def clear_approvals_def)
  also have "board_ok \<dots>"
  proof (rule board_ok_update [OF ok])
    fix b assume b: "b \<in> set (db_cards d)" "c_id b = x"
    then have "card_row_ok d b" using ok by (simp add: board_ok_def)
    then show "card_row_ok d (b \<lparr>c_state := card_as_str to, c_owner := owner, c_updated := now\<rparr>)"
      using fin owner b by (auto simp: card_row_ok_def split: option.splits)
  next
    show "set ?ap \<subseteq> set (db_approvals d)" by auto
  next
    fix b a assume "b \<in> set (db_cards d)" "c_id b = x" "a \<in> set ?ap" "ap_card a = c_id b" "holds_approvals b"
    then show "holds_approvals (b \<lparr>c_state := card_as_str to, c_owner := owner, c_updated := now\<rparr>)"
      by (cases to) (auto split: if_splits)
  qed simp
  finally show ?thesis .
qed

lemma transition_ok:
  assumes "transition P now op review d = Inr d'" and ok: "board_ok d"
  shows "board_ok d'"
proof (rule transition_Inr [OF assms(1)], goal_cases)
  case (1 role da to c frm)
  have oka: "board_ok da" using authorize_board [OF 1(1)] ok by simp
  have "card_row_ok da c" using oka card_of_SomeD [OF 1(3)] by (auto simp: board_ok_def)
  then have own: "frm \<in> {Claimed, Doing, Review} \<longrightarrow> c_owner c \<noteq> None" "frm \<in> {Backlog, Ready} \<longrightarrow> c_owner c = None"
    using 1(4) by (auto simp: card_row_ok_def)
  have ct: "legal frm to" "to = Done \<longrightarrow> has_evidence_for da (o_subject op)"
    using 1(6) by (auto simp: check_transition_Inr move_gate_def)
  show ?case unfolding 1(9)
    using move_to_ok [OF oka 1(3,4) ct(2) legal_owner [OF ct(1) own]] by simp
qed

lemma dep_rel_insert_ignore:
  "dep_rel (fst (insert_ignore dep_id r t)) = insert (d_after r, d_card r) (dep_rel t)"
  by (auto simp: insert_ignore_def dep_rel_def image_iff)

lemma insert_deps_Inr:
  assumes "insert_deps x as d = Inr d'" "acyclic (dep_rel (db_deps d))" "x \<notin> Domain (dep_rel (db_deps d))"
  shows "\<exists>deps. d' = d \<lparr>db_deps := deps\<rparr> \<and> acyclic (dep_rel deps) \<and> x \<notin> Domain (dep_rel deps)
    \<and> dep_rel deps \<subseteq> dep_rel (db_deps d) \<union> {(a, x) | a. a \<in> c_id ` set (db_cards d)}"
  using assms
proof (induction x as d rule: insert_deps.induct)
  case (1 x d)
  then show ?case by (intro exI [of _ "db_deps d"]) auto
next
  case (2 x a as d)
  let ?deps = "fst (insert_ignore dep_id \<lparr>d_card = x, d_after = a\<rparr> (db_deps d))"
  let ?d = "d \<lparr>db_deps := ?deps\<rparr>"
  have a: "a \<noteq> x" "a \<in> c_id ` set (db_cards d)" and rest: "insert_deps x as ?d = Inr d'"
    using 2(2) by (auto simp: card_steps split: if_splits)
  have r: "dep_rel ?deps = insert (a, x) (dep_rel (db_deps d))" by (simp add: dep_rel_insert_ignore)
  have "(x, a) \<notin> (dep_rel (db_deps d))\<^sup>*" using a(1) 2(4) by (auto elim: converse_rtranclE)
  then have "acyclic (dep_rel ?deps)" "x \<notin> Domain (dep_rel ?deps)" using 2(3,4) a(1) by (auto simp: r acyclic_insert)
  then obtain deps where deps: "d' = ?d \<lparr>db_deps := deps\<rparr>" "acyclic (dep_rel deps)" "x \<notin> Domain (dep_rel deps)"
      "dep_rel deps \<subseteq> dep_rel ?deps \<union> {(a, x) | a. a \<in> c_id ` set (db_cards d)}"
    using 2(1) [OF a(1) rest] by auto
  have "dep_rel deps \<subseteq> dep_rel (db_deps d) \<union> {(a, x) | a. a \<in> c_id ` set (db_cards d)}"
    using deps(4) a(2) unfolding r by auto
  then show ?case using deps(1-3) by auto
qed

lemma deps_ok_rel: "deps_ok d \<longleftrightarrow> acyclic (dep_rel (db_deps d)) \<and> dep_rel (db_deps d) \<subseteq> (c_id ` set (db_cards d)) \<times> (c_id ` set (db_cards d))"
  by (auto simp: deps_ok_def dep_rel_def)

lemma parse_fields_Inr:
  assumes "parse_fields arg = Inr f"
  shows "is_positive (nf_value f)" "is_positive (nf_size f)"
proof -
  have one: "is_positive (lit 1 1)" by code_simp
  have p: "positive_field v (lit 1 1) m = Inr x \<Longrightarrow> is_positive x" for v m x
    using one by (auto simp: positive_field_def check_positive_def is_positive_def split: option.splits if_splits)
  obtain v sz where v: "positive_field (jget ''value'' arg) (lit 1 1) VALUE_MSG = Inr v" "nf_value f = v"
      "positive_field (jget ''size'' arg) (lit 1 1) SIZE_MSG = Inr sz" "nf_size f = sz"
    using assms unfolding parse_fields_def by (clarsimp simp: op_simps)
  show "is_positive (nf_value f)" "is_positive (nf_size f)" using p [OF v(1)] p [OF v(3)] unfolding v(2,4) by blast+
qed

lemma create_card_Inr:
  assumes "create_card P from_str now op d = Inr d'"
  obtains role da title lane f j dc where "authorize P now op ''card.create'' d = Inr (role, da)" "Worker \<le> role"
    "o_subject op \<notin> c_id ` set (db_cards da)" "is_positive (nf_value f)" "is_positive (nf_size f)"
    "insert_deps (o_subject op) (nf_after f) (da \<lparr>db_cards := db_cards da @ [new_card now (o_subject op) title lane f]\<rparr>) = Inr dc"
    "d' = append_event now (actor_hex op) ''card.created'' (o_subject op) j dc"
proof -
  obtain role da arg title lane f dc where *: "authorize P now op ''card.create'' d = Inr (role, da)" "Worker \<le> role"
      "\<not> list_ex (\<lambda>c. c_id c = o_subject op) (db_cards da)" "parse_fields arg = Inr f"
      "insert_deps (o_subject op) (nf_after f) (da \<lparr>db_cards := db_cards da @ [new_card now (o_subject op) title lane f]\<rparr>) = Inr dc"
      "d' = append_event now (actor_hex op) ''card.created'' (o_subject op) (JObj [(''lane'', JStr lane), (''title'', JStr title)]) dc"
    using assms unfolding create_card_def by (clarsimp simp: op_simps)
  show ?thesis by (rule that [OF *(1,2) _ parse_fields_Inr [OF *(4)] *(5,6)]) (use *(3) in \<open>auto simp: list_ex_iff\<close>)
qed

lemma create_card_ok:
  assumes "create_card P from_str now op d = Inr d'" and ok: "board_ok d"
  shows "board_ok d'"
proof (rule create_card_Inr [OF assms(1)], goal_cases)
  case (1 role da title lane f j dc)
  let ?x = "o_subject op" and ?c = "new_card now (o_subject op) title lane f"
  let ?d = "da \<lparr>db_cards := db_cards da @ [?c]\<rparr>"
  have oka: "board_ok da" using authorize_board [OF 1(1)] ok by simp
  have dep: "acyclic (dep_rel (db_deps da))" "dep_rel (db_deps da) \<subseteq> (c_id ` set (db_cards da)) \<times> (c_id ` set (db_cards da))"
    using oka by (auto simp: board_ok_def deps_ok_rel)
  then have "?x \<notin> Domain (dep_rel (db_deps ?d))" using 1(3) by auto
  then obtain deps where deps: "dc = ?d \<lparr>db_deps := deps\<rparr>" "acyclic (dep_rel deps)"
      "dep_rel deps \<subseteq> dep_rel (db_deps da) \<union> {(a, ?x) | a. a \<in> c_id ` set (db_cards ?d)}"
    using insert_deps_Inr [OF 1(6)] dep(1) by auto
  have id: "c_id ?c = ?x" by (simp add: new_card_def)
  have e: "card_row_ok dc c = card_row_ok da c" for c by (rule card_row_ok_cong) (simp add: deps(1))
  have "card_row_ok da ?c" using 1(4,5) by (simp add: card_row_ok_def new_card_def)
  then have "\<forall>c \<in> set (db_cards dc). card_row_ok dc c" using oka unfolding e by (auto simp: deps(1) board_ok_def)
  moreover have "approvals_ok dc" using oka by (fastforce simp: deps(1) board_ok_def approvals_ok_def)
  moreover have "deps_ok dc" unfolding deps_ok_rel using deps(2,3) dep(2) by (auto simp: deps(1) id)
  moreover have "distinct (map c_id (db_cards dc))" using oka 1(3) by (simp add: deps(1) id board_ok_def)
  ultimately have "board_ok dc" unfolding board_ok_def by blast
  then show ?case unfolding 1(7) by simp
qed

lemma card_row_ok_mono: "set (db_evidence d) \<subseteq> set (db_evidence d') \<Longrightarrow> card_row_ok d c \<Longrightarrow> card_row_ok d' c"
  by (auto simp: card_row_ok_def has_evidence_for_def list_ex_iff split: option.splits)

lemma board_ok_evidence:
  assumes "board_ok d" "set (db_evidence d) \<subseteq> set es"
  shows "board_ok (d \<lparr>db_evidence := es\<rparr>)"
  using assms card_row_ok_mono [of d "d \<lparr>db_evidence := es\<rparr>"] by (auto simp: board_ok_def approvals_ok_def deps_ok_def)

lemma evidence_ignore_ok: "board_ok d \<Longrightarrow> board_ok (d \<lparr>db_evidence := fst (insert_ignore key r (db_evidence d))\<rparr>)"
  by (rule board_ok_evidence) (auto simp: insert_ignore_set)

lemma add_evidence_ok:
  assumes "add_evidence P now op d = Inr d'" and ok: "board_ok d"
  shows "board_ok d'"
proof -
  obtain role da where "authorize P now op ''card.evidence'' d = Inr (role, da)"
      "d' = append_event now (actor_hex op) ''card.evidence'' (o_subject op) (JObj [(''ref'', JStr (o_arg op))])
        (da \<lparr>db_evidence := fst (insert_ignore (\<lambda>r. (ev_card r, ev_ref r))
          \<lparr>ev_card = o_subject op, ev_ref = o_arg op, ev_by = actor_hex op\<rparr> (db_evidence da))\<rparr>)"
    using assms(1) unfolding add_evidence_def by (clarsimp simp: card_steps)
  then show ?thesis using authorize_board ok by (simp add: evidence_ignore_ok)
qed

lemma approve_ok:
  assumes "approve P now op d = Inr d'" and ok: "board_ok d"
  shows "board_ok d'"
proof -
  obtain role da c where a: "authorize P now op ''card.approve'' d = Inr (role, da)" "card_of da (o_subject op) = Some c"
      "card_parse (c_state c) = Some Review"
      "d' = append_event now (actor_hex op) ''card.approved'' (o_subject op) (JObj [])
       (da \<lparr>db_approvals := fst (insert_ignore (\<lambda>r. (ap_card r, ap_by r)) \<lparr>ap_card = o_subject op, ap_by = actor_hex op\<rparr> (db_approvals da))\<rparr>)"
    using assms(1) unfolding approve_def by (clarsimp simp: card_steps card_state_of_def)
  let ?d = "da \<lparr>db_approvals := fst (insert_ignore (\<lambda>r. (ap_card r, ap_by r)) \<lparr>ap_card = o_subject op, ap_by = actor_hex op\<rparr> (db_approvals da))\<rparr>"
  have oka: "board_ok da" using authorize_board [OF a(1)] ok by simp
  have c: "c \<in> set (db_cards da)" "c_id c = o_subject op" "holds_approvals c"
    using card_of_SomeD [OF a(2)] a(3) by (auto simp: holds_approvals_def)
  have "card_row_ok ?d b = card_row_ok da b" for b by (rule card_row_ok_cong) simp
  moreover have "approvals_ok ?d" using oka c by (auto simp: board_ok_def approvals_ok_def insert_ignore_set)
  moreover have "deps_ok ?d = deps_ok da" by (simp add: deps_ok_def)
  ultimately have "board_ok ?d" using oka unfolding board_ok_def by simp
  then show ?thesis unfolding a(4) by simp
qed

lemma reclaim_stale_Inr:
  assumes "reclaim_stale P now op d = Inr d'"
  obtains role da where "authorize P now op ''card.reclaim'' d = Inr (role, da)" "Supervisor \<le> role"
    "list_ex (\<lambda>c. c_id c = o_subject op \<and> is_wip c) (db_cards da)"
    "d' = append_event now (actor_hex op) ''card.reclaimed'' (o_subject op) (JObj [])
       (clear_approvals True (o_subject op)
         (da \<lparr>db_cards := update_where (\<lambda>c. c_id c = o_subject op \<and> is_wip c)
            (\<lambda>c. c \<lparr>c_state := ''ready'', c_owner := None, c_updated := now\<rparr>) (db_cards da)\<rparr>))"
  using assms that unfolding reclaim_stale_def by (clarsimp simp: card_steps)

lemma ready_text: "''ready'' = card_as_str Ready"
  by (simp add: card_as_str_def)

lemma reclaim_stale_ok:
  assumes "reclaim_stale P now op d = Inr d'" and ok: "board_ok d"
  shows "board_ok d'"
proof (rule reclaim_stale_Inr [OF assms(1)], goal_cases)
  case (1 role da)
  let ?f = "\<lambda>c. c \<lparr>c_state := ''ready'', c_owner := None, c_updated := now\<rparr>"
  have oka: "board_ok da" using authorize_board [OF 1(1)] ok by simp
  have row: "card_row_ok da (?f c)" if "c \<in> set (db_cards da)" for c
  proof -
    have "card_row_ok da c" using oka that by (simp add: board_ok_def)
    then show ?thesis by (auto simp: card_row_ok_def ready_text split: option.splits)
  qed
  have "board_ok (da \<lparr>db_cards := update_where (\<lambda>c. c_id c = o_subject op \<and> is_wip c) ?f (db_cards da),
      db_approvals := delete_where (\<lambda>a. ap_card a = o_subject op) (db_approvals da)\<rparr>)"
    by (rule board_ok_update [OF oka]) (auto simp: row)
  then show ?case unfolding 1(4) by (simp add: clear_approvals_def)
qed

lemma update_fields_Inr:
  assumes "update_fields args c = Inr n"
  shows "is_positive (c_value n) \<or> c_value n = c_value c" "is_positive (c_size n) \<or> c_size n = c_size c"
proof -
  have cp: "check_positive v m = Inr x \<Longrightarrow> is_positive x" for v m x
    by (auto simp: check_positive_def is_positive_def split: if_splits)
  obtain v sz where v: "(case cu_value args of Some v \<Rightarrow> check_positive v VALUE_MSG | None \<Rightarrow> Inr (c_value c)) = Inr v" "c_value n = v"
      "(case cu_size args of Some v \<Rightarrow> check_positive v SIZE_MSG | None \<Rightarrow> Inr (c_size c)) = Inr sz" "c_size n = sz"
    using assms unfolding update_fields_def by (clarsimp simp: op_simps)
  show "is_positive (c_value n) \<or> c_value n = c_value c" using v(1,2) cp by (cases "cu_value args") auto
  show "is_positive (c_size n) \<or> c_size n = c_size c" using v(3,4) cp by (cases "cu_size args") auto
qed

lemma card_update_Inr:
  assumes "card_update P from_str now op d = Inr (ext, d')"
  obtains role da args c n where "authorize P now op ''card.update'' d = Inr (role, da)" "card_of da (o_subject op) = Some c"
    "check_edit role (c_owner c) (actor_hex op) = Inr ()" "update_fields args c = Inr n"
    "d' = append_event now (actor_hex op) ''card.updated'' (o_subject op) (updated_event n) (set_card (o_subject op) (set_fields_of n) da)"
  using assms that unfolding card_update_def Let_def by (clarsimp simp: card_steps)

lemma card_update_ok:
  assumes "card_update P from_str now op d = Inr (ext, d')" and ok: "board_ok d"
  shows "board_ok d'"
proof (rule card_update_Inr [OF assms(1)], goal_cases)
  case (1 role da args c n)
  have oka: "board_ok da" using authorize_board [OF 1(1)] ok by simp
  have "card_row_ok da c" using oka card_of_SomeD [OF 1(2)] by (auto simp: board_ok_def)
  then have pos: "is_positive (c_value n)" "is_positive (c_size n)"
    using update_fields_Inr [OF 1(4)] by (auto simp: card_row_ok_def split: option.splits)
  have "board_ok (set_card (o_subject op) (set_fields_of n) da)"
  proof (rule set_card_ok [OF oka])
    fix b assume "b \<in> set (db_cards da)"
    then have "card_row_ok da b" using oka by (simp add: board_ok_def)
    then show "card_row_ok da (set_fields_of n b) \<and> (holds_approvals b \<longrightarrow> holds_approvals (set_fields_of n b))"
      using pos by (auto simp: card_row_ok_def set_fields_of_def holds_approvals_def split: option.splits)
  qed (simp add: set_fields_of_def)
  then show ?case unfolding 1(5) by simp
qed

lemma flag_owner_ok: "board_ok d \<Longrightarrow> board_ok (flag_owner x action d)"
  unfolding flag_owner_def
  by (rule set_card_ok) (auto simp: board_ok_def card_row_ok_def holds_approvals_def split: option.splits)

lemma post_all_frame [simp]:
  "db_cards (post_all now k s x ts d) = db_cards d" "db_evidence (post_all now k s x ts d) = db_evidence d"
  "db_approvals (post_all now k s x ts d) = db_approvals d" "db_deps (post_all now k s x ts d) = db_deps d"
  "db_identities (post_all now k s x ts d) = db_identities d" "db_nonces (post_all now k s x ts d) = db_nonces d"
  "db_policies (post_all now k s x ts d) = db_policies d" "db_work (post_all now k s x ts d) = db_work d"
  "db_channels (post_all now k s x ts d) = db_channels d" "db_members (post_all now k s x ts d) = db_members d"
  "db_keys (post_all now k s x ts d) = db_keys d" "db_rotation (post_all now k s x ts d) = db_rotation d"
  "db_messages (post_all now k s x ts d) = db_messages d" "db_attachments (post_all now k s x ts d) = db_attachments d"
  "db_blobs (post_all now k s x ts d) = db_blobs d" "db_cursors (post_all now k s x ts d) = db_cursors d"
  "db_uploads (post_all now k s x ts d) = db_uploads d"
  unfolding post_all_def by (induction ts arbitrary: d) simp_all

lemma board_ok_post_all [simp]: "board_ok (post_all now k s x ts d) = board_ok d"
  by (rule board_ok_frame) simp_all

lemma card_escalate_Inr:
  assumes "card_escalate P from_str now op review d = Inr (targets, d')"
  obtains role da c action j msg where "authorize P now op ''card.escalate'' d = Inr (role, da)" "card_of da (o_subject op) = Some c"
    "d' = append_event now (actor_hex op) ''card.escalated'' (o_subject op) j
       (post_all now ''escalation'' (o_subject op) msg targets (flag_owner (o_subject op) action da))"
  using assms that unfolding card_escalate_def Let_def by (clarsimp simp: card_steps)

lemma card_escalate_ok:
  assumes "card_escalate P from_str now op review d = Inr (targets, d')" and ok: "board_ok d"
  shows "board_ok d'"
proof (rule card_escalate_Inr [OF assms(1)], goal_cases)
  case (1 role da c action j msg)
  then show ?case using flag_owner_ok authorize_board [OF 1(1)] ok by simp
qed

lemma set_dep_ids: "set (dep_ids d) = Field (dep_rel (db_deps d))"
  by (auto simp: dep_ids_def dep_rel_def Field_def)

lemma prereq_map: "prereq (map f xs) = (\<Union>x \<in> set xs. (\<lambda>p. (p, t_id (f x))) ` set (t_after (f x)))"
  by (auto simp: prereq_def)

lemma dep_rel_of: "(\<lambda>p. (p, i)) ` set (map d_after (filter (\<lambda>r. d_card r = i) ds)) = {e \<in> dep_rel ds. snd e = i}"
  by (auto simp: dep_rel_def)

lemma prereq_dep_tasks: "prereq (dep_tasks d) = dep_rel (db_deps d)"
proof -
  have "prereq (dep_tasks d) = (\<Union>x \<in> set (List.enumerate 0 (dep_ids d)). {e \<in> dep_rel (db_deps d). snd e = snd x})"
    unfolding dep_tasks_def prereq_map by (simp only: split_beta task.select_convs dep_rel_of)
  also have "\<dots> = (\<Union>i \<in> snd ` set (List.enumerate 0 (dep_ids d)). {e \<in> dep_rel (db_deps d). snd e = i})" by simp
  also have "snd ` set (List.enumerate 0 (dep_ids d)) = Field (dep_rel (db_deps d))"
    by (metis list.set_map map_snd_enumerate set_dep_ids)
  finally show ?thesis by (auto simp: Field_def)
qed

lemma check_acyclic_Inr: "check_acyclic d = Inr u \<Longrightarrow> acyclic (dep_rel (db_deps d))"
  using graph_ok_acyclic graph_new_Inr by (fastforce simp: check_acyclic_def prereq_dep_tasks [symmetric] split: sum.splits)

lemma board_ok_deps:
  assumes "board_ok d" "deps_ok (d \<lparr>db_deps := deps\<rparr>)"
  shows "board_ok (d \<lparr>db_deps := deps\<rparr>)"
proof -
  have "card_row_ok (d \<lparr>db_deps := deps\<rparr>) c = card_row_ok d c" for c by (rule card_row_ok_cong) simp
  then show ?thesis using assms by (simp add: board_ok_def approvals_ok_def)
qed

lemma remove_dep_ok:
  assumes "remove_dep now actor x after d = Inr d'" and ok: "board_ok d"
  shows "board_ok d'"
proof -
  let ?deps = "delete_where (\<lambda>r. d_card r = x \<and> d_after r = after) (db_deps d)"
  have "dep_rel ?deps \<subseteq> dep_rel (db_deps d)" by (auto simp: dep_rel_def)
  then have "deps_ok (d \<lparr>db_deps := ?deps\<rparr>)" using ok by (auto simp: board_ok_def deps_ok_rel intro: acyclic_subset)
  then show ?thesis using assms board_ok_deps by (auto simp: remove_dep_def op_simps)
qed

lemma add_dep_ok:
  assumes a: "add_dep now actor x after d = Inr d'" and ok: "board_ok d"
    and ids: "x \<in> c_id ` set (db_cards d)" "after \<in> c_id ` set (db_cards d)"
  shows "board_ok d'"
proof -
  let ?deps = "fst (insert_ignore dep_id \<lparr>d_card = x, d_after = after\<rparr> (db_deps d))"
  have c: "check_acyclic (d \<lparr>db_deps := ?deps\<rparr>) = Inr ()" and d': "\<exists>j. d' = append_event now actor ''card.dep_added'' x j (d \<lparr>db_deps := ?deps\<rparr>)"
    using a by (auto simp: add_dep_def op_simps split: prod.splits)
  have "dep_rel ?deps = insert (after, x) (dep_rel (db_deps d))" by (simp add: dep_rel_insert_ignore)
  then have "deps_ok (d \<lparr>db_deps := ?deps\<rparr>)"
    using check_acyclic_Inr [OF c] ok ids by (auto simp: board_ok_def deps_ok_rel)
  then show ?thesis using d' board_ok_deps [OF ok] by auto
qed

lemma card_dep_Inr:
  assumes "card_dep P from_str now op d = Inr d'"
  obtains role da args c where "authorize P now op ''card.dep'' d = Inr (role, da)" "card_of da (o_subject op) = Some c"
    "from_str (o_arg op) = Some args" "require_card da (cd_after args) = Inr ()"
    "(if cd_remove args then remove_dep now (actor_hex op) (o_subject op) (cd_after args) da
      else add_dep now (actor_hex op) (o_subject op) (cd_after args) da) = Inr d'"
  using assms that unfolding card_dep_def by (clarsimp simp: op_simps load_card_Inr)

lemma card_dep_ok:
  assumes "card_dep P from_str now op d = Inr d'" and ok: "board_ok d"
  shows "board_ok d'"
proof (rule card_dep_Inr [OF assms(1)], goal_cases)
  case (1 role da args c)
  have oka: "board_ok da" using authorize_board [OF 1(1)] ok by simp
  have "o_subject op \<in> c_id ` set (db_cards da)" using card_of_SomeD [OF 1(2)] by (metis imageI)
  then show ?case using 1(4,5) remove_dep_ok [OF _ oka] add_dep_ok [OF _ oka]
    by (cases "cd_remove args") (auto simp: require_card_Inr)
qed

lemma change_link_frame:
  "change_link now actor x args d = Inr d' \<Longrightarrow> \<exists>ls k j. d' = append_event now actor k x j (d \<lparr>db_links := ls\<rparr>)"
  by (cases "cl_remove args") (auto simp: change_link_def Let_def op_simps)

lemma card_link_frame:
  assumes "card_link P from_str now op d = Inr d'"
  obtains role da ls k j where "authorize P now op ''card.link'' d = Inr (role, da)"
    "d' = append_event now (actor_hex op) k (o_subject op) j (da \<lparr>db_links := ls\<rparr>)"
proof -
  obtain role da args where "authorize P now op ''card.link'' d = Inr (role, da)" "change_link now (actor_hex op) (o_subject op) args da = Inr d'"
    using assms unfolding card_link_def by (clarsimp simp: op_simps)
  then show ?thesis using change_link_frame that by blast
qed

lemma card_link_ok:
  assumes "card_link P from_str now op d = Inr d'" and ok: "board_ok d"
  shows "board_ok d'"
proof (rule card_link_frame [OF assms(1)], goal_cases)
  case (1 role da ls k j)
  have "board_ok (da \<lparr>db_links := ls\<rparr>) = board_ok da" by (rule board_ok_frame) simp_all
  then show ?case using authorize_board [OF 1(1)] ok unfolding 1(2) by simp
qed

section \<open>The end of a job keeps the invariant\<close>

lemma sync_path_Some:
  "sync_path outcome state = Some steps \<Longrightarrow> state \<in> {Claimed, Doing, Review} \<and> steps \<noteq> []
     \<and> set steps \<subseteq> {Doing, Review, Blocked, Ready} \<and> (\<exists>s. last steps = s \<and> s \<noteq> Doing)
     \<and> (Ready \<in> set steps \<longrightarrow> steps = [Ready])"
  by (cases outcome; cases state) (auto simp: sync_path_def)

lemma sync_move_ok:
  assumes ok: "board_ok d" and c: "card_of d x = Some c" "c_owner c \<noteq> None" and to: "to \<in> {Doing, Review, Blocked, Ready}"
  shows "board_ok (sync_move now actor x job frm to d)"
proof -
  let ?f = "\<lambda>c. c \<lparr>c_state := card_as_str to, c_owner := (if to = Ready then None else c_owner c), c_updated := now\<rparr>"
  let ?ap = "if to \<in> {Doing, Ready} then delete_where (\<lambda>a. ap_card a = x) (db_approvals d) else db_approvals d"
  have "sync_move now actor x job frm to d = append_event now actor ''card.moved'' x
      (JObj [(''from'', JStr (card_as_str frm)), (''job'', JStr job), (''to'', JStr (card_as_str to))])
      (d \<lparr>db_cards := update_where (\<lambda>c. c_id c = x) ?f (db_cards d), db_approvals := ?ap\<rparr>)"
    by (simp add: sync_move_def set_card_def clear_approvals_def)
  moreover have "board_ok (d \<lparr>db_cards := update_where (\<lambda>c. c_id c = x) ?f (db_cards d), db_approvals := ?ap\<rparr>)"
  proof (rule board_ok_update [OF ok])
    fix b assume b: "b \<in> set (db_cards d)" "c_id b = x"
    then have "b = c" using c(1) ok by (simp add: card_of_iff board_ok_def) (metis distinct_map inj_onD)
    moreover have "card_row_ok d b" using ok b by (simp add: board_ok_def)
    ultimately show "card_row_ok d (?f b)" using c(2) to by (auto simp: card_row_ok_def split: option.splits)
  next
    show "set ?ap \<subseteq> set (db_approvals d)" by auto
  next
    fix b a assume "b \<in> set (db_cards d)" "c_id b = x" "a \<in> set ?ap" "ap_card a = c_id b" "holds_approvals b"
    then show "holds_approvals (?f b)" using to by (auto split: if_splits)
  qed simp
  ultimately show ?thesis by simp
qed

lemma card_of_set_card: "(\<And>c. c_id (f c) = c_id c) \<Longrightarrow> card_of (set_card x f d) y = (if y = x then map_option f (card_of d x) else card_of d y)"
  unfolding card_of_def set_card_def
  by (simp add: find_update_where) (cases "find (\<lambda>c. c_id c = y) (db_cards d)"; auto dest: find_SomeD)

lemma card_of_cong: "db_cards d' = db_cards d \<Longrightarrow> card_of d' x = card_of d x"
  by (simp add: card_of_def)

lemma card_of_append [simp]: "card_of (append_event now a k s j d) x = card_of d x"
  by (rule card_of_cong) simp

lemma card_of_clear [simp]: "card_of (clear_approvals b y d) x = card_of d x"
  by (rule card_of_cong) (simp add: clear_approvals_def)

lemma card_of_sync_move:
  "card_of (sync_move now actor x job frm to d) y =
     (if y = x then map_option (\<lambda>c. c \<lparr>c_state := card_as_str to, c_owner := (if to = Ready then None else c_owner c), c_updated := now\<rparr>)
       (card_of d x) else card_of d y)"
  by (simp add: sync_move_def card_of_set_card)

lemma sync_moves_ok:
  assumes "board_ok d" "card_of d x = Some c" "c_owner c \<noteq> None" "sync_path outcome state = Some steps"
  shows "board_ok (sync_moves now actor x job frm steps d)"
proof -
  consider s where "steps = [s]" "s \<in> {Review, Blocked, Ready}" | "steps = [Doing, Review]"
    using assms(4) by (cases outcome; cases state) (auto simp: sync_path_def)
  then show ?thesis
  proof cases
    case 1
    then show ?thesis using sync_move_ok [OF assms(1-3)] by auto
  next
    case 2
    let ?d = "sync_move now actor x job frm Doing d"
    have "board_ok ?d" using sync_move_ok [OF assms(1-3)] by simp
    moreover have "card_of ?d x = Some (c \<lparr>c_state := card_as_str Doing, c_updated := now\<rparr>)" using assms(2) by (simp add: card_of_sync_move)
    ultimately show ?thesis using sync_move_ok [of ?d x _ Review] assms(3) 2 by simp
  qed
qed

lemma sync_record_ok: "board_ok d \<Longrightarrow> board_ok (sync_record now actor x args d)"
  by (cases "cs_outcome args") (simp_all add: sync_record_def Let_def record_evidence_def evidence_ignore_ok flag_owner_ok)

lemma skip_notice_ok: "board_ok (skip_notice now actor x c job outcome d) = board_ok d"
  by (simp add: skip_notice_def Let_def)

lemma sync_linked_ok:
  assumes "sync_linked now actor args author x d = Inr d'" and ok: "board_ok d"
  shows "board_ok d'"
proof -
  obtain c state trusted where c: "card_of d x = Some c" "card_parse (c_state c) = Some state"
      "(case (if trusted then sync_path (cs_outcome args) state else None) of
         None \<Rightarrow> Inr (skip_notice now actor x c (cs_task args) (outcome_word (cs_outcome args)) d)
       | Some steps \<Rightarrow> Inr (sync_record now actor x args (sync_moves now actor x (cs_task args) state steps d))) = (Inr d' :: db tx)"
    using assms(1) unfolding sync_linked_def by (clarsimp simp: card_steps)
  show ?thesis
  proof (cases "if trusted then sync_path (cs_outcome args) state else None")
    case None
    then show ?thesis using c(3) ok by (auto simp: skip_notice_ok)
  next
    case (Some steps)
    then have p: "sync_path (cs_outcome args) state = Some steps" by (simp split: if_splits)
    have "card_row_ok d c" using ok card_of_SomeD [OF c(1)] by (auto simp: board_ok_def)
    then have "c_owner c \<noteq> None" using c(2) sync_path_Some [OF p] by (auto simp: card_row_ok_def)
    then show ?thesis using c(3) Some sync_record_ok sync_moves_ok [OF ok c(1) _ p] by auto
  qed
qed

lemma authorize_system_frame: "authorize_system P now op kind d = Inr d' \<Longrightarrow> \<exists>ns. d' = d \<lparr>db_nonces := ns\<rparr>"
  using consume_nonce_frame by (auto simp: authorize_system_def op_simps split: if_splits)

lemma card_job_sync_Inr:
  assumes "card_job_sync_tx P from_str now op task_id final d = Inr d'"
  obtains da args w where "authorize_system P now op ''card.job_sync'' d = Inr da" "from_str (o_arg op) = Some args"
    "find (\<lambda>w. w_id w = cs_task args) (db_work da) = Some w"
    "(case w_card w of None \<Rightarrow> Inr da | Some x \<Rightarrow> sync_linked now (actor_hex op) args (w_author w) x da) = Inr d'"
  using assms that unfolding card_job_sync_tx_def by (clarsimp simp: op_simps)

lemma card_job_sync_ok:
  assumes "card_job_sync_tx P from_str now op task_id final d = Inr d'" and ok: "board_ok d"
  shows "board_ok d'"
proof (rule card_job_sync_Inr [OF assms(1)], goal_cases)
  case (1 da args w)
  have "board_ok da" using authorize_system_frame [OF 1(1)] ok by auto
  then show ?case using 1(4) sync_linked_ok by (cases "w_card w") auto
qed

section \<open>The board as a map from cards to states and owners\<close>

definition board_view :: "db \<Rightarrow> string \<Rightarrow> (card_state \<times> string option) option" where
  "board_view d x = (case card_of d x of None \<Rightarrow> None | Some c \<Rightarrow> map_option (\<lambda>s. (s, c_owner c)) (card_parse (c_state c)))"

inductive board_step :: "(string \<Rightarrow> (card_state \<times> string option) option) \<Rightarrow> (string \<Rightarrow> (card_state \<times> string option) option) \<Rightarrow> bool" where
  open_card: "m x = None \<Longrightarrow> board_step m (m(x \<mapsto> (Backlog, None)))"
| claim_card: "m x = Some (Ready, w) \<Longrightarrow> board_step m (m(x \<mapsto> (Claimed, Some a)))"
| release_card: "m x = Some (s, w) \<Longrightarrow> s \<in> {Backlog, Claimed, Doing, Review, Blocked} \<Longrightarrow> board_step m (m(x \<mapsto> (Ready, None)))"
| advance_card: "m x = Some (s, w) \<Longrightarrow> legal s t \<Longrightarrow> t \<notin> {Ready, Claimed} \<Longrightarrow> board_step m (m(x \<mapsto> (t, w)))"

inductive_cases board_stepE: "board_step m m'"

lemma board_view_cong: "db_cards d' = db_cards d \<Longrightarrow> board_view d' = board_view d"
  by (simp add: fun_eq_iff board_view_def card_of_def)

lemma board_view_append [simp]: "board_view (append_event now a k s j d) = board_view d"
  by (rule board_view_cong) simp

lemma board_view_set_card:
  assumes "\<And>c. c_id (f c) = c_id c" "card_of d x = Some c" "card_parse (c_state (f c)) = Some s"
  shows "board_view (set_card x f d) = (board_view d)(x \<mapsto> (s, c_owner (f c)))"
  using assms by (auto simp: fun_eq_iff board_view_def card_of_set_card)

lemma board_view_set_card_same:
  assumes "\<And>c. c_id (f c) = c_id c" "\<And>c. c_state (f c) = c_state c" "\<And>c. c_owner (f c) = c_owner c"
  shows "board_view (set_card x f d) = board_view d"
  using assms by (auto simp: fun_eq_iff board_view_def card_of_set_card split: option.split)

lemma authorize_cards: "authorize P now op kind d = Inr (role, da) \<Longrightarrow> db_cards da = db_cards d"
  using authorize_frame by fastforce

lemma board_view_authorize: "authorize P now op kind d = Inr (role, da) \<Longrightarrow> board_view da = board_view d"
  by (rule board_view_cong) (rule authorize_cards)

lemma board_view_move_to:
  assumes "card_of d x = Some c"
  shows "board_view (move_to now x to owner d) = (board_view d)(x \<mapsto> (to, owner))"
proof -
  have "board_view (clear_approvals b x d) = board_view d" for b by (rule board_view_cong) (simp add: clear_approvals_def)
  moreover have "card_of (clear_approvals b x d) x = Some c" for b using assms by simp
  ultimately show ?thesis unfolding move_to_def by (subst board_view_set_card) auto
qed

lemma transition_view:
  assumes "transition P now op review d = Inr d'"
  shows "board_step (board_view d) (board_view d')"
proof (rule transition_Inr [OF assms], goal_cases)
  case (1 role da to c frm)
  have m: "board_view d (o_subject op) = Some (frm, c_owner c)" using 1(3,4) by (simp add: board_view_authorize [OF 1(1), symmetric] board_view_def)
  have v: "board_view d' = (board_view d)(o_subject op \<mapsto> (to, new_owner to (actor_hex op) (c_owner c)))"
    unfolding 1(9) by (simp add: board_view_move_to [OF 1(3)] board_view_authorize [OF 1(1)])
  have l: "legal frm to" using 1(6) by (rule check_transition_legal)
  show ?case
  proof (cases "to = Claimed \<or> to = Ready")
    case True
    then show ?thesis
    proof
      assume t: "to = Claimed"
      then have "frm = Ready" using l by (auto simp: legal_def)
      then show ?thesis using claim_card [of "board_view d" "o_subject op"] m unfolding v t by (simp add: new_owner_def)
    next
      assume t: "to = Ready"
      then have "frm \<in> {Backlog, Claimed, Doing, Review, Blocked}" using l by (auto simp: legal_def)
      then show ?thesis using release_card [of "board_view d" "o_subject op"] m unfolding v t by (simp add: new_owner_def)
    qed
  next
    case False
    then have "new_owner to (actor_hex op) (c_owner c) = c_owner c" using l by (cases to) (auto simp: new_owner_def legal_def)
    then show ?thesis unfolding v using advance_card [of "board_view d" "o_subject op", OF m l] False by simp
  qed
qed

lemma insert_deps_cards: "insert_deps x as d = Inr d' \<Longrightarrow> db_cards d' = db_cards d"
  by (induction x as d rule: insert_deps.induct) (auto simp: op_simps split: if_splits)

lemma create_card_view:
  assumes "create_card P from_str now op d = Inr d'"
  shows "board_step (board_view d) (board_view d')"
proof (rule create_card_Inr [OF assms], goal_cases)
  case (1 role da title lane f j dc)
  let ?x = "o_subject op" and ?c = "new_card now (o_subject op) title lane f"
  let ?d = "da \<lparr>db_cards := db_cards da @ [?c]\<rparr>"
  have "db_cards dc = db_cards ?d" using insert_deps_cards [OF 1(6)] .
  then have v: "board_view d' = board_view ?d" unfolding 1(7) by (simp add: board_view_cong [of dc])
  have none: "card_of da ?x = None" using 1(3) unfolding card_of_def find_None_iff by (metis imageI)
  have "card_of ?d y = (if y = ?x then Some ?c else card_of da y)" for y
    using none by (auto simp: card_of_def find_append new_card_def split: option.splits)
  then have "board_view ?d = (board_view da)(?x \<mapsto> (Backlog, None))" by (auto simp: fun_eq_iff board_view_def new_card_def)
  moreover have "board_view da ?x = None" using none by (simp add: board_view_def)
  ultimately show ?case unfolding v by (simp add: board_view_authorize [OF 1(1)] open_card)
qed

lemma is_wip_iff: "is_wip c \<longleftrightarrow> card_parse (c_state c) \<in> {Some Claimed, Some Doing}"
  by (auto simp: is_wip_def card_parse_def split: if_splits)

lemma reclaim_stale_view:
  assumes "reclaim_stale P now op d = Inr d'" and ok: "board_ok d"
  shows "board_step (board_view d) (board_view d')"
proof (rule reclaim_stale_Inr [OF assms(1)], goal_cases)
  case (1 role da)
  let ?x = "o_subject op" and ?f = "\<lambda>c. c \<lparr>c_state := ''ready'', c_owner := None, c_updated := now\<rparr>"
  have oka: "board_ok da" using authorize_board [OF 1(1)] ok by simp
  obtain c where c: "card_of da ?x = Some c" "is_wip c" using 1(3) card_of_iff [OF oka] by (auto simp: list_ex_iff)
  have one: "b \<in> set (db_cards da) \<Longrightarrow> c_id b = ?x \<Longrightarrow> b = c" for b using card_of_iff [OF oka, of ?x b] c(1) by simp
  have "update_where (\<lambda>b. c_id b = ?x \<and> is_wip b) ?f (db_cards da) = update_where (\<lambda>b. c_id b = ?x) ?f (db_cards da)"
    using one c(2) unfolding update_where_def by (intro map_cong) auto
  then have "db_cards d' = db_cards (set_card ?x ?f da)" unfolding 1(4) by (simp add: clear_approvals_def set_card_def)
  then have "board_view d' = board_view (set_card ?x ?f da)" by (rule board_view_cong)
  also have "\<dots> = (board_view da)(?x \<mapsto> (Ready, None))" using c by (subst board_view_set_card) (auto simp: ready_text)
  finally have v: "board_view d' = (board_view d)(?x \<mapsto> (Ready, None))" by (simp add: board_view_authorize [OF 1(1)])
  obtain s where "card_parse (c_state c) = Some s" "s \<in> {Claimed, Doing}" using c(2) by (auto simp: is_wip_iff)
  then have "board_view d ?x = Some (s, c_owner c)" "s \<in> {Backlog, Claimed, Doing, Review, Blocked}"
    using c by (auto simp: board_view_authorize [OF 1(1), symmetric] board_view_def)
  then show ?case unfolding v by (rule release_card)
qed

lemma sync_move_view:
  assumes "card_of d x = Some c"
  shows "board_view (sync_move now actor x job frm to d) = (board_view d)(x \<mapsto> (to, if to = Ready then None else c_owner c))"
  using assms by (auto simp: fun_eq_iff board_view_def card_of_sync_move)

lemma sync_moves_view:
  assumes c: "card_of d x = Some c" "card_parse (c_state c) = Some state" and p: "sync_path outcome state = Some steps"
  shows "board_step\<^sup>*\<^sup>* (board_view d) (board_view (sync_moves now actor x job frm steps d))"
proof -
  let ?m = "board_view d"
  have m: "?m x = Some (state, c_owner c)" using c by (simp add: board_view_def)
  consider "steps = [Ready]" "state \<in> {Claimed, Doing, Review}" | "steps = [Blocked]" "state \<in> {Claimed, Doing, Review}"
    | "steps = [Review]" "state = Doing" | "steps = [Doing, Review]" "state = Claimed"
    using p by (cases outcome; cases state) (auto simp: sync_path_def)
  then show ?thesis
  proof cases
    case 1
    then show ?thesis using release_card [of ?m x] m by (auto simp: sync_move_view [OF c(1)])
  next
    case 2
    then have "legal state Blocked" by (auto simp: legal_def)
    then show ?thesis using advance_card [of ?m x, OF m] 2 by (auto simp: sync_move_view [OF c(1)])
  next
    case 3
    then show ?thesis using advance_card [of ?m x, OF m, of Review] by (auto simp: sync_move_view [OF c(1)] legal_def)
  next
    case 4
    let ?m1 = "?m(x \<mapsto> (Doing, c_owner c))"
    have "board_step ?m ?m1" using advance_card [of ?m x, OF m, of Doing] 4 by (simp add: legal_def)
    moreover have "board_step ?m1 (?m1(x \<mapsto> (Review, c_owner c)))" by (rule advance_card [where s = Doing]) (simp_all add: legal_def)
    moreover have "board_view (sync_moves now actor x job frm steps d) = ?m1(x \<mapsto> (Review, c_owner c))"
      using 4 c(1) sync_move_view [OF c(1), of now actor job frm Doing]
        sync_move_view [of "sync_move now actor x job frm Doing d" x "c \<lparr>c_state := card_as_str Doing, c_updated := now\<rparr>" now actor job Doing Review]
      by (simp add: card_of_sync_move)
    ultimately show ?thesis by auto
  qed
qed

lemma flag_owner_view [simp]: "board_view (flag_owner x action d) = board_view d"
  unfolding flag_owner_def by (rule board_view_set_card_same) simp_all

lemma add_evidence_frame:
  assumes "add_evidence P now op d = Inr d'"
  obtains role da es where "authorize P now op ''card.evidence'' d = Inr (role, da)" "Worker \<le> role"
    "d' = append_event now (actor_hex op) ''card.evidence'' (o_subject op) (JObj [(''ref'', JStr (o_arg op))]) (da \<lparr>db_evidence := es\<rparr>)"
  using assms that unfolding add_evidence_def by (clarsimp simp: card_steps)

lemma approve_frame:
  assumes "approve P now op d = Inr d'"
  obtains role da as where "authorize P now op ''card.approve'' d = Inr (role, da)" "Worker \<le> role"
    "d' = append_event now (actor_hex op) ''card.approved'' (o_subject op) (JObj []) (da \<lparr>db_approvals := as\<rparr>)"
  using assms that unfolding approve_def by (clarsimp simp: card_steps)

lemma change_dep_frame:
  "remove_dep now actor x after d = Inr d' \<Longrightarrow> \<exists>k j ds. d' = append_event now actor k x j (d \<lparr>db_deps := ds\<rparr>)"
  "add_dep now actor x after d = Inr d' \<Longrightarrow> \<exists>k j ds. d' = append_event now actor k x j (d \<lparr>db_deps := ds\<rparr>)"
  by (auto simp: remove_dep_def add_dep_def op_simps split: prod.splits)

lemma card_dep_frame:
  assumes "card_dep P from_str now op d = Inr d'"
  obtains role da k j ds where "authorize P now op ''card.dep'' d = Inr (role, da)"
    "d' = append_event now (actor_hex op) k (o_subject op) j (da \<lparr>db_deps := ds\<rparr>)"
proof (rule card_dep_Inr [OF assms], goal_cases)
  case (1 role da args c)
  then show ?case using change_dep_frame that by (cases "cd_remove args") (simp_all, blast+)
qed

text \<open>Operations that leave states and owners alone.\<close>

lemma same_view:
  "add_evidence P now op d = Inr d' \<Longrightarrow> board_view d' = board_view d"
  "approve P now op d = Inr d' \<Longrightarrow> board_view d' = board_view d"
  "card_dep P dep_str now op d = Inr d' \<Longrightarrow> board_view d' = board_view d"
  "card_link P link_str now op d = Inr d' \<Longrightarrow> board_view d' = board_view d"
  "card_update P upd_str now op d = Inr (ext, d') \<Longrightarrow> board_view d' = board_view d"
  "card_escalate P esc_str now op review d = Inr (ts, d') \<Longrightarrow> board_view d' = board_view d"
proof (goal_cases)
  case 1
  show ?case by (rule add_evidence_frame [OF 1], rule board_view_cong) (auto dest: authorize_cards)
next
  case 2
  show ?case by (rule approve_frame [OF 2], rule board_view_cong) (auto dest: authorize_cards)
next
  case 3
  show ?case by (rule card_dep_frame [OF 3], rule board_view_cong) (auto dest: authorize_cards)
next
  case 4
  show ?case by (rule card_link_frame [OF 4], rule board_view_cong) (auto dest: authorize_cards)
next
  case 5
  show ?case
  proof (rule card_update_Inr [OF 5], goal_cases)
    case (1 role da args c n)
    have "board_view (set_card (o_subject op) (set_fields_of n) da) = board_view da"
      by (rule board_view_set_card_same) (simp_all add: set_fields_of_def)
    then show ?case unfolding 1(5) by (simp add: board_view_authorize [OF 1(1)])
  qed
next
  case 6
  show ?case
  proof (rule card_escalate_Inr [OF 6], goal_cases)
    case (1 role da c action j msg)
    have "board_view d' = board_view (flag_owner (o_subject op) action da)" unfolding 1(3) by (rule board_view_cong) simp
    then show ?case by (simp add: board_view_authorize [OF 1(1)])
  qed
qed

lemma sync_linked_view:
  assumes "sync_linked now actor args author x d = Inr d'"
  shows "board_step\<^sup>*\<^sup>* (board_view d) (board_view d')"
proof -
  obtain c state trusted where c: "card_of d x = Some c" "card_parse (c_state c) = Some state"
      "(case (if trusted then sync_path (cs_outcome args) state else None) of
         None \<Rightarrow> Inr (skip_notice now actor x c (cs_task args) (outcome_word (cs_outcome args)) d)
       | Some steps \<Rightarrow> Inr (sync_record now actor x args (sync_moves now actor x (cs_task args) state steps d))) = (Inr d' :: db tx)"
    using assms(1) unfolding sync_linked_def by (clarsimp simp: card_steps)
  have rec: "board_view (record_evidence now actor x r b) = board_view b" for r b
    unfolding record_evidence_def by (rule board_view_cong) simp
  have "board_view (sync_record now actor x args b) = board_view b" for b
    by (cases "cs_outcome args") (simp_all add: sync_record_def Let_def rec)
  moreover have "board_view (skip_notice now actor x c j w d) = board_view d" for j w
    unfolding skip_notice_def Let_def by (rule board_view_cong) simp
  ultimately show ?thesis using c(3) sync_moves_view [OF c(1,2)] by (auto split: option.splits if_splits)
qed

lemma card_job_sync_view:
  assumes "card_job_sync_tx P from_str now op task_id final d = Inr d'"
  shows "board_step\<^sup>*\<^sup>* (board_view d) (board_view d')"
proof (rule card_job_sync_Inr [OF assms], goal_cases)
  case (1 da args w)
  have "db_cards da = db_cards d" using authorize_system_frame [OF 1(1)] by auto
  then have "board_view da = board_view d" by (rule board_view_cong)
  then show ?case using 1(4) sync_linked_view by (cases "w_card w") fastforce+
qed

section \<open>What the abstract board keeps\<close>

lemma board_step_terminal:
  "board_step m m' \<Longrightarrow> m x = Some (s, w) \<Longrightarrow> is_terminal s \<Longrightarrow> m' x = m x"
  by (induction rule: board_step.induct) (auto simp: legal_def is_terminal_def split: if_splits)

lemma board_steps_terminal:
  "board_step\<^sup>*\<^sup>* m m' \<Longrightarrow> m x = Some (s, w) \<Longrightarrow> is_terminal s \<Longrightarrow> m' x = m x"
  by (induction rule: rtranclp_induct) (auto dest: board_step_terminal)

lemma board_steps_kept: "board_step\<^sup>*\<^sup>* m m' \<Longrightarrow> m x \<noteq> None \<Longrightarrow> m' x \<noteq> None"
proof (induction rule: rtranclp_induct)
  case (step y z)
  then show ?case by (auto elim!: board_stepE)
qed simp

section \<open>Moving a card\<close>

definition lane_wip :: "db \<Rightarrow> string \<Rightarrow> string \<Rightarrow> int" where
  "lane_wip d team lane = int (length (filter (\<lambda>c. c_team c = team \<and> c_lane c = lane \<and> is_wip c) (db_cards d)))"

lemma filter_one_more:
  assumes "distinct (map c_id cs)"
  shows "length (filter q cs) \<le> Suc (length (filter (\<lambda>c. q c \<and> c_id c \<noteq> x) cs))"
proof -
  have "length (filter q cs) = length (filter (\<lambda>c. q c \<and> c_id c \<noteq> x) cs) + length (filter (\<lambda>c. q c \<and> c_id c = x) cs)"
    by (induction cs) auto
  moreover have "length (filter (\<lambda>c. q c \<and> c_id c = x) cs) \<le> 1"
    using assms
  proof (induction cs)
    case (Cons a cs)
    have "\<forall>c \<in> set cs. c_id c \<noteq> x" if "c_id a = x"
      using Cons.prems that by (metis distinct.simps(2) imageI image_set list.simps(9))
    then have "filter (\<lambda>c. q c \<and> c_id c = x) cs = []" if "c_id a = x" using that by (simp add: filter_empty_conv)
    then show ?case using Cons by auto
  qed simp
  ultimately show ?thesis by simp
qed

lemma filter_update_others:
  "(\<And>c. c_id (f c) = c_id c) \<Longrightarrow> filter (\<lambda>c. q c \<and> c_id c \<noteq> x) (update_where (\<lambda>c. c_id c = x) f cs) = filter (\<lambda>c. q c \<and> c_id c \<noteq> x) cs"
  by (induction cs) (auto simp: update_where_def)

lemma move_to_wip:
  assumes ok: "board_ok d" and w: "wip_count d team lane x < limit"
  shows "lane_wip (move_to now x to owner d) team lane \<le> limit"
proof -
  let ?f = "\<lambda>c. c \<lparr>c_state := card_as_str to, c_owner := owner, c_updated := now\<rparr>"
  let ?q = "\<lambda>c. c_team c = team \<and> c_lane c = lane \<and> is_wip c"
  let ?cs = "update_where (\<lambda>c. c_id c = x) ?f (db_cards d)"
  have cs: "db_cards (move_to now x to owner d) = ?cs" by (simp add: move_to_def set_card_def clear_approvals_def)
  have "distinct (map c_id ?cs)" using ok by (simp add: map_update_where board_ok_def)
  then have "length (filter ?q ?cs) \<le> Suc (length (filter (\<lambda>c. ?q c \<and> c_id c \<noteq> x) ?cs))" by (rule filter_one_more)
  also have "\<dots> = Suc (length (filter (\<lambda>c. ?q c \<and> c_id c \<noteq> x) (db_cards d)))" by (subst filter_update_others) auto
  also have "int \<dots> = wip_count d team lane x + 1" by (simp add: wip_count_def conj_assoc)
  finally show ?thesis using w by (simp add: lane_wip_def cs)
qed

lemma check_wip_Inr:
  assumes "check_wip d x review = Inr ()" "card_of d x = Some c" "ep_wip_limit (effective_for d (c_team c) (c_lane c) review) = Some limit"
  shows "wip_count d (c_team c) (c_lane c) x < limit"
  using assms by (simp add: check_wip_def op_simps Let_def)


definition sample_board_db :: db where
  "sample_board_db = sample_owner_db
     \<lparr>db_cards := [\<lparr>c_id = ''c1'', c_title = ''t'', c_lane = ''l'', c_state = ''ready'', c_owner = None, c_created = 1000,
        c_updated = 1000, c_priority = 0, c_value = lit 1 1, c_size = lit 1 1, c_team = ''t'', c_needs_owner = False, c_owner_action = []\<rparr>],
      db_policies := [\<lparr>p_team = ''*'', p_lane = ''*'', p_policy = \<lparr>tp_stale_after_s = None, tp_escalate_after_s = None,
        tp_reclaim_after_s = None, tp_reclaim = None, tp_require_review = None, tp_wip_limit = Some 1, tp_escalation_chain = None,
        tp_sprint_rollover = None\<rparr>, p_updated = 1000, p_by = ''o''\<rparr>]\<rparr>"

lemma sample_board_ok: "board_ok sample_board_db"
proof -
  have cards: "db_cards sample_board_db = [hd (db_cards sample_board_db)]" by (simp add: sample_board_db_def)
  have "db_approvals sample_board_db = [] \<and> db_deps sample_board_db = []" by code_simp
  moreover have "card_row_ok sample_board_db (hd (db_cards sample_board_db))" by code_simp
  ultimately show ?thesis by (subst board_ok_def, subst cards, subst cards) (simp add: approvals_ok_def deps_ok_def dep_rel_def acyclic_def)
qed


lemma apply_layer_idem: "apply_layer (apply_layer out a) a = apply_layer out a"
  by (simp add: apply_layer_def split: option.split)

lemma or_keep_again:
  "or_keep b (or_keep a (or_keep b (or_keep a x))) = or_keep b (or_keep a x)"
  "(case v of Some w \<Rightarrow> Some w | None \<Rightarrow> case u of Some w \<Rightarrow> Some w | None \<Rightarrow> case v of Some w \<Rightarrow> Some w | None \<Rightarrow>
      case u of Some w \<Rightarrow> Some w | None \<Rightarrow> y) = (case v of Some w \<Rightarrow> Some w | None \<Rightarrow> case u of Some w \<Rightarrow> Some w | None \<Rightarrow> y)"
  by (cases a; cases b; simp) (cases u; cases v; simp)

lemma apply_layer_again: "apply_layer (apply_layer (apply_layer (apply_layer out a) b) a) b = apply_layer (apply_layer out a) b"
  by (simp only: apply_layer_def effective_policy.select_convs or_keep_again)

text \<open>
  C30: The layered policy of a team and lane that the board uses, which reads all four rows, is the one the policy
  listing reports, which skips rows it has already read.
\<close>

theorem effective_for_policy: "effective_for d team lane review = effective_policy_of d team lane review"
  by (cases "team = ''*''"; cases "lane = ''*''")
    (auto simp: effective_for_def effective_policy_of_def effective_def WILDCARD_def map_filter_def apply_layer_idem apply_layer_again
      split: option.split)

end
