(* ===== verification/Social.thy ===== *)
theory Social
  imports Board Messages
begin

text \<open>
  Reactions, knowledge notes, sprints and statuses: \<open>agora-store/src/social.rs\<close>, \<open>sprints.rs\<close> and \<open>status.rs\<close>.
  The full-text index of the database is a parameter, a function from a query and the notes to the matching notes,
  best first. Invariants: one row per key, superseded notes exist, at most one active sprint, and a sprint holds
  existing cards.
\<close>

section \<open>Reactions\<close>

record signed_reaction =
  sr_kind :: string
  sr_target :: string
  sr_by :: string
  sr_emoji :: string
  sr_remove :: bool
  sr_ts :: int
  sr_sig :: string

definition reaction_signing_bytes :: "signed_reaction \<Rightarrow> string" where
  "reaction_signing_bytes r =
     canonical ''react/v1'' [sr_kind r, sr_target r, sr_by r, sr_emoji r, [int_char (if sr_remove r then 1 else 0)], le_bytes 8 (sr_ts r)]"

definition verify_by :: "primitives \<Rightarrow> string \<Rightarrow> string \<Rightarrow> string \<Rightarrow> unit tx" where
  "verify_by P key bytes sig = (case verify P key bytes sig of Inl e \<Rightarrow> Inl (Crypto e) | Inr u \<Rightarrow> Inr u)"

definition message_channel :: "db \<Rightarrow> string \<Rightarrow> string option" where
  "message_channel d mid = map_option ms_channel (find (\<lambda>m. ms_id m = mid) (db_messages d))"

definition reaction_target_exists :: "db \<Rightarrow> signed_reaction \<Rightarrow> bool tx" where
  "reaction_target_exists d r =
     (if sr_kind r = ''message'' then
        (case message_channel d (sr_target r) of
           None \<Rightarrow> Inr False
         | Some channel \<Rightarrow> if is_member d channel (sr_by r) then Inr True else Inl (NotFound (sr_target r)))
      else if sr_kind r = ''file'' then Inr (list_ex (\<lambda>b. b_hash b = sr_target r) (db_blobs d))
      else if sr_kind r = ''card'' then Inr (list_ex (\<lambda>c. c_id c = sr_target r) (db_cards d))
      else Inl (Invalid ''unknown reaction target kind''))"

abbreviation reaction_id :: "reaction_row \<Rightarrow> string \<times> string \<times> string \<times> string" where
  "reaction_id r \<equiv> (re_kind r, re_target r, re_by r, re_emoji r)"

definition same_reaction :: "signed_reaction \<Rightarrow> reaction_row \<Rightarrow> bool" where
  "same_reaction r x = (reaction_id x = (sr_kind r, sr_target r, sr_by r, sr_emoji r))"

definition reaction_row_of :: "signed_reaction \<Rightarrow> reaction_row" where
  "reaction_row_of r = \<lparr>re_kind = sr_kind r, re_target = sr_target r, re_by = sr_by r, re_emoji = sr_emoji r, re_ts = sr_ts r, re_sig = sr_sig r\<rparr>"

definition record_reaction :: "int \<Rightarrow> signed_reaction \<Rightarrow> db \<Rightarrow> db" where
  "record_reaction now r d =
     (let data = JObj [(''emoji'', JStr (sr_emoji r)), (''kind'', JStr (sr_kind r)), (''target'', JStr (sr_target r))];
          rest = delete_where (same_reaction r) (db_reactions d)
      in if sr_remove r then
           (if list_ex (same_reaction r) (db_reactions d)
            then append_event now (hex (sr_by r)) ''reaction.removed'' (sr_target r) data (d \<lparr>db_reactions := rest\<rparr>)
            else d)
         else append_event now (hex (sr_by r)) ''reaction.added'' (sr_target r) data (d \<lparr>db_reactions := rest @ [reaction_row_of r]\<rparr>))"

definition react :: "primitives \<Rightarrow> int \<Rightarrow> signed_reaction \<Rightarrow> db \<Rightarrow> db tx" where
  "react P now r d0 =
     bind_result (ensure (sr_emoji r \<noteq> [] \<and> int (length (sr_emoji r)) \<le> 64) (Invalid ''reaction must be 1..=64 bytes'')) (\<lambda>_.
     bind_result (ensure (int (length (sr_target r)) \<le> 256) (Invalid ''reaction target longer than 256 bytes'')) (\<lambda>_.
     bind_result (check_clock now (sr_ts r)) (\<lambda>_.
     bind_result (verify_by P (sr_by r) (reaction_signing_bytes r) (sr_sig r)) (\<lambda>_.
     bind_result (active_role d0 (sr_by r)) (\<lambda>_.
     bind_result (consume_nonce now (sr_by r) (''react:'' @ pr_hash P (reaction_signing_bytes r)) (sr_ts r) d0) (\<lambda>d.
     bind_result (reaction_target_exists d r) (\<lambda>exists.
     bind_result (ensure exists (NotFound (sr_target r))) (\<lambda>_.
     Inr (record_reaction now r d)))))))))"

definition reaction_counts :: "db \<Rightarrow> string \<Rightarrow> string \<Rightarrow> (string \<times> int) list" where
  "reaction_counts d kind target =
     (let rows = filter (\<lambda>r. re_kind r = kind \<and> re_target r = target) (db_reactions d);
          groups = map (\<lambda>e. (e, int (length (filter (\<lambda>r. re_emoji r = e) rows)))) (remdups (map re_emoji rows))
      in sort_by (\<lambda>a b. then_with (cmp (snd b) (snd a)) (cmp (fst a) (fst b))) groups)"

definition reaction_counts_for :: "db \<Rightarrow> string \<Rightarrow> string \<Rightarrow> string \<Rightarrow> (string \<times> int) list tx" where
  "reaction_counts_for d reader kind target =
     bind_result (active_role d reader) (\<lambda>_.
     bind_result
       (if kind = ''message'' then
          ensure (case message_channel d target of None \<Rightarrow> False | Some channel \<Rightarrow> is_member d channel reader) (NotFound target)
        else ensure (kind = ''file'' \<or> kind = ''card'') (Invalid ''unknown reaction target kind'')) (\<lambda>_.
     Inr (reaction_counts d kind target)))"

section \<open>Knowledge notes\<close>

record signed_note =
  sn_id :: string
  sn_author :: string
  sn_ts :: int
  sn_title :: string
  sn_body :: string
  sn_tags :: string
  sn_supersedes :: "string option"
  sn_sig :: string

definition note_signing_bytes :: "signed_note \<Rightarrow> string" where
  "note_signing_bytes n =
     canonical ''note/v1'' [sn_id n, sn_author n, le_bytes 8 (sn_ts n), sn_title n, sn_body n, sn_tags n,
       (case sn_supersedes n of None \<Rightarrow> [] | Some k \<Rightarrow> k)]"

definition check_note :: "signed_note \<Rightarrow> unit tx" where
  "check_note n =
     bind_result (ensure (sn_id n \<noteq> [] \<and> int (length (sn_id n)) \<le> 256) (Invalid ''note id must be 1..=256 bytes'')) (\<lambda>_.
     bind_result (ensure (sn_title n \<noteq> [] \<and> int (length (sn_title n)) \<le> 512) (Invalid ''note title must be 1..=512 bytes'')) (\<lambda>_.
     bind_result (ensure (int (length (sn_body n)) \<le> MAX_BODY) (Invalid ''note body too large'')) (\<lambda>_.
     bind_result (ensure (int (length (sn_tags n)) \<le> 1024) (Invalid ''note tags longer than 1024 bytes'')) (\<lambda>_.
     ensure (case sn_supersedes n of None \<Rightarrow> True | Some k \<Rightarrow> int (length k) \<le> 256) (Invalid ''supersedes longer than 256 bytes'')))))"

definition check_supersedes :: "db \<Rightarrow> role \<Rightarrow> signed_note \<Rightarrow> unit tx" where
  "check_supersedes d role n =
     (case sn_supersedes n of
        None \<Rightarrow> Inr ()
      | Some k \<Rightarrow>
          bind_result (ok_or (find (\<lambda>r. kn_id r = k) (db_knowledge d)) (NotFound k)) (\<lambda>prev.
          ensure (\<not> (kn_author prev \<noteq> sn_author n \<and> role < Supervisor)) (Transition (Forbidden role))))"

definition note_row_of :: "signed_note \<Rightarrow> knowledge_row" where
  "note_row_of n = \<lparr>kn_id = sn_id n, kn_author = sn_author n, kn_ts = sn_ts n, kn_title = sn_title n, kn_body = sn_body n,
     kn_tags = sn_tags n, kn_supersedes = sn_supersedes n, kn_sig = sn_sig n\<rparr>"

definition publish_note :: "primitives \<Rightarrow> int \<Rightarrow> signed_note \<Rightarrow> db \<Rightarrow> db tx" where
  "publish_note P now n d =
     bind_result (check_note n) (\<lambda>_.
     bind_result (check_clock now (sn_ts n)) (\<lambda>_.
     bind_result (verify_by P (sn_author n) (note_signing_bytes n) (sn_sig n)) (\<lambda>_.
     bind_result (active_role d (sn_author n)) (\<lambda>role.
     bind_result (need role Worker) (\<lambda>_.
     bind_result (ensure (\<not> list_ex (\<lambda>r. kn_id r = sn_id n) (db_knowledge d)) (Invalid ''note already exists'')) (\<lambda>_.
     bind_result (check_supersedes d role n) (\<lambda>_.
     Inr (append_event now (hex (sn_author n)) ''note.published'' (sn_id n)
       (JObj [(''supersedes'', case sn_supersedes n of None \<Rightarrow> JNull | Some k \<Rightarrow> JStr k)])
       (d \<lparr>db_knowledge := db_knowledge d @ [note_row_of n]\<rparr>)))))))))"

text \<open>The query: no NUL, at most 1024 characters, at most 16 words, each quoted for the index.\<close>

definition quote_term :: "int list \<Rightarrow> int list" where
  "quote_term t = 34 # concat (map (\<lambda>c. if c = 34 then [34, 34] else [c]) t) @ [34]"

definition fts_query :: "string \<Rightarrow> string" where
  "fts_query query =
     (let bounded = take 1024 (filter (\<lambda>c. c \<noteq> 0) (chars_of query))
      in join '' '' (map (\<lambda>t. of_chars (quote_term t)) (take 16 (words_ws [] bounded))))"

definition search_notes :: "(string \<Rightarrow> knowledge_row list \<Rightarrow> knowledge_row list) \<Rightarrow> db \<Rightarrow> string \<Rightarrow> int \<Rightarrow> (string \<times> string) list" where
  "search_notes fts d query limit =
     (let q = fts_query query
      in if q = [] then []
         else map (\<lambda>k. (kn_id k, kn_title k))
           (take (nat (max 0 (min 200 limit)))
             (filter (\<lambda>k. \<not> list_ex (\<lambda>n. kn_supersedes n = Some (kn_id k)) (db_knowledge d)) (fts q (db_knowledge d)))))"

section \<open>Sprints\<close>

record sprint_summary_t =
  ss_total :: int
  ss_done :: int
  ss_in_flight :: int
  ss_blocked :: int

definition require_sprint_id :: "signed_op \<Rightarrow> unit tx" where
  "require_sprint_id op = ensure (o_subject op \<noteq> []) (Invalid ''sprint id must not be empty'')"

definition parse_create_arg :: "(string \<Rightarrow> json option) \<Rightarrow> string \<Rightarrow> (string \<times> string \<times> int \<times> int) tx" where
  "parse_create_arg from_str arg =
     bind_result (ok_or (from_str arg) (Invalid ''sprint arg must be JSON'')) (\<lambda>v.
     bind_result (ok_or (case jget ''name'' v of Some (JStr s) \<Rightarrow> if s \<noteq> [] then Some s else None | _ \<Rightarrow> None)
       (Invalid ''sprint name must be a non-empty string'')) (\<lambda>name.
     bind_result (case jget ''goal'' v of None \<Rightarrow> Inr [] | Some g \<Rightarrow> ok_or (jas_str g) (Invalid ''sprint goal must be a string'')) (\<lambda>goal.
     bind_result (ok_or (Option.bind (jget ''starts'' v) jas_i64) (Invalid ''sprint starts must be an integer'')) (\<lambda>starts.
     bind_result (ok_or (Option.bind (jget ''ends'' v) jas_i64) (Invalid ''sprint ends must be an integer'')) (\<lambda>ends.
     Inr (name, goal, starts, ends))))))"

definition sprint_state :: "db \<Rightarrow> string \<Rightarrow> string tx" where
  "sprint_state d sid = ok_or (map_option sp_state (find (\<lambda>s. sp_id s = sid) (db_sprints d))) (NotFound sid)"

definition ensure_card :: "db \<Rightarrow> string \<Rightarrow> unit tx" where
  "ensure_card d cid = ensure (list_ex (\<lambda>c. c_id c = cid) (db_cards d)) (NotFound cid)"

definition create_sprint :: "primitives \<Rightarrow> (string \<Rightarrow> json option) \<Rightarrow> int \<Rightarrow> signed_op \<Rightarrow> db \<Rightarrow> db tx" where
  "create_sprint P from_str now op d0 =
     bind_result (authorize P now op ''sprint.create'' d0) (\<lambda>(role, d).
     bind_result (need role Supervisor) (\<lambda>_.
     bind_result (require_sprint_id op) (\<lambda>_.
     bind_result (parse_create_arg from_str (o_arg op)) (\<lambda>(name, goal, starts, ends).
     bind_result (ensure (starts < ends) (Invalid ''sprint must end after it starts'')) (\<lambda>_.
     bind_result (ensure (\<not> list_ex (\<lambda>s. sp_id s = o_subject op) (db_sprints d)) (Invalid ''sprint already exists'')) (\<lambda>_.
     Inr (append_event now (actor_hex op) ''sprint.created'' (o_subject op)
       (JObj [(''ends'', jint ends), (''goal'', JStr goal), (''name'', JStr name), (''starts'', jint starts)])
       (d \<lparr>db_sprints := db_sprints d @ [\<lparr>sp_id = o_subject op, sp_name = name, sp_goal = goal, sp_starts = starts,
          sp_ends = ends, sp_state = ''planned''\<rparr>]\<rparr>))))))))"

definition add_to_sprint :: "primitives \<Rightarrow> int \<Rightarrow> signed_op \<Rightarrow> db \<Rightarrow> db tx" where
  "add_to_sprint P now op d0 =
     bind_result (authorize P now op ''sprint.add'' d0) (\<lambda>(role, d).
     bind_result (need role Supervisor) (\<lambda>_.
     bind_result (require_sprint_id op) (\<lambda>_.
     bind_result (ensure (o_arg op \<noteq> []) (Invalid ''card id must not be empty'')) (\<lambda>_.
     bind_result (ensure_card d (o_arg op)) (\<lambda>_.
     bind_result (sprint_state d (o_subject op)) (\<lambda>state.
     bind_result (ensure (state \<noteq> ''closed'') (Invalid ''sprint is closed'')) (\<lambda>_.
     case insert_ignore (\<lambda>r. (sc_sprint r, sc_card r)) \<lparr>sc_sprint = o_subject op, sc_card = o_arg op\<rparr> (db_sprint_cards d) of
       (t, inserted) \<Rightarrow>
         let d' = d \<lparr>db_sprint_cards := t\<rparr>
         in Inr (if inserted
                 then append_event now (actor_hex op) ''sprint.card_added'' (o_subject op) (JObj [(''card'', JStr (o_arg op))]) d'
                 else d'))))))))"

definition set_sprint_state :: "string \<Rightarrow> string \<Rightarrow> db \<Rightarrow> db" where
  "set_sprint_state sid state d = d \<lparr>db_sprints := update_where (\<lambda>s. sp_id s = sid) (\<lambda>s. s \<lparr>sp_state := state\<rparr>) (db_sprints d)\<rparr>"

definition start_sprint :: "primitives \<Rightarrow> int \<Rightarrow> signed_op \<Rightarrow> db \<Rightarrow> db tx" where
  "start_sprint P now op d0 =
     bind_result (authorize P now op ''sprint.start'' d0) (\<lambda>(role, d).
     bind_result (need role Supervisor) (\<lambda>_.
     bind_result (require_sprint_id op) (\<lambda>_.
     bind_result (sprint_state d (o_subject op)) (\<lambda>state.
     bind_result (ensure (state = ''planned'') (Invalid ''sprint is not planned'')) (\<lambda>_.
     bind_result (ensure (\<not> list_ex (\<lambda>s. sp_state s = ''active'') (db_sprints d)) (Invalid ''another sprint is already active'')) (\<lambda>_.
     Inr (append_event now (actor_hex op) ''sprint.started'' (o_subject op) (JObj [])
       (set_sprint_state (o_subject op) ''active'' d))))))))"

definition close_sprint :: "primitives \<Rightarrow> int \<Rightarrow> signed_op \<Rightarrow> db \<Rightarrow> db tx" where
  "close_sprint P now op d0 =
     bind_result (authorize P now op ''sprint.close'' d0) (\<lambda>(role, d).
     bind_result (need role Supervisor) (\<lambda>_.
     bind_result (require_sprint_id op) (\<lambda>_.
     bind_result (sprint_state d (o_subject op)) (\<lambda>state.
     bind_result (ensure (state = ''active'') (Invalid ''sprint is not active'')) (\<lambda>_.
     Inr (append_event now (actor_hex op) ''sprint.closed'' (o_subject op) (JObj [])
       (set_sprint_state (o_subject op) ''closed'' d)))))))"

text \<open>The grouped rows, state by state, and the sum over them.\<close>

definition sprint_groups :: "db \<Rightarrow> string \<Rightarrow> (string \<times> int) list" where
  "sprint_groups d sprint =
     (let states = List.map_filter (\<lambda>s. map_option c_state (card_of d (sc_card s))) (filter (\<lambda>s. sc_sprint s = sprint) (db_sprint_cards d))
      in map (\<lambda>st. (st, int (length (filter (\<lambda>x. x = st) states)))) (remdups states))"

definition add_group :: "sprint_summary_t \<Rightarrow> string \<times> int \<Rightarrow> sprint_summary_t" where
  "add_group out g =
     (case g of (state, n) \<Rightarrow>
        let out = out \<lparr>ss_total := ss_total out + n\<rparr>
        in if state = ''done'' then out \<lparr>ss_done := ss_done out + n\<rparr>
           else if state = ''blocked'' then out \<lparr>ss_blocked := ss_blocked out + n\<rparr>
           else if state = ''claimed'' \<or> state = ''doing'' \<or> state = ''review'' then out \<lparr>ss_in_flight := ss_in_flight out + n\<rparr>
           else out)"

definition sprint_summary :: "db \<Rightarrow> string \<Rightarrow> sprint_summary_t tx" where
  "sprint_summary d sprint =
     bind_result (sprint_state d sprint) (\<lambda>_.
     Inr (foldl add_group \<lparr>ss_total = 0, ss_done = 0, ss_in_flight = 0, ss_blocked = 0\<rparr> (sprint_groups d sprint)))"

section \<open>Statuses\<close>

record status_arg =
  sa_state :: string
  sa_harness :: string
  sa_folder :: string
  sa_matter :: string

fun status_fields :: "(string \<times> json) list \<Rightarrow> status_arg \<Rightarrow> status_arg tx" where
  "status_fields [] out = Inr out"
| "status_fields ((key, v) # rest) out =
     bind_result (ok_or (jas_str v) (Invalid ''status fields must be strings'')) (\<lambda>text.
     bind_result
       (if key = ''state'' then Inr (out \<lparr>sa_state := text\<rparr>)
        else if key = ''harness'' then Inr (out \<lparr>sa_harness := text\<rparr>)
        else if key = ''folder'' then Inr (out \<lparr>sa_folder := text\<rparr>)
        else if key = ''matter'' then Inr (out \<lparr>sa_matter := text\<rparr>)
        else Inl (Invalid ''unknown status field'')) (\<lambda>out. status_fields rest out))"

definition parse_status :: "(string \<Rightarrow> json option) \<Rightarrow> string \<Rightarrow> status_arg tx" where
  "parse_status from_str arg =
     bind_result (ok_or (from_str arg) (Invalid ''status arg must be JSON'')) (\<lambda>v.
     case v of
       JObj entries \<Rightarrow> status_fields entries \<lparr>sa_state = [], sa_harness = [], sa_folder = [], sa_matter = []\<rparr>
     | _ \<Rightarrow> Inl (Invalid ''status arg must be a JSON object''))"

definition require_own_subject :: "signed_op \<Rightarrow> unit tx" where
  "require_own_subject op = ensure (o_subject op = hex (o_actor op)) (Invalid ''status subject must be the actor's own key'')"

definition upsert_status :: "status_row \<Rightarrow> status_row list \<Rightarrow> status_row list" where
  "upsert_status r t =
     (if list_ex (\<lambda>x. st_pk x = st_pk r \<and> st_harness x = st_harness r) t
      then update_where (\<lambda>x. st_pk x = st_pk r \<and> st_harness x = st_harness r)
        (\<lambda>x. x \<lparr>st_state := st_state r, st_folder := st_folder r, st_matter := st_matter r, st_ts := st_ts r\<rparr>) t
      else t @ [r])"

definition set_status :: "primitives \<Rightarrow> (string \<Rightarrow> json option) \<Rightarrow> int \<Rightarrow> signed_op \<Rightarrow> db \<Rightarrow> db tx" where
  "set_status P from_str now op d0 =
     bind_result (parse_status from_str (o_arg op)) (\<lambda>arg.
     bind_result (ensure (sa_state arg \<noteq> [] \<and> int (length (sa_state arg)) \<le> 64) (Invalid ''status state must be 1..=64 bytes'')) (\<lambda>_.
     bind_result (ensure (int (length (sa_harness arg)) \<le> 64) (Invalid ''status harness longer than 64 bytes'')) (\<lambda>_.
     bind_result (ensure (int (length (sa_folder arg)) \<le> 512) (Invalid ''status folder longer than 512 bytes'')) (\<lambda>_.
     bind_result (ensure (int (length (sa_matter arg)) \<le> 512) (Invalid ''status matter longer than 512 bytes'')) (\<lambda>_.
     bind_result (authorize P now op ''status.set'' d0) (\<lambda>(role, d).
     bind_result (need role Worker) (\<lambda>_.
     bind_result (require_own_subject op) (\<lambda>_.
     Inr (append_event now (actor_hex op) ''status.set'' (actor_hex op)
       (JObj [(''harness'', JStr (sa_harness arg)), (''state'', JStr (sa_state arg))])
       (d \<lparr>db_statuses := upsert_status \<lparr>st_pk = o_actor op, st_harness = sa_harness arg, st_state = sa_state arg,
          st_folder = sa_folder arg, st_matter = sa_matter arg, st_ts = now\<rparr> (db_statuses d)\<rparr>))))))))))"

definition clear_status :: "primitives \<Rightarrow> (string \<Rightarrow> json option) \<Rightarrow> int \<Rightarrow> signed_op \<Rightarrow> db \<Rightarrow> db tx" where
  "clear_status P from_str now op d0 =
     bind_result (parse_status from_str (o_arg op)) (\<lambda>arg.
     bind_result (ensure (int (length (sa_harness arg)) \<le> 64) (Invalid ''status harness longer than 64 bytes'')) (\<lambda>_.
     bind_result (authorize P now op ''status.clear'' d0) (\<lambda>(role, d).
     bind_result (need role Worker) (\<lambda>_.
     bind_result (require_own_subject op) (\<lambda>_.
     let mine = (\<lambda>x. st_pk x = o_actor op \<and> st_harness x = sa_harness arg);
         d' = d \<lparr>db_statuses := delete_where mine (db_statuses d)\<rparr>
     in Inr (if list_ex mine (db_statuses d)
             then append_event now (actor_hex op) ''status.cleared'' (actor_hex op) (JObj [(''harness'', JStr (sa_harness arg))]) d'
             else d'))))))"

definition status_rows :: "(status_row \<Rightarrow> bool) \<Rightarrow> db \<Rightarrow> status_row list" where
  "status_rows visible d =
     sort_by (\<lambda>a b. then_with (cmp (st_ts b) (st_ts a)) (then_with (cmp (st_pk a) (st_pk b)) (cmp (st_harness a) (st_harness b))))
       (filter visible (db_statuses d))"

definition shares_channel :: "db \<Rightarrow> string \<Rightarrow> string \<Rightarrow> bool" where
  "shares_channel d a b = list_ex (\<lambda>m. m_pubkey m = a \<and> list_ex (\<lambda>n. m_channel n = m_channel m \<and> m_pubkey n = b) (db_members d)) (db_members d)"

definition statuses :: "db \<Rightarrow> string \<Rightarrow> status_row list tx" where
  "statuses d reader =
     bind_result (role_of d reader) (\<lambda>_. Inr (status_rows (\<lambda>s. st_pk s = reader \<or> shares_channel d (st_pk s) reader) d))"

definition all_statuses :: "db \<Rightarrow> string \<Rightarrow> status_row list tx" where
  "all_statuses d reader =
     bind_result (role_of d reader) (\<lambda>role. bind_result (need role Supervisor) (\<lambda>_. Inr (status_rows (\<lambda>_. True) d)))"

section \<open>The invariant\<close>

definition sprints_ok :: "db \<Rightarrow> bool" where
  "sprints_ok d =
     (distinct (map sp_id (db_sprints d))
      \<and> (\<forall>s \<in> set (db_sprints d). sp_state s \<in> {''planned'', ''active'', ''closed''} \<and> sp_starts s < sp_ends s)
      \<and> length (filter (\<lambda>s. sp_state s = ''active'') (db_sprints d)) \<le> 1
      \<and> (\<forall>r \<in> set (db_sprint_cards d). sc_sprint r \<in> sp_id ` set (db_sprints d) \<and> sc_card r \<in> c_id ` set (db_cards d)))"

definition notes_ok :: "knowledge_row list \<Rightarrow> bool" where
  "notes_ok t = (distinct (map kn_id t) \<and> (\<forall>n \<in> set t. \<forall>k. kn_supersedes n = Some k \<longrightarrow> k \<in> kn_id ` set t \<and> k \<noteq> kn_id n))"

definition social_ok :: "db \<Rightarrow> bool" where
  "social_ok d =
     (sprints_ok d \<and> notes_ok (db_knowledge d) \<and> distinct (map reaction_id (db_reactions d))
      \<and> distinct (map (\<lambda>s. (st_pk s, st_harness s)) (db_statuses d)))"

lemma social_ok_empty: "social_ok empty_db"
  by (simp add: social_ok_def sprints_ok_def notes_ok_def empty_db_def)

lemma social_ok_frame:
  assumes "social_ok d" "db_sprints d' = db_sprints d" "db_sprint_cards d' = db_sprint_cards d" "db_knowledge d' = db_knowledge d"
    "db_reactions d' = db_reactions d" "db_statuses d' = db_statuses d" "c_id ` set (db_cards d) \<subseteq> c_id ` set (db_cards d')"
  shows "social_ok d'"
  using assms(1,7) unfolding social_ok_def sprints_ok_def assms(2-6) by blast

lemma social_ok_append [simp]: "social_ok (append_event now a k s j d) = social_ok d"
  by (simp add: social_ok_def sprints_ok_def)

lemma social_ok_nonces [simp]: "social_ok (d \<lparr>db_nonces := ns\<rparr>) = social_ok d"
  by (simp add: social_ok_def sprints_ok_def)

lemma social_authorize: "authorize P now op kind d = Inr (role, da) \<Longrightarrow> social_ok da = social_ok d"
  using authorize_frame by fastforce

section \<open>Reactions and notes\<close>

lemma record_reaction_frame:
  "\<exists>rs ev. record_reaction now r d = d \<lparr>db_reactions := rs, db_events := ev\<rparr> \<and> (distinct (map reaction_id (db_reactions d)) \<longrightarrow> distinct (map reaction_id rs))"
proof -
  have *: "distinct (map reaction_id (db_reactions d)) \<Longrightarrow> distinct (map reaction_id (delete_where (same_reaction r) (db_reactions d)))"
    by (simp add: delete_where_def distinct_map_filter)
  have new: "reaction_id (reaction_row_of r) \<notin> reaction_id ` set (delete_where (same_reaction r) (db_reactions d))"
    by (auto simp: reaction_row_of_def same_reaction_def delete_where_def)
  consider "sr_remove r" "list_ex (same_reaction r) (db_reactions d)" | "sr_remove r" "\<not> list_ex (same_reaction r) (db_reactions d)" | "\<not> sr_remove r" by blast
  then show ?thesis
  proof cases
    case 1
    then show ?thesis using * by (intro exI [of _ "delete_where (same_reaction r) (db_reactions d)"]) (auto simp: record_reaction_def Let_def append_event_def)
  next
    case 2
    then show ?thesis by (intro exI [of _ "db_reactions d"] exI [of _ "db_events d"]) (simp add: record_reaction_def)
  next
    case 3
    then show ?thesis using * new
      by (intro exI [of _ "delete_where (same_reaction r) (db_reactions d) @ [reaction_row_of r]"]) (auto simp: record_reaction_def Let_def append_event_def)
  qed
qed

lemma react_frame:
  assumes "react P now r d = Inr d'"
  shows "\<exists>ns rs ev. d' = d \<lparr>db_nonces := ns, db_reactions := rs, db_events := ev\<rparr> \<and> (distinct (map reaction_id (db_reactions d)) \<longrightarrow> distinct (map reaction_id rs))"
proof -
  obtain da where a: "consume_nonce now (sr_by r) (''react:'' @ pr_hash P (reaction_signing_bytes r)) (sr_ts r) d = Inr da" "d' = record_reaction now r da"
    using assms unfolding react_def by (clarsimp simp: op_simps)
  obtain ns where "da = d \<lparr>db_nonces := ns\<rparr>" using consume_nonce_frame [OF a(1)] by blast
  then show ?thesis using record_reaction_frame [of now r da] unfolding a(2) by auto
qed

lemma react_ok: "react P now r d = Inr d' \<Longrightarrow> social_ok d \<Longrightarrow> social_ok d'"
  by (drule react_frame) (auto simp: social_ok_def sprints_ok_def)

lemma publish_note_Inr:
  assumes "publish_note P now n d = Inr d'"
  obtains role j where "active_role d (sn_author n) = Inr role" "Worker \<le> role" "verify_by P (sn_author n) (note_signing_bytes n) (sn_sig n) = Inr ()"
    "sn_id n \<notin> kn_id ` set (db_knowledge d)" "check_supersedes d role n = Inr ()"
    "d' = append_event now (hex (sn_author n)) ''note.published'' (sn_id n) j (d \<lparr>db_knowledge := db_knowledge d @ [note_row_of n]\<rparr>)"
proof -
  obtain role where *: "active_role d (sn_author n) = Inr role" "Worker \<le> role" "verify_by P (sn_author n) (note_signing_bytes n) (sn_sig n) = Inr ()"
      "\<not> list_ex (\<lambda>r. kn_id r = sn_id n) (db_knowledge d)" "check_supersedes d role n = Inr ()"
      "d' = append_event now (hex (sn_author n)) ''note.published'' (sn_id n)
       (JObj [(''supersedes'', case sn_supersedes n of None \<Rightarrow> JNull | Some k \<Rightarrow> JStr k)]) (d \<lparr>db_knowledge := db_knowledge d @ [note_row_of n]\<rparr>)"
    using assms unfolding publish_note_def by (clarsimp simp: op_simps)
  show ?thesis by (rule that [OF *(1-3) _ *(5,6)]) (use *(4) in \<open>auto simp: list_ex_iff\<close>)
qed

lemma check_supersedes_Inr: "check_supersedes d role n = Inr () \<Longrightarrow> sn_supersedes n = Some k \<Longrightarrow> k \<in> kn_id ` set (db_knowledge d)"
  by (auto simp: check_supersedes_def op_simps dest!: find_SomeD)

lemma publish_note_ok:
  assumes "publish_note P now n d = Inr d'" and ok: "social_ok d"
  shows "social_ok d'"
proof (rule publish_note_Inr [OF assms(1)], goal_cases)
  case (1 role j)
  have "notes_ok (db_knowledge d @ [note_row_of n])"
    using ok 1(4) check_supersedes_Inr [OF 1(5)] by (auto simp: social_ok_def notes_ok_def note_row_of_def)
  then show ?case unfolding 1(6) using ok by (simp add: social_ok_def sprints_ok_def)
qed

section \<open>Sprints\<close>

lemma sprint_state_Inr [tx_simps]: "sprint_state d x = Inr st \<longleftrightarrow> (\<exists>s. find (\<lambda>s. sp_id s = x) (db_sprints d) = Some s \<and> sp_state s = st)"
  by (simp add: sprint_state_def ok_or_Inr)

lemma create_sprint_Inr:
  assumes "create_sprint P from_str now op d = Inr d'"
  obtains role da row j where "authorize P now op ''sprint.create'' d = Inr (role, da)" "Supervisor \<le> role"
    "o_subject op \<notin> sp_id ` set (db_sprints da)" "sp_id row = o_subject op" "sp_state row = ''planned''" "sp_starts row < sp_ends row"
    "d' = append_event now (actor_hex op) ''sprint.created'' (o_subject op) j (da \<lparr>db_sprints := db_sprints da @ [row]\<rparr>)"
proof -
  obtain role da name goal starts ends where *: "authorize P now op ''sprint.create'' d = Inr (role, da)" "Supervisor \<le> role" "starts < ends"
      "\<not> list_ex (\<lambda>s. sp_id s = o_subject op) (db_sprints da)"
      "d' = append_event now (actor_hex op) ''sprint.created'' (o_subject op)
       (JObj [(''ends'', jint ends), (''goal'', JStr goal), (''name'', JStr name), (''starts'', jint starts)])
       (da \<lparr>db_sprints := db_sprints da @ [\<lparr>sp_id = o_subject op, sp_name = name, sp_goal = goal, sp_starts = starts,
          sp_ends = ends, sp_state = ''planned''\<rparr>]\<rparr>)"
    using assms unfolding create_sprint_def by (clarsimp simp: op_simps)
  show ?thesis by (rule that [OF *(1,2) _ _ _ _ *(5)]) (use *(3,4) in \<open>auto simp: list_ex_iff\<close>)
qed

lemma create_sprint_ok:
  assumes "create_sprint P from_str now op d = Inr d'" and ok: "social_ok d"
  shows "social_ok d'"
proof (rule create_sprint_Inr [OF assms(1)], goal_cases)
  case (1 role da row j)
  have "social_ok da" using social_authorize [OF 1(1)] ok by simp
  then have "sprints_ok (da \<lparr>db_sprints := db_sprints da @ [row]\<rparr>)" using 1(3-6) by (auto simp: social_ok_def sprints_ok_def)
  then have "social_ok (da \<lparr>db_sprints := db_sprints da @ [row]\<rparr>)" using \<open>social_ok da\<close> by (simp add: social_ok_def)
  then show ?case unfolding 1(7) by simp
qed

lemma sprint_card_eta: "x \<in> S \<Longrightarrow> \<lparr>sc_sprint = sc_sprint x, sc_card = sc_card x\<rparr> \<in> S" for x :: sprint_card_row
  by (cases x) simp

lemma add_to_sprint_Inr:
  assumes "add_to_sprint P now op d = Inr d'"
  obtains role da t ev where "authorize P now op ''sprint.add'' d = Inr (role, da)" "Supervisor \<le> role"
    "o_subject op \<in> sp_id ` set (db_sprints da)" "o_arg op \<in> c_id ` set (db_cards da)"
    "set t = insert \<lparr>sc_sprint = o_subject op, sc_card = o_arg op\<rparr> (set (db_sprint_cards da))"
    "d' = da \<lparr>db_sprint_cards := t, db_events := ev\<rparr>"
proof -
  let ?ins = "\<lambda>da. insert_ignore (\<lambda>r. (sc_sprint r, sc_card r)) \<lparr>sc_sprint = o_subject op, sc_card = o_arg op\<rparr> (db_sprint_cards da)"
  obtain role da s where *: "authorize P now op ''sprint.add'' d = Inr (role, da)" "Supervisor \<le> role"
      "list_ex (\<lambda>c. c_id c = o_arg op) (db_cards da)" "find (\<lambda>s. sp_id s = o_subject op) (db_sprints da) = Some s"
      "d' = (if snd (?ins da) then append_event now (actor_hex op) ''sprint.card_added'' (o_subject op) (JObj [(''card'', JStr (o_arg op))])
               (da \<lparr>db_sprint_cards := fst (?ins da)\<rparr>) else da \<lparr>db_sprint_cards := fst (?ins da)\<rparr>)"
    using assms unfolding add_to_sprint_def by (clarsimp simp: op_simps ensure_card_def sprint_state_Inr Let_def split_beta)
  have t: "set (fst (?ins da)) = insert \<lparr>sc_sprint = o_subject op, sc_card = o_arg op\<rparr> (set (db_sprint_cards da))"
    by (auto simp: insert_ignore_def image_iff intro: sprint_card_eta)
  have "\<exists>ev. d' = da \<lparr>db_sprint_cards := fst (?ins da), db_events := ev\<rparr>"
    unfolding *(5) append_event_def by (auto intro: exI [of _ "db_events da"])
  then obtain ev where ev: "d' = da \<lparr>db_sprint_cards := fst (?ins da), db_events := ev\<rparr>" by blast
  have "o_subject op \<in> sp_id ` set (db_sprints da)" using find_SomeD [OF *(4)] by (metis imageI)
  moreover have "o_arg op \<in> c_id ` set (db_cards da)" using *(3) unfolding list_ex_iff by (metis imageI)
  ultimately show ?thesis by (rule that [OF *(1,2) _ _ t ev])
qed

lemma add_to_sprint_ok:
  assumes "add_to_sprint P now op d = Inr d'" and ok: "social_ok d"
  shows "social_ok d'"
proof (rule add_to_sprint_Inr [OF assms(1)], goal_cases)
  case (1 role da t ev)
  have "social_ok da" using social_authorize [OF 1(1)] ok by simp
  then show ?case unfolding 1(6) using 1(3-5) by (simp add: social_ok_def sprints_ok_def)
qed

lemma start_sprint_Inr:
  assumes "start_sprint P now op d = Inr d'"
  obtains role da s where "authorize P now op ''sprint.start'' d = Inr (role, da)" "Supervisor \<le> role"
    "find (\<lambda>s. sp_id s = o_subject op) (db_sprints da) = Some s" "sp_state s = ''planned''"
    "\<not> list_ex (\<lambda>s. sp_state s = ''active'') (db_sprints da)"
    "d' = append_event now (actor_hex op) ''sprint.started'' (o_subject op) (JObj []) (set_sprint_state (o_subject op) ''active'' da)"
  using assms that unfolding start_sprint_def by (clarsimp simp: op_simps sprint_state_Inr)

lemma close_sprint_Inr:
  assumes "close_sprint P now op d = Inr d'"
  obtains role da s where "authorize P now op ''sprint.close'' d = Inr (role, da)" "Supervisor \<le> role"
    "find (\<lambda>s. sp_id s = o_subject op) (db_sprints da) = Some s" "sp_state s = ''active''"
    "d' = append_event now (actor_hex op) ''sprint.closed'' (o_subject op) (JObj []) (set_sprint_state (o_subject op) ''closed'' da)"
  using assms that unfolding close_sprint_def by (clarsimp simp: op_simps sprint_state_Inr)

lemma set_sprint_state_ok:
  assumes ok: "social_ok d" and st: "st \<in> {''planned'', ''active'', ''closed''}"
    and one: "length (filter (\<lambda>s. sp_state s = ''active'') (update_where (\<lambda>s. sp_id s = x) (\<lambda>s. s \<lparr>sp_state := st\<rparr>) (db_sprints d))) \<le> 1"
  shows "social_ok (set_sprint_state x st d)"
proof -
  let ?t = "update_where (\<lambda>s. sp_id s = x) (\<lambda>s. s \<lparr>sp_state := st\<rparr>) (db_sprints d)"
  have ids: "map sp_id ?t = map sp_id (db_sprints d)" by (simp add: map_update_where)
  have img: "sp_id ` set ?t = sp_id ` set (db_sprints d)" by (metis ids list.set_map)
  have t: "db_sprints (set_sprint_state x st d) = ?t" "db_sprint_cards (set_sprint_state x st d) = db_sprint_cards d"
      "db_cards (set_sprint_state x st d) = db_cards d" by (simp_all add: set_sprint_state_def)
  have "\<forall>s \<in> set ?t. sp_state s \<in> {''planned'', ''active'', ''closed''} \<and> sp_starts s < sp_ends s"
    using ok st by (auto simp: social_ok_def sprints_ok_def set_update_where)
  then have "sprints_ok (set_sprint_state x st d)"
    using ok one unfolding social_ok_def sprints_ok_def t img ids by blast
  then show ?thesis using ok by (simp add: social_ok_def set_sprint_state_def)
qed

lemma one_active_start:
  "distinct (map sp_id t) \<Longrightarrow> \<forall>s \<in> set t. sp_state s \<noteq> ''active'' \<Longrightarrow>
   length (filter (\<lambda>s. sp_state s = ''active'') (update_where (\<lambda>s. sp_id s = x) (\<lambda>s. s \<lparr>sp_state := ''active''\<rparr>) t)) \<le> 1"
proof (induction t)
  case (Cons a t)
  let ?u = "update_where (\<lambda>s. sp_id s = x) (\<lambda>s. s \<lparr>sp_state := ''active''\<rparr>)"
  show ?case
  proof (cases "sp_id a = x")
    case True
    then have "?u t = t"
      using Cons.prems(1) unfolding update_where_def by (intro map_idI) (metis distinct.simps(2) imageI image_set list.simps(9))
    moreover have "filter (\<lambda>s. sp_state s = ''active'') t = []" using Cons.prems(2) by (simp add: filter_empty_conv)
    ultimately show ?thesis using True Cons.prems(2) by (simp add: update_where_def)
  next
    case False
    then show ?thesis using Cons by (simp add: update_where_def)
  qed
qed (simp add: update_where_def)

lemma one_active_close:
  "length (filter (\<lambda>s. sp_state s = ''active'') (update_where (\<lambda>s. sp_id s = x) (\<lambda>s. s \<lparr>sp_state := ''closed''\<rparr>) t))
     \<le> length (filter (\<lambda>s. sp_state s = ''active'') t)"
  by (induction t) (auto simp: update_where_def)

lemma start_sprint_ok:
  assumes "start_sprint P now op d = Inr d'" and ok: "social_ok d"
  shows "social_ok d'"
proof (rule start_sprint_Inr [OF assms(1)], goal_cases)
  case (1 role da s)
  have "social_ok da" using social_authorize [OF 1(1)] ok by simp
  moreover from this have "distinct (map sp_id (db_sprints da))" by (simp add: social_ok_def sprints_ok_def)
  ultimately have "social_ok (set_sprint_state (o_subject op) ''active'' da)"
    by (intro set_sprint_state_ok one_active_start) (use 1(5) in \<open>auto simp: list_ex_iff\<close>)
  then show ?case unfolding 1(6) by simp
qed

lemma close_sprint_ok:
  assumes "close_sprint P now op d = Inr d'" and ok: "social_ok d"
  shows "social_ok d'"
proof (rule close_sprint_Inr [OF assms(1)], goal_cases)
  case (1 role da s)
  have "social_ok da" using social_authorize [OF 1(1)] ok by simp
  moreover from this have "length (filter (\<lambda>s. sp_state s = ''active'') (db_sprints da)) \<le> 1" by (simp add: social_ok_def sprints_ok_def)
  ultimately have "social_ok (set_sprint_state (o_subject op) ''closed'' da)"
    by (intro set_sprint_state_ok order_trans [OF one_active_close]) auto
  then show ?case unfolding 1(5) by simp
qed

section \<open>Statuses\<close>

lemma upsert_status_keys:
  "distinct (map (\<lambda>s. (st_pk s, st_harness s)) t) \<Longrightarrow> distinct (map (\<lambda>s. (st_pk s, st_harness s)) (upsert_status r t))"
  by (auto simp: upsert_status_def map_update_where list_ex_iff)

lemma set_status_Inr:
  assumes "set_status P from_str now op d = Inr d'"
  obtains role da row j where "authorize P now op ''status.set'' d = Inr (role, da)" "Worker \<le> role" "o_subject op = actor_hex op"
    "st_pk row = o_actor op" "st_state row \<noteq> []"
    "d' = append_event now (actor_hex op) ''status.set'' (actor_hex op) j (da \<lparr>db_statuses := upsert_status row (db_statuses da)\<rparr>)"
proof -
  obtain role da arg where *: "authorize P now op ''status.set'' d = Inr (role, da)" "Worker \<le> role" "o_subject op = actor_hex op"
      "sa_state (arg :: status_arg) \<noteq> []"
      "d' = append_event now (actor_hex op) ''status.set'' (actor_hex op)
       (JObj [(''harness'', JStr (sa_harness arg)), (''state'', JStr (sa_state arg))])
       (da \<lparr>db_statuses := upsert_status \<lparr>st_pk = o_actor op, st_harness = sa_harness arg, st_state = sa_state arg,
          st_folder = sa_folder arg, st_matter = sa_matter arg, st_ts = now\<rparr> (db_statuses da)\<rparr>)"
    using assms unfolding set_status_def by (clarsimp simp: op_simps require_own_subject_def actor_hex_def)
  show ?thesis by (rule that [OF *(1-3) _ _ *(5)]) (simp_all add: *(4))
qed

lemma set_status_ok:
  assumes "set_status P from_str now op d = Inr d'" and ok: "social_ok d"
  shows "social_ok d'"
proof (rule set_status_Inr [OF assms(1)], goal_cases)
  case (1 role da row j)
  have "social_ok da" using social_authorize [OF 1(1)] ok by simp
  then show ?case unfolding 1(6) using upsert_status_keys by (simp add: social_ok_def sprints_ok_def)
qed

lemma clear_status_Inr:
  assumes "clear_status P from_str now op d = Inr d'"
  obtains role da h ev where "authorize P now op ''status.clear'' d = Inr (role, da)" "Worker \<le> role" "o_subject op = actor_hex op"
    "d' = da \<lparr>db_statuses := delete_where (\<lambda>x. st_pk x = o_actor op \<and> st_harness x = h) (db_statuses da), db_events := ev\<rparr>"
proof -
  obtain role da arg where *: "authorize P now op ''status.clear'' d = Inr (role, da)" "Worker \<le> role" "o_subject op = actor_hex op"
      "d' = (let mine = (\<lambda>x. st_pk x = o_actor op \<and> st_harness x = sa_harness (arg :: status_arg));
                d' = da \<lparr>db_statuses := delete_where mine (db_statuses da)\<rparr>
             in if list_ex mine (db_statuses da)
                then append_event now (actor_hex op) ''status.cleared'' (actor_hex op) (JObj [(''harness'', JStr (sa_harness arg))]) d' else d')"
    using assms unfolding clear_status_def by (clarsimp simp: op_simps require_own_subject_def actor_hex_def Let_def)
  have "\<exists>ev. d' = da \<lparr>db_statuses := delete_where (\<lambda>x. st_pk x = o_actor op \<and> st_harness x = sa_harness arg) (db_statuses da), db_events := ev\<rparr>"
    unfolding *(4) Let_def append_event_def by (auto intro: exI [of _ "db_events da"])
  then show ?thesis using that [OF *(1-3)] by blast
qed

lemma clear_status_ok:
  assumes "clear_status P from_str now op d = Inr d'" and ok: "social_ok d"
  shows "social_ok d'"
proof (rule clear_status_Inr [OF assms(1)], goal_cases)
  case (1 role da h ev)
  have "social_ok da" using social_authorize [OF 1(1)] ok by simp
  then show ?case unfolding 1(4) by (simp add: social_ok_def sprints_ok_def delete_where_def distinct_map_filter)
qed

section \<open>Reading\<close>

text \<open>The states of the cards of a sprint, one per card.\<close>

definition sprint_states :: "db \<Rightarrow> string \<Rightarrow> string list" where
  "sprint_states d sprint =
     List.map_filter (\<lambda>s. map_option c_state (card_of d (sc_card s))) (filter (\<lambda>s. sc_sprint s = sprint) (db_sprint_cards d))"

lemma sum_groups:
  "sum_list (map ((\<lambda>(st, n). if q st then n else 0) \<circ> (\<lambda>st. (st, int (length (filter (\<lambda>x. x = st) xs))))) (remdups xs))
     = int (length (filter q xs))"
proof -
  have c: "length (filter (\<lambda>x. x = st) ys) = count_list ys st" for st ys by (induction ys) auto
  have "count_list (filter q ys) st = count_list ys st" if "q st" for ys st using that by (induction ys) auto
  then have f: "(\<Sum>st \<in> set xs \<inter> {st. q st}. int (count_list xs st)) = (\<Sum>st \<in> set (filter q xs). int (count_list (filter q xs) st))"
    by (intro sum.cong) auto
  have "sum_list (map ((\<lambda>(st, n). if q st then n else 0) \<circ> (\<lambda>st. (st, int (length (filter (\<lambda>x. x = st) xs))))) (remdups xs))
      = (\<Sum>st \<in> set xs. if q st then int (count_list xs st) else 0)"
    by (simp add: comp_def c sum_list_distinct_conv_sum_set)
  also have "\<dots> = (\<Sum>st \<in> set xs \<inter> {st. q st}. int (count_list xs st))" by (simp add: sum.inter_restrict)
  also have "\<dots> = int (length (filter q xs))" unfolding f by (simp add: sum_count_set flip: of_nat_sum)
  finally show ?thesis .
qed

lemma foldl_add_group:
  "foldl add_group out gs = out \<lparr>
     ss_total := ss_total out + (\<Sum>(st, n) \<leftarrow> gs. if True then n else 0),
     ss_done := ss_done out + (\<Sum>(st, n) \<leftarrow> gs. if st = ''done'' then n else 0),
     ss_in_flight := ss_in_flight out + (\<Sum>(st, n) \<leftarrow> gs. if st \<in> {''claimed'', ''doing'', ''review''} then n else 0),
     ss_blocked := ss_blocked out + (\<Sum>(st, n) \<leftarrow> gs. if st = ''blocked'' then n else 0)\<rparr>"
  by (induction gs arbitrary: out) (auto simp: add_group_def Let_def)

lemma sprint_summary_counts:
  assumes "sprint_summary d sprint = Inr s"
  shows "s = \<lparr>ss_total = int (length (sprint_states d sprint)),
    ss_done = int (length (filter (\<lambda>st. st = ''done'') (sprint_states d sprint))),
    ss_in_flight = int (length (filter (\<lambda>st. st \<in> {''claimed'', ''doing'', ''review''}) (sprint_states d sprint))),
    ss_blocked = int (length (filter (\<lambda>st. st = ''blocked'') (sprint_states d sprint)))\<rparr>"
  using assms by (simp add: sprint_summary_def op_simps foldl_add_group sprint_groups_def Let_def
      sprint_states_def [symmetric] sum_groups sum_groups [of "\<lambda>_. True", simplified] del: insert_iff)

lemma search_notes_current:
  assumes "\<And>q t. set (fts q t) \<subseteq> set t" "(i, title) \<in> set (search_notes fts d query limit)"
  shows "\<exists>k \<in> set (db_knowledge d). kn_id k = i \<and> kn_title k = title \<and> (\<forall>n \<in> set (db_knowledge d). kn_supersedes n \<noteq> Some i)"
proof -
  obtain k where "k \<in> set (fts (fts_query query) (db_knowledge d))" "kn_id k = i" "kn_title k = title"
      "\<forall>n \<in> set (db_knowledge d). kn_supersedes n \<noteq> Some (kn_id k)"
    using assms(2) by (auto simp: search_notes_def Let_def list_ex_iff dest!: in_set_takeD split: if_splits)
  then show ?thesis using assms(1) by blast
qed

text \<open>A status is shown to its writer, to the members of a channel of its writer, and to supervisors.\<close>

lemma statuses_visible:
  assumes "statuses d reader = Inr rows" "s \<in> set rows"
  shows "s \<in> set (db_statuses d) \<and> (st_pk s = reader \<or> (\<exists>channel. is_member d channel (st_pk s) \<and> is_member d channel reader))"
  using assms by (auto simp: statuses_def status_rows_def op_simps shares_channel_def list_ex_iff is_member_def) blast

end
