(* ===== verification/Wire.thy ===== *)
theory Wire
  imports Social
begin

text \<open>
  The wire between clients and the daemon: \<open>agora-proto/src/frame.rs\<close> and \<open>convert.rs\<close>, with the wire types of
  \<open>lib.rs\<close> and \<open>reply.rs\<close>. A connection is the list of bytes that are still to be read before the end of the stream.
  Base64 is another package and a parameter, an encoder and a decoder; JSON is read and written by serde. Frames and
  signed inputs read back as written, and the handshake proves the key it returns.
\<close>

section \<open>Errors and limits\<close>

datatype proto_error = PIo string | PJson | FrameTooLarge int | PEncoding string | PCrypto crypto_error

definition PROTO_VERSION :: int where "PROTO_VERSION = 1"
definition MAX_FRAME :: int where "MAX_FRAME = 8 * 1024 * 1024"
definition HELLO_DOMAIN :: string where "HELLO_DOMAIN = ''hello/v1''"

section \<open>Frames\<close>

definition be32 :: "int \<Rightarrow> string" where
  "be32 n = rev (le_bytes 4 n)"

definition from_be :: "string \<Rightarrow> int" where
  "from_be bs = foldl (\<lambda>acc b. 256 * acc + int (of_char b)) 0 bs"

text \<open>
  One frame off the stream: nothing at a clean end, the payload and the rest of the stream, or an error, after which
  the connection is dropped.
\<close>

definition read_frame :: "string \<Rightarrow> int \<Rightarrow> proto_error + (string \<times> string) option" where
  "read_frame r limit =
     (if r = [] then Inr None
      else if int (length r) < 4 then Inl (PIo ''UnexpectedEof'')
      else
        let len = from_be (take 4 r); rest = drop 4 r
        in if limit < len then Inl (FrameTooLarge len)
           else if int (length rest) < len then Inl (PIo ''UnexpectedEof'')
           else Inr (Some (take (nat len) rest, drop (nat len) rest)))"

definition write_frame :: "string \<Rightarrow> string \<Rightarrow> proto_error + string" where
  "write_frame w payload =
     (if MAX_FRAME < int (length payload) then Inl (FrameTooLarge (int (length payload)))
      else if 2 ^ 32 \<le> int (length payload) then Inl (FrameTooLarge (int (length payload)))
      else Inr (w @ be32 (int (length payload)) @ payload))"

definition read_json :: "(string \<Rightarrow> 'a option) \<Rightarrow> string \<Rightarrow> proto_error + ('a \<times> string) option" where
  "read_json from_slice r =
     bind_result (read_frame r MAX_FRAME) (\<lambda>f.
     case f of
       None \<Rightarrow> Inr None
     | Some (bytes, rest) \<Rightarrow> (case from_slice bytes of None \<Rightarrow> Inl PJson | Some v \<Rightarrow> Inr (Some (v, rest))))"

definition write_json_frame :: "('a \<Rightarrow> string) \<Rightarrow> string \<Rightarrow> 'a \<Rightarrow> proto_error + string" where
  "write_json_frame to_vec w v =
     (let bytes = to_vec v
      in if MAX_FRAME < int (length bytes) then Inl (FrameTooLarge (int (length bytes)))
         else if 2 ^ 32 \<le> int (length bytes) then Inl (FrameTooLarge (int (length bytes)))
         else Inr (w @ be32 (int (length bytes)) @ bytes))"

section \<open>Signed inputs on the wire\<close>

record engine =
  en_encode :: "string \<Rightarrow> string"
  en_decode :: "string \<Rightarrow> string option"

definition b64 :: "engine \<Rightarrow> string \<Rightarrow> string" where
  "b64 E bytes = en_encode E bytes"

definition unb64 :: "engine \<Rightarrow> string \<Rightarrow> string \<Rightarrow> proto_error + string" where
  "unb64 E s field = (case en_decode E s of None \<Rightarrow> Inl (PEncoding field) | Some b \<Rightarrow> Inr b)"

definition unhex_pk :: "string \<Rightarrow> string \<Rightarrow> proto_error + string" where
  "unhex_pk s field = (case unhex32 s of None \<Rightarrow> Inl (PEncoding field) | Some k \<Rightarrow> Inr k)"

record client_hello =
  he_version :: int
  he_pubkey :: string
  he_sig :: string
  he_label :: string

record op_wire =
  ow_kind :: string
  ow_subject :: string
  ow_arg :: string
  ow_ts :: int
  ow_nonce :: string
  ow_actor :: string
  ow_sig :: string

record attachment_wire =
  aw_hash :: string
  aw_name :: string
  aw_mime :: string

record message_wire =
  mw_id :: string
  mw_channel :: string
  mw_thread_of :: "string option"
  mw_sender :: string
  mw_ts :: int
  mw_encrypted :: bool
  mw_epoch :: int
  mw_body :: string
  mw_attachments :: "attachment_wire list"
  mw_sig :: string

record reaction_wire =
  rw_kind :: string
  rw_target :: string
  rw_by :: string
  rw_emoji :: string
  rw_remove :: bool
  rw_ts :: int
  rw_sig :: string

record note_wire =
  nw_id :: string
  nw_author :: string
  nw_ts :: int
  nw_title :: string
  nw_body :: string
  nw_tags :: string
  nw_supersedes :: "string option"
  nw_sig :: string

record key_wire =
  kw_pk :: string
  kw_wrapped :: string

definition hello_signing_bytes :: "string \<Rightarrow> string \<Rightarrow> string" where
  "hello_signing_bytes challenge pubkey = canonical HELLO_DOMAIN [challenge, pubkey]"

definition hello_verify :: "primitives \<Rightarrow> engine \<Rightarrow> client_hello \<Rightarrow> string \<Rightarrow> proto_error + string" where
  "hello_verify P E h challenge =
     (if he_version h \<noteq> PROTO_VERSION then Inl (PEncoding ''version'')
     else
     bind_result (unhex_pk (he_pubkey h) ''pubkey'') (\<lambda>pubkey.
     bind_result (unb64 E (he_sig h) ''sig'') (\<lambda>sig.
     case verify P pubkey (hello_signing_bytes challenge pubkey) sig of Inl e \<Rightarrow> Inl (PCrypto e) | Inr _ \<Rightarrow> Inr pubkey)))"

definition op_from_op :: "engine \<Rightarrow> signed_op \<Rightarrow> op_wire" where
  "op_from_op E op = \<lparr>ow_kind = o_kind op, ow_subject = o_subject op, ow_arg = o_arg op, ow_ts = o_ts op, ow_nonce = o_nonce op,
     ow_actor = hex (o_actor op), ow_sig = b64 E (o_sig op)\<rparr>"

definition to_op :: "engine \<Rightarrow> op_wire \<Rightarrow> proto_error + signed_op" where
  "to_op E w =
     bind_result (unhex_pk (ow_actor w) ''actor'') (\<lambda>actor.
     bind_result (unb64 E (ow_sig w) ''sig'') (\<lambda>sig.
     Inr \<lparr>o_kind = ow_kind w, o_subject = ow_subject w, o_arg = ow_arg w, o_ts = ow_ts w, o_nonce = ow_nonce w,
       o_actor = actor, o_sig = sig\<rparr>))"

definition from_attachment :: "attachment \<Rightarrow> attachment_wire" where
  "from_attachment a = \<lparr>aw_hash = a_hash a, aw_name = a_name a, aw_mime = a_mime a\<rparr>"

definition to_attachment :: "attachment_wire \<Rightarrow> attachment" where
  "to_attachment a = \<lparr>a_hash = aw_hash a, a_name = aw_name a, a_mime = aw_mime a\<rparr>"

definition from_message :: "engine \<Rightarrow> signed_message \<Rightarrow> message_wire" where
  "from_message E m = \<lparr>mw_id = sm_id m, mw_channel = sm_channel m, mw_thread_of = sm_thread_of m, mw_sender = hex (sm_sender m),
     mw_ts = sm_ts m, mw_encrypted = sm_encrypted m, mw_epoch = sm_epoch m, mw_body = b64 E (sm_body m),
     mw_attachments = map from_attachment (sm_attachments m), mw_sig = b64 E (sm_sig m)\<rparr>"

definition to_message :: "engine \<Rightarrow> message_wire \<Rightarrow> proto_error + signed_message" where
  "to_message E w =
     bind_result (unhex_pk (mw_sender w) ''sender'') (\<lambda>sender.
     bind_result (unb64 E (mw_body w) ''body'') (\<lambda>body.
     bind_result (unb64 E (mw_sig w) ''sig'') (\<lambda>sig.
     Inr \<lparr>sm_id = mw_id w, sm_channel = mw_channel w, sm_thread_of = mw_thread_of w, sm_sender = sender, sm_ts = mw_ts w,
       sm_encrypted = mw_encrypted w, sm_epoch = mw_epoch w, sm_body = body,
       sm_attachments = map to_attachment (mw_attachments w), sm_sig = sig\<rparr>)))"

record message_view_wire =
  vw_seq :: int
  vw_msg :: message_wire

definition view_from_row :: "engine \<Rightarrow> message_view \<Rightarrow> message_view_wire" where
  "view_from_row E row = \<lparr>vw_seq = mv_seq row, vw_msg = \<lparr>mw_id = mv_id row, mw_channel = mv_channel row, mw_thread_of = mv_thread_of row,
     mw_sender = hex (mv_sender row), mw_ts = mv_ts row, mw_encrypted = mv_encrypted row, mw_epoch = mv_epoch row,
     mw_body = b64 E (mv_body row), mw_attachments = map from_attachment (mv_attachments row), mw_sig = b64 E (mv_sig row)\<rparr>\<rparr>"

definition from_reaction :: "engine \<Rightarrow> signed_reaction \<Rightarrow> reaction_wire" where
  "from_reaction E r = \<lparr>rw_kind = sr_kind r, rw_target = sr_target r, rw_by = hex (sr_by r), rw_emoji = sr_emoji r,
     rw_remove = sr_remove r, rw_ts = sr_ts r, rw_sig = b64 E (sr_sig r)\<rparr>"

definition to_reaction :: "engine \<Rightarrow> reaction_wire \<Rightarrow> proto_error + signed_reaction" where
  "to_reaction E w =
     bind_result (unhex_pk (rw_by w) ''by'') (\<lambda>by.
     bind_result (unb64 E (rw_sig w) ''sig'') (\<lambda>sig.
     Inr \<lparr>sr_kind = rw_kind w, sr_target = rw_target w, sr_by = by, sr_emoji = rw_emoji w, sr_remove = rw_remove w,
       sr_ts = rw_ts w, sr_sig = sig\<rparr>))"

definition from_note :: "engine \<Rightarrow> signed_note \<Rightarrow> note_wire" where
  "from_note E n = \<lparr>nw_id = sn_id n, nw_author = hex (sn_author n), nw_ts = sn_ts n, nw_title = sn_title n, nw_body = sn_body n,
     nw_tags = sn_tags n, nw_supersedes = sn_supersedes n, nw_sig = b64 E (sn_sig n)\<rparr>"

definition to_note :: "engine \<Rightarrow> note_wire \<Rightarrow> proto_error + signed_note" where
  "to_note E w =
     bind_result (unhex_pk (nw_author w) ''author'') (\<lambda>author.
     bind_result (unb64 E (nw_sig w) ''sig'') (\<lambda>sig.
     Inr \<lparr>sn_id = nw_id w, sn_author = author, sn_ts = nw_ts w, sn_title = nw_title w, sn_body = nw_body w,
       sn_tags = nw_tags w, sn_supersedes = nw_supersedes w, sn_sig = sig\<rparr>))"

fun keys_from_wire :: "engine \<Rightarrow> key_wire list \<Rightarrow> proto_error + (string \<times> string) list" where
  "keys_from_wire E [] = Inr []"
| "keys_from_wire E (k # ks) =
     bind_result (unhex_pk (kw_pk k) ''keys.pk'') (\<lambda>pk.
     bind_result (unb64 E (kw_wrapped k) ''keys.wrapped'') (\<lambda>wrapped.
     bind_result (keys_from_wire E ks) (\<lambda>rest. Inr ((pk, wrapped) # rest))))"

definition keys_to_wire :: "engine \<Rightarrow> (string \<times> string) list \<Rightarrow> key_wire list" where
  "keys_to_wire E ks = map (\<lambda>(pk, wrapped). \<lparr>kw_pk = hex pk, kw_wrapped = b64 E wrapped\<rparr>) ks"

section \<open>Frames read back as written\<close>

text \<open>A session: frames are written one after the other, and read until the stream ends or fails.\<close>

fun write_all :: "string \<Rightarrow> string list \<Rightarrow> proto_error + string" where
  "write_all w [] = Inr w"
| "write_all w (p # ps) = bind_result (write_frame w p) (\<lambda>w. write_all w ps)"

function read_all :: "string \<Rightarrow> string list \<times> proto_error option" where
  "read_all r =
     (case read_frame r MAX_FRAME of
        Inl e \<Rightarrow> ([], Some e)
      | Inr None \<Rightarrow> ([], None)
      | Inr (Some (p, rest)) \<Rightarrow> (case read_all rest of (ps, e) \<Rightarrow> (p # ps, e)))"
  by pat_completeness auto
termination
  by (relation "measure length") (auto simp: read_frame_def Let_def split: if_splits)

declare read_all.simps [simp del]

lemma from_be_append: "from_be (xs @ [b]) = 256 * from_be xs + int (of_char b)"
  by (simp add: from_be_def)

lemma from_be_rev_le: "from_be (rev (le_bytes k n)) = n mod 256 ^ k"
proof (induction k arbitrary: n)
  case (Suc k)
  have "int (of_char (char_of (nat (n mod 256)) :: char)) = n mod 256" by (simp add: of_char_of)
  then have "from_be (rev (le_bytes (Suc k) n)) = 256 * (n div 256 mod 256 ^ k) + n mod 256"
    using Suc by (simp add: from_be_append)
  then show ?case using zmod_zmult2_eq [of "256 ^ k" n 256] by simp
qed (simp add: from_be_def)

lemma from_be_be32: "0 \<le> n \<Longrightarrow> n < 2 ^ 32 \<Longrightarrow> from_be (be32 n) = n"
  by (simp add: be32_def from_be_rev_le)

lemma length_be32 [simp]: "length (be32 n) = 4"
  by (simp add: be32_def)

definition frame :: "string \<Rightarrow> string" where
  "frame p = be32 (int (length p)) @ p"

lemma write_frame_Inr: "write_frame w p = Inr w' \<longleftrightarrow> int (length p) \<le> MAX_FRAME \<and> w' = w @ frame p"
  by (auto simp: write_frame_def frame_def MAX_FRAME_def)

lemma write_all_Inr: "write_all w ps = Inr w' \<longleftrightarrow> (\<forall>p \<in> set ps. int (length p) \<le> MAX_FRAME) \<and> w' = w @ concat (map frame ps)"
  by (induction w ps rule: write_all.induct) (auto simp: bind_result_Inr_iff write_frame_Inr)

lemma read_frame_frame:
  assumes "int (length p) \<le> MAX_FRAME"
  shows "read_frame (frame p @ r) MAX_FRAME = Inr (Some (p, r))"
proof -
  have "from_be (be32 (int (length p))) = int (length p)" using assms by (intro from_be_be32) (auto simp: MAX_FRAME_def)
  moreover have "frame p @ r \<noteq> []" by (metis frame_def append_is_Nil_conv length_be32 list.size(3) zero_neq_numeral)
  ultimately show ?thesis using assms by (simp add: read_frame_def frame_def)
qed

lemma read_frame_cut:
  assumes "int (length p) \<le> MAX_FRAME" "0 < k" "k < length (frame p)"
  shows "read_frame (take k (frame p)) MAX_FRAME = Inl (PIo ''UnexpectedEof'')"
proof -
  have ne: "take k (frame p) \<noteq> []" using assms(2,3) by auto
  have be: "from_be (be32 (int (length p))) = int (length p)" using assms(1) by (intro from_be_be32) (auto simp: MAX_FRAME_def)
  show ?thesis
  proof (cases "k < 4")
    case True
    then show ?thesis using ne assms(3) by (simp add: read_frame_def)
  next
    case False
    then have "take 4 (take k (frame p)) = be32 (int (length p))" by (simp add: frame_def)
    moreover have "length (drop 4 (take k (frame p))) < length p" using assms(3) False by (simp add: frame_def)
    ultimately show ?thesis using ne assms(1,3) False by (simp add: read_frame_def be Let_def)
  qed
qed

lemma read_all_frames:
  "\<forall>p \<in> set ps. int (length p) \<le> MAX_FRAME \<Longrightarrow> read_all (concat (map frame ps)) = (ps, None)"
proof (induction ps)
  case Nil
  show ?case by (subst read_all.simps) (simp add: read_frame_def)
next
  case (Cons p ps)
  then show ?case by (subst read_all.simps) (simp add: read_frame_frame)
qed

lemma read_all_cut:
  "\<forall>p \<in> set ps. int (length p) \<le> MAX_FRAME \<Longrightarrow>
   \<exists>j e. read_all (take k (concat (map frame ps))) = (take j ps, e) \<and> (e = None \<or> e = Some (PIo ''UnexpectedEof''))"
proof (induction ps arbitrary: k)
  case Nil
  show ?case by (subst read_all.simps) (simp add: read_frame_def)
next
  case (Cons p ps)
  consider "k = 0" | "0 < k" "k < length (frame p)" | "length (frame p) \<le> k" by linarith
  then show ?case
  proof cases
    case 1
    then show ?thesis by (subst read_all.simps) (auto simp: read_frame_def intro: exI [of _ 0])
  next
    case 2
    then show ?thesis using Cons.prems read_frame_cut [of p k]
      by (subst read_all.simps) (auto intro: exI [of _ 0])
  next
    case 3
    let ?rest = "take (k - length (frame p)) (concat (map frame ps))"
    have s: "take k (concat (map frame (p # ps))) = frame p @ ?rest" using 3 by simp
    obtain j e where "read_all ?rest = (take j ps, e)" "e = None \<or> e = Some (PIo ''UnexpectedEof'')"
      using Cons.IH [of "k - length (frame p)"] Cons.prems by auto
    then have "read_all (frame p @ ?rest) = (take (Suc j) (p # ps), e)"
      using Cons.prems by (subst read_all.simps) (simp add: read_frame_frame)
    then show ?thesis unfolding s using \<open>e = None \<or> e = _\<close> by blast
  qed
qed



section \<open>Signed inputs read back as written\<close>

lemma unhex_pk_hex: "length k = 32 \<Longrightarrow> unhex_pk (hex k) field = Inr k"
  using unhex32_iff_hex [of "hex k" k] by (simp add: unhex_pk_def)

lemma unb64_b64: "\<forall>b. en_decode E (en_encode E b) = Some b \<Longrightarrow> unb64 E (b64 E x) field = Inr x"
  by (simp add: unb64_def b64_def)

lemma attachment_back: "to_attachment (from_attachment a) = a"
  by (simp add: to_attachment_def from_attachment_def)

lemma keys_back:
  "\<forall>b. en_decode E (en_encode E b) = Some b \<Longrightarrow> \<forall>(pk, _) \<in> set ks. length pk = 32 \<Longrightarrow> keys_from_wire E (keys_to_wire E ks) = Inr ks"
  by (induction ks) (auto simp: keys_to_wire_def unhex_pk_hex unb64_b64)

text \<open>
  C27: Every signed input survives the wire: an operation, a message with its attachments, a reaction, a note and a list
  of wrapped keys are decoded to exactly what was encoded, for keys of 32 bytes and a base64 decoder that inverts its
  encoder. A stored message is sent out with the fields that were posted, so its reader can check the signature.
\<close>

theorem wire_roundtrip:
  assumes E: "\<forall>b. en_decode E (en_encode E b) = Some b"
    and k: "length (o_actor op) = 32" "length (sm_sender m) = 32" "length (sr_by r) = 32" "length (sn_author n) = 32"
      "\<forall>(pk, _) \<in> set ks. length pk = 32" "length (mv_sender v) = 32"
  shows "to_op E (op_from_op E op) = Inr op \<and> to_message E (from_message E m) = Inr m \<and> to_reaction E (from_reaction E r) = Inr r
    \<and> to_note E (from_note E n) = Inr n \<and> keys_from_wire E (keys_to_wire E ks) = Inr ks
    \<and> to_message E (vw_msg (view_from_row E v)) = Inr (to_signed v)"
  using k keys_back [OF E k(5)]
  by (simp add: to_op_def op_from_op_def to_message_def from_message_def to_reaction_def from_reaction_def to_note_def from_note_def
      view_from_row_def to_signed_def unhex_pk_hex unb64_b64 [OF E] attachment_back comp_def)

definition toy_engine :: engine where
  "toy_engine = \<lparr>en_encode = rev, en_decode = (\<lambda>s. Some (rev s))\<rparr>"

theorem wire_roundtrip_witness:
  "to_op toy_engine (op_from_op toy_engine (sample_op ''k'' ''s'' ''a'' 1 ''n'' (sample_key CHR ''o''))) = Inr (sample_op ''k'' ''s'' ''a'' 1 ''n'' (sample_key CHR ''o''))
   \<and> keys_from_wire toy_engine (keys_to_wire toy_engine [(sample_key CHR ''w'', ''xyz'')]) = Inr [(sample_key CHR ''w'', ''xyz'')]"
proof -
  let ?m = "\<lparr>sm_id = [], sm_channel = [], sm_thread_of = None, sm_sender = sample_key CHR ''o'', sm_ts = 0, sm_encrypted = False,
      sm_epoch = 0, sm_body = [], sm_attachments = [], sm_sig = []\<rparr>"
  let ?r = "\<lparr>sr_kind = [], sr_target = [], sr_by = sample_key CHR ''o'', sr_emoji = [], sr_remove = False, sr_ts = 0, sr_sig = []\<rparr>"
  let ?n = "\<lparr>sn_id = [], sn_author = sample_key CHR ''o'', sn_ts = 0, sn_title = [], sn_body = [], sn_tags = [], sn_supersedes = None, sn_sig = []\<rparr>"
  let ?v = "\<lparr>mv_seq = 1, mv_id = [], mv_sender = sample_key CHR ''o'', mv_body = [], mv_encrypted = False, mv_epoch = 0, mv_channel = [],
      mv_thread_of = None, mv_ts = 0, mv_attachments = [], mv_sig = []\<rparr>"
  show ?thesis
    using wire_roundtrip [of toy_engine "sample_op ''k'' ''s'' ''a'' 1 ''n'' (sample_key CHR ''o'')" ?m ?r ?n "[(sample_key CHR ''w'', ''xyz'')]" ?v]
    by (simp add: toy_engine_def sample_op_def sample_key_def)
qed

section \<open>One reading of the signed bytes\<close>

datatype signed_input =
    InOp signed_op
  | InMessage signed_message
  | InReaction signed_reaction
  | InNote signed_note
  | InHello string string

fun input_bytes :: "signed_input \<Rightarrow> string" where
  "input_bytes (InOp op) = signing_bytes op"
| "input_bytes (InMessage m) = message_signing_bytes m"
| "input_bytes (InReaction r) = reaction_signing_bytes r"
| "input_bytes (InNote n) = note_signing_bytes n"
| "input_bytes (InHello challenge pubkey) = hello_signing_bytes challenge pubkey"

text \<open>The input without its signature; a missing thread or superseded note is the empty id.\<close>

fun unsigned_input :: "signed_input \<Rightarrow> signed_input" where
  "unsigned_input (InOp op) = InOp (op \<lparr>o_sig := []\<rparr>)"
| "unsigned_input (InMessage m) = InMessage (m \<lparr>sm_sig := [], sm_thread_of := Some (case sm_thread_of m of None \<Rightarrow> [] | Some t \<Rightarrow> t)\<rparr>)"
| "unsigned_input (InReaction r) = InReaction (r \<lparr>sr_sig := []\<rparr>)"
| "unsigned_input (InNote n) = InNote (n \<lparr>sn_sig := [], sn_supersedes := Some (case sn_supersedes n of None \<Rightarrow> [] | Some k \<Rightarrow> k)\<rparr>)"
| "unsigned_input (InHello challenge pubkey) = InHello challenge pubkey"

definition att_bytes :: "attachment list \<Rightarrow> string" where
  "att_bytes as = concat (map (\<lambda>a. canonical ''att'' [a_hash a, a_name a, a_mime a]) as)"

text \<open>Lengths and numbers are those of the machine.\<close>

fun input_fits :: "signed_input \<Rightarrow> bool" where
  "input_fits (InOp op) = (list_all fits [o_kind op, o_subject op, o_arg op, o_nonce op, o_actor op] \<and> in_i64 (o_ts op))"
| "input_fits (InMessage m) = (list_all fits [sm_id m, sm_channel m, (case sm_thread_of m of None \<Rightarrow> [] | Some t \<Rightarrow> t), sm_sender m, sm_body m,
     att_bytes (sm_attachments m)] \<and> list_all (\<lambda>a. fits (a_hash a) \<and> fits (a_name a) \<and> fits (a_mime a)) (sm_attachments m)
     \<and> in_i64 (sm_ts m) \<and> in_i64 (sm_epoch m))"
| "input_fits (InReaction r) = (list_all fits [sr_kind r, sr_target r, sr_by r, sr_emoji r] \<and> in_i64 (sr_ts r))"
| "input_fits (InNote n) = (list_all fits [sn_id n, sn_author n, sn_title n, sn_body n, sn_tags n,
     (case sn_supersedes n of None \<Rightarrow> [] | Some k \<Rightarrow> k)] \<and> in_i64 (sn_ts n))"
| "input_fits (InHello challenge pubkey) = (fits challenge \<and> fits pubkey)"

lemma canonical_att_append:
  assumes "fits a" "fits b" "fits c" "fits x" "fits y" "fits z"
    and "canonical ''att'' [a, b, c] @ r = canonical ''att'' [x, y, z] @ s"
  shows "a = x \<and> b = y \<and> c = z \<and> r = s"
proof -
  have "canonical_field a @ (canonical_field b @ canonical_field c @ r) = canonical_field x @ (canonical_field y @ canonical_field z @ s)"
    using assms(7) by (simp add: canonical_def)
  then have 1: "a = x" "canonical_field b @ (canonical_field c @ r) = canonical_field y @ (canonical_field z @ s)"
    using canonical_field_append [OF assms(1,4)] by auto
  then have 2: "b = y" "canonical_field c @ r = canonical_field z @ s" using canonical_field_append [OF assms(2,5)] by auto
  then have "c = z \<and> r = s" using canonical_field_append [OF assms(3,6)] by blast
  then show ?thesis using 1 2 by simp
qed

lemma att_bytes_inj:
  "list_all (\<lambda>a. fits (a_hash a) \<and> fits (a_name a) \<and> fits (a_mime a)) as \<Longrightarrow>
   list_all (\<lambda>a. fits (a_hash a) \<and> fits (a_name a) \<and> fits (a_mime a)) bs \<Longrightarrow> att_bytes as = att_bytes bs \<Longrightarrow> as = bs"
proof (induction as arbitrary: bs)
  case Nil
  then show ?case by (cases bs) (auto simp: att_bytes_def canonical_def)
next
  case (Cons a as)
  obtain b bs' where b: "bs = b # bs'" using Cons.prems(3) by (cases bs) (auto simp: att_bytes_def canonical_def)
  have e: "canonical ''att'' [a_hash a, a_name a, a_mime a] @ att_bytes as = canonical ''att'' [a_hash b, a_name b, a_mime b] @ att_bytes bs'"
    using Cons.prems(3) by (simp add: b att_bytes_def)
  have "a_hash a = a_hash b \<and> a_name a = a_name b \<and> a_mime a = a_mime b \<and> att_bytes as = att_bytes bs'"
    by (rule canonical_att_append [OF _ _ _ _ _ _ e]) (use Cons.prems(1,2) in \<open>simp_all add: b\<close>)
  moreover from this have "as = bs'" using Cons.IH Cons.prems(1,2) by (simp add: b)
  ultimately show ?case by (simp add: b)
qed

fun input_domain :: "signed_input \<Rightarrow> string" where
  "input_domain (InOp op) = ''op/v1''"
| "input_domain (InMessage m) = ''msg/v2''"
| "input_domain (InReaction r) = ''react/v1''"
| "input_domain (InNote n) = ''note/v1''"
| "input_domain (InHello challenge pubkey) = ''hello/v1''"

fun input_fields :: "signed_input \<Rightarrow> string list" where
  "input_fields (InOp op) = [o_kind op, o_subject op, o_arg op, le_bytes 8 (o_ts op), o_nonce op, o_actor op]"
| "input_fields (InMessage m) = [sm_id m, sm_channel m, (case sm_thread_of m of None \<Rightarrow> [] | Some t \<Rightarrow> t), sm_sender m, le_bytes 8 (sm_ts m),
     [int_char (if sm_encrypted m then 1 else 0)], le_bytes 8 (sm_epoch m), sm_body m, att_bytes (sm_attachments m)]"
| "input_fields (InReaction r) = [sr_kind r, sr_target r, sr_by r, sr_emoji r, [int_char (if sr_remove r then 1 else 0)], le_bytes 8 (sr_ts r)]"
| "input_fields (InNote n) = [sn_id n, sn_author n, le_bytes 8 (sn_ts n), sn_title n, sn_body n, sn_tags n,
     (case sn_supersedes n of None \<Rightarrow> [] | Some k \<Rightarrow> k)]"
| "input_fields (InHello challenge pubkey) = [challenge, pubkey]"

lemma input_bytes_canonical: "input_bytes x = canonical (input_domain x) (input_fields x)"
  by (cases x) (simp_all add: signing_bytes_def message_signing_bytes_def reaction_signing_bytes_def note_signing_bytes_def
      hello_signing_bytes_def HELLO_DOMAIN_def att_bytes_def)

lemma fits_short [simp]: "fits (le_bytes 8 x)" "fits [c]"
  by (simp_all add: fits_def)

lemma input_fields_fit: "input_fits x \<Longrightarrow> list_all fits (input_fields x)"
  by (cases x) auto

lemma no_nul_domain: "CHR 0x00 \<notin> set (input_domain x)"
  by (cases x) auto

lemma flag_inj: "int_char (if b then 1 else 0) = int_char (if c then 1 else 0) \<longleftrightarrow> b = c"
  by (cases b; cases c) (simp_all add: int_char_def)

text \<open>
  C25: A signature stands for one input only. If the bytes signed for two inputs are the same, whatever they are -
  operations, messages, reactions, notes or the proof of a key in the handshake - then they are inputs of the same
  kind with the same contents; a missing thread or superseded note counts as the empty id. So no signature can be
  used again for another kind of input or with another field.
\<close>

theorem signed_once:
  assumes "input_fits x" "input_fits y" and "input_bytes x = input_bytes y"
  shows "unsigned_input x = unsigned_input y"
proof -
  have e: "input_domain x = input_domain y" "input_fields x = input_fields y"
    using canonical_inj [OF no_nul_domain no_nul_domain input_fields_fit [OF assms(1)] input_fields_fit [OF assms(2)]] assms(3)
    unfolding input_bytes_canonical by auto
  show ?thesis
  proof (cases x)
    case (InOp op)
    then obtain op' where y: "y = InOp op'" using e(1) by (cases y) auto
    then have "o_ts op = o_ts op'" using e(2) assms(1,2) InOp by (auto intro: le_bytes_i64_inj)
    then show ?thesis using e(2) unfolding y InOp by (simp add: signed_op.equality)
  next
    case (InMessage m)
    then obtain m' where y: "y = InMessage m'" using e(1) by (cases y) auto
    then have "sm_ts m = sm_ts m'" "sm_epoch m = sm_epoch m'" "sm_attachments m = sm_attachments m'" "sm_encrypted m = sm_encrypted m'"
      using e(2) assms(1,2) InMessage by (auto intro: le_bytes_i64_inj att_bytes_inj simp: flag_inj)
    then show ?thesis using e(2) unfolding y InMessage by (simp add: signed_message.equality)
  next
    case (InReaction r)
    then obtain r' where y: "y = InReaction r'" using e(1) by (cases y) auto
    then have "sr_ts r = sr_ts r'" "sr_remove r = sr_remove r'"
      using e(2) assms(1,2) InReaction by (auto intro: le_bytes_i64_inj simp: flag_inj)
    then show ?thesis using e(2) unfolding y InReaction by (simp add: signed_reaction.equality)
  next
    case (InNote n)
    then obtain n' where y: "y = InNote n'" using e(1) by (cases y) auto
    then have "sn_ts n = sn_ts n'" using e(2) assms(1,2) InNote by (auto intro: le_bytes_i64_inj)
    then show ?thesis using e(2) unfolding y InNote by (simp add: signed_note.equality)
  next
    case (InHello c k)
    then show ?thesis using e by (cases y) auto
  qed
qed

theorem signed_once_witness:
  "input_bytes (InHello ''c'' ''k'') \<noteq> input_bytes (InOp (sample_op ''k'' ''s'' ''a'' 1 ''n'' ''o''))"
proof
  assume e: "input_bytes (InHello ''c'' ''k'') = input_bytes (InOp (sample_op ''k'' ''s'' ''a'' 1 ''n'' ''o''))"
  have "unsigned_input (InHello ''c'' ''k'') = unsigned_input (InOp (sample_op ''k'' ''s'' ''a'' 1 ''n'' ''o''))"
    by (rule signed_once [OF _ _ e]) (simp_all add: sample_op_def fits_def in_i64_def)
  then show False by simp
qed

lemma hello_verify_Inr:
  assumes "hello_verify P E h challenge = Inr k"
  shows "he_pubkey h = hex k \<and> length k = 32 \<and> (\<exists>sig. pr_sig_ok P k (input_bytes (InHello challenge k)) sig)"
  using assms by (auto simp: hello_verify_def bind_result_Inr_iff unhex_pk_def verify_def unhex32_iff_hex split: if_splits option.splits sum.splits)

end
