(* ===== verification/Spec2Isabelle.thy ===== *)
theory Spec2Isabelle
  imports Prelude F64 Cards Pyfmt Task Kahn Graph Order Plan Crypto Policy Store Identity Channels Messages Claims Textfmt Settings Teams Board Social Wire
begin

text \<open>
  A verification development of Agora, a coordination service for software agents that share one machine.
\<close>

end
